theory Spec2Isabelle
  imports Main "HOL-Library.Word"
begin

unbundle bit_operations_syntax

section \<open>Basic datatypes and constants (config.h)\<close>

text \<open>
  \<open>Word\<close> is \<open>uint32_t\<close>, \<open>DWord\<close> is \<open>uint64_t\<close> and \<open>SDWord\<close> is \<open>int64_t\<close>.
  A signed double word is the same 64 bits read with \<open>sint\<close>; its right shift is the
  arithmetic one (\<open>signed_drop_bit\<close>), which the source requires of the compiler.
  An array of words is a list, index 0 the least significant word. The C type \<open>int\<close>
  carries only lengths, flags, error codes and the values -1, 0, 1 here; lengths and loop
  counters are \<open>nat\<close>, the other values are \<open>int\<close>.
\<close>

type_synonym Word = "32 word"
type_synonym DWord = "64 word"
type_synonym SDWord = "64 word"

definition CONSTK :: nat where "CONSTK = 255"

abbreviation (input) CONSTC :: "'a::len word" where "CONSTC \<equiv> 19"

definition WSIZE :: nat where "WSIZE = 32"

definition LEN :: nat where "LEN = (CONSTK + WSIZE - 1) div WSIZE"

definition M25519_NO_ERROR :: int where "M25519_NO_ERROR = 0"

definition M25519_ERR_INVERS :: int where "M25519_ERR_INVERS = 2"

text \<open>The masks of gfparith.c.\<close>

definition ALL1MASK :: Word where "ALL1MASK = - 1"

definition MSB1MASK :: Word where "MSB1MASK = push_bit (WSIZE - 1) 1"

definition MSB0MASK :: Word where "MSB0MASK = drop_bit 1 ALL1MASK"

definition FOURXPHI :: DWord where "FOURXPHI = push_bit 2 (ucast MSB0MASK)"

definition FOURXPMI :: DWord where "FOURXPMI = push_bit 2 (ucast ALL1MASK)"

definition FOURXPLO :: DWord where "FOURXPLO = push_bit 2 (ucast (ALL1MASK - (CONSTC - 1)))"

text \<open>The conversion \<open>(int) x\<close> of a double word: the low 32 bits, read as signed.\<close>

definition int_cast :: "DWord \<Rightarrow> int" where
  "int_cast x = sint (ucast x :: Word)"

text \<open>
  What can stop a run other than a return: a failed \<open>assert\<close>, and an access at index
  \<open>len - 1\<close> when \<open>len\<close> is 0.
\<close>

datatype fault = AssertionFailed | IndexOutOfRange

section \<open>The integer an array represents\<close>

fun mpi_val :: "Word list \<Rightarrow> int" where
  "mpi_val [] = 0"
| "mpi_val (w # ws) = uint w + 2 ^ 32 * mpi_val ws"

definition P25519 :: int where "P25519 = 2 ^ 255 - 19"

section \<open>MPI kernel (mpiarith.c)\<close>

text \<open>
  Every routine takes the contents of the output array before the call as its first
  argument and returns the contents after the call; a loop \<open>for (i = 0; i < n; i++)\<close> is
  a \<open>fold\<close> over \<open>[0..<n]\<close>, a descending loop a \<open>fold\<close> over the reversed range. Each
  routine other than \<open>mpi_mul\<close> reads the words of index \<open>i\<close> (and \<open>i + 1\<close> in \<open>mpi_shr\<close>)
  of its inputs before it writes word \<open>i\<close> of the output, so a call whose output is one of
  its inputs is the call on a copy of that input.
\<close>

definition mpi_setw :: "Word list \<Rightarrow> Word \<Rightarrow> nat \<Rightarrow> Word list" where
  "mpi_setw r a len = (fold (\<lambda>i r. r[i := 0]) (rev [1..<len]) r)[0 := a]"

definition mpi_cmpw :: "Word list \<Rightarrow> Word \<Rightarrow> nat \<Rightarrow> int" where
  "mpi_cmpw a b len =
    (let is0 = fold (\<lambda>i is0. is0 OR a ! i) (rev [1..<len]) (0 :: Word);
         r = 0;
         r = r + (of_bool (b > a ! 0) OR of_bool (is0 \<noteq> 0));
         r = r - (of_bool (b < a ! 0) AND of_bool (is0 = 0))
     in r)"

definition mpi_cmp_step :: "Word list \<Rightarrow> Word list \<Rightarrow> nat \<Rightarrow> Word \<times> Word \<Rightarrow> Word \<times> Word" where
  "mpi_cmp_step a b i = (\<lambda>(lt, gt).
     (push_bit 1 lt OR of_bool (a ! i < b ! i), push_bit 1 gt OR of_bool (a ! i > b ! i)))"

definition mpi_cmp :: "Word list \<Rightarrow> Word list \<Rightarrow> nat \<Rightarrow> fault + int" where
  "mpi_cmp a b len =
    (if \<not> len \<le> WSIZE then Inl AssertionFailed
     else let (lt, gt) = fold (mpi_cmp_step a b) (rev [0..<len]) (0, 0);
              r = 0;
              r = r + of_bool (gt > lt);
              r = r - of_bool (lt > gt)
          in Inr r)"

definition mpi_copy :: "Word list \<Rightarrow> Word list \<Rightarrow> nat \<Rightarrow> Word list" where
  "mpi_copy r a len = fold (\<lambda>i r. r[i := a ! i]) (rev [0..<len]) r"

definition mpi_cadd_step :: "Word list \<Rightarrow> Word list \<Rightarrow> Word \<Rightarrow> nat \<Rightarrow> DWord \<times> Word list \<Rightarrow> DWord \<times> Word list" where
  "mpi_cadd_step a b msk i = (\<lambda>(sum, r).
     (let sum = sum + (ucast (a ! i) + ucast (b ! i AND msk));
          r = r[i := ucast sum];
          sum = drop_bit WSIZE sum
      in (sum, r)))"

definition mpi_cadd :: "Word list \<Rightarrow> Word list \<Rightarrow> Word list \<Rightarrow> int \<Rightarrow> nat \<Rightarrow> int \<times> Word list" where
  "mpi_cadd r a b add len =
    (let msk = 0 - word_of_int (add AND 1);
         (sum, r) = fold (mpi_cadd_step a b msk) [0..<len] (0, r)
     in (int_cast sum, r))"

definition mpi_shr :: "Word list \<Rightarrow> Word list \<Rightarrow> nat \<Rightarrow> int \<times> Word list" where
  "mpi_shr r a len =
    (let retval = uint (a ! 0 AND 1);
         r = fold (\<lambda>i r. r[i := push_bit (WSIZE - 1) (a ! (i + 1)) OR drop_bit 1 (a ! i)]) [0..<len - 1] r;
         r = r[len - 1 := drop_bit 1 (a ! (len - 1))]
     in (retval, r))"

definition mpi_sub_step :: "Word list \<Rightarrow> Word list \<Rightarrow> nat \<Rightarrow> DWord \<times> Word list \<Rightarrow> DWord \<times> Word list" where
  "mpi_sub_step a b i = (\<lambda>(dif, r).
     (let dif = dif + (ucast (a ! i) + ucast (NOT (b ! i)));
          r = r[i := ucast dif];
          dif = drop_bit WSIZE dif
      in (dif, r)))"

definition mpi_sub :: "Word list \<Rightarrow> Word list \<Rightarrow> Word list \<Rightarrow> nat \<Rightarrow> int \<times> Word list" where
  "mpi_sub r a b len =
    (let (dif, r) = fold (mpi_sub_step a b) [0..<len] (1, r)
     in (1 - int_cast dif, r))"

section \<open>Field kernel (gfparith.c)\<close>

definition gfp_setp :: "Word list \<Rightarrow> Word list" where
  "gfp_setp r =
    (let r = r[LEN - 1 := MSB0MASK];
         r = fold (\<lambda>i r. r[i := ALL1MASK]) (rev [1..<LEN - 1]) r
     in r[0 := 0 - CONSTC])"

definition gfp_add_step :: "Word list \<Rightarrow> Word list \<Rightarrow> nat \<Rightarrow> DWord \<times> Word list \<Rightarrow> DWord \<times> Word list" where
  "gfp_add_step a b i = (\<lambda>(sum, r).
     (let sum = sum + (ucast (a ! i) + ucast (b ! i));
          r = r[i := ucast sum];
          sum = drop_bit WSIZE sum
      in (sum, r)))"

definition gfp_add :: "Word list \<Rightarrow> Word list \<Rightarrow> Word list \<Rightarrow> Word list" where
  "gfp_add r a b =
    (let sum = ucast (a ! (LEN - 1)) + ucast (b ! (LEN - 1)) :: DWord;
         msw = (ucast sum :: Word) AND MSB0MASK;
         sum = CONSTC * ucast (ucast (drop_bit (WSIZE - 1) sum) :: Word);
         (sum, r) = fold (gfp_add_step a b) [0..<LEN - 1] (sum, r)
     in r[LEN - 1 := msw + ucast sum])"

definition gfp_sub_step :: "Word list \<Rightarrow> Word list \<Rightarrow> nat \<Rightarrow> SDWord \<times> Word list \<Rightarrow> SDWord \<times> Word list" where
  "gfp_sub_step a b i = (\<lambda>(sum, r).
     (let sum = sum + (ucast (a ! i) - ucast (b ! i));
          r = r[i := ucast sum];
          sum = signed_drop_bit WSIZE sum
      in (sum, r)))"

definition gfp_sub :: "Word list \<Rightarrow> Word list \<Rightarrow> Word list \<Rightarrow> Word list" where
  "gfp_sub r a b =
    (let sum = FOURXPHI + ucast (a ! (LEN - 1)) - ucast (b ! (LEN - 1)) :: SDWord;
         msw = (ucast sum :: Word) AND MSB0MASK;
         sum = CONSTC * ucast (ucast (signed_drop_bit (WSIZE - 1) sum) :: Word);
         sum = sum - push_bit 2 CONSTC;
         (sum, r) = fold (gfp_sub_step a b) [0..<LEN - 1] (sum, r)
     in r[LEN - 1 := msw + ucast sum + 4])"

text \<open>
  The alternative \<open>gfp_sub_v2\<close> with an unsigned \<open>sum\<close>, from the block of alternative
  implementations at the end of gfparith.c.
\<close>

definition gfp_sub_v2_step :: "Word list \<Rightarrow> Word list \<Rightarrow> nat \<Rightarrow> DWord \<times> Word list \<Rightarrow> DWord \<times> Word list" where
  "gfp_sub_v2_step a b i = (\<lambda>(sum, r).
     (let sum = sum + (FOURXPMI + ucast (a ! i) - ucast (b ! i));
          r = r[i := ucast sum];
          sum = drop_bit WSIZE sum
      in (sum, r)))"

definition gfp_sub_v2 :: "Word list \<Rightarrow> Word list \<Rightarrow> Word list \<Rightarrow> Word list" where
  "gfp_sub_v2 r a b =
    (let sum = FOURXPHI + ucast (a ! (LEN - 1)) - ucast (b ! (LEN - 1)) :: DWord;
         msw = (ucast sum :: Word) AND MSB0MASK;
         sum = CONSTC * ucast (ucast (drop_bit (WSIZE - 1) sum) :: Word);
         sum = sum + (FOURXPLO + ucast (a ! 0) - ucast (b ! 0));
         r = r[0 := ucast sum];
         sum = drop_bit WSIZE sum;
         (sum, r) = fold (gfp_sub_v2_step a b) [1..<LEN - 1] (sum, r)
     in r[LEN - 1 := msw + ucast sum])"

definition gfp_hlv_step :: "Word list \<Rightarrow> nat \<Rightarrow> SDWord \<times> Word \<times> Word list \<Rightarrow> SDWord \<times> Word \<times> Word list" where
  "gfp_hlv_step a i = (\<lambda>(sum, tmp, r).
     (let sum = sum + ucast (a ! i);
          r = r[i - 1 := push_bit (WSIZE - 1) (ucast sum :: Word) OR drop_bit 1 tmp];
          tmp = ucast sum;
          sum = signed_drop_bit WSIZE sum
      in (sum, tmp, r)))"

definition gfp_hlv :: "Word list \<Rightarrow> Word list \<Rightarrow> Word list" where
  "gfp_hlv r a =
    (let msk = 0 - (a ! 0 AND 1);
         sum = ucast (a ! 0) - ucast (CONSTC AND msk) :: SDWord;
         tmp = ucast sum :: Word;
         sum = signed_drop_bit WSIZE sum;
         (sum, tmp, r) = fold (gfp_hlv_step a) [1..<LEN - 1] (sum, tmp, r);
         sum = sum + (ucast (a ! (LEN - 1)) + ucast (MSB1MASK AND msk));
         r = r[LEN - 2 := push_bit (WSIZE - 1) (ucast sum :: Word) OR drop_bit 1 tmp]
     in r[LEN - 1 := ucast (signed_drop_bit 1 sum)])"

text \<open>
  \<open>gfp_mul\<close>: the product array \<open>t\<close> lives on the stack; every word of it is written
  before it is read, so its contents at entry (here zeros) do not matter.
\<close>

definition mul_first_step :: "Word list \<Rightarrow> Word list \<Rightarrow> nat \<Rightarrow> DWord \<times> Word list \<Rightarrow> DWord \<times> Word list" where
  "mul_first_step a b j = (\<lambda>(prod, t).
     (let prod = prod + ucast (a ! j) * ucast (b ! 0);
          t = t[j := ucast prod];
          prod = drop_bit WSIZE prod
      in (prod, t)))"

definition mul_inner_step :: "Word list \<Rightarrow> Word list \<Rightarrow> nat \<Rightarrow> nat \<Rightarrow> DWord \<times> Word list \<Rightarrow> DWord \<times> Word list" where
  "mul_inner_step a b i j = (\<lambda>(prod, t).
     (let prod = prod + ucast (a ! j) * ucast (b ! i);
          prod = prod + ucast (t ! (i + j));
          t = t[i + j := ucast prod];
          prod = drop_bit WSIZE prod
      in (prod, t)))"

definition mul_outer_step :: "Word list \<Rightarrow> Word list \<Rightarrow> nat \<Rightarrow> Word list \<Rightarrow> Word list" where
  "mul_outer_step a b i t =
     (let (prod, t) = fold (mul_inner_step a b i) [0..<LEN] (0, t)
      in t[i + LEN := ucast prod])"

definition red_first_step :: "nat \<Rightarrow> DWord \<times> Word list \<Rightarrow> DWord \<times> Word list" where
  "red_first_step i = (\<lambda>(prod, t).
     (let prod = prod + (ucast (t ! (i + LEN)) * push_bit 1 CONSTC + ucast (t ! i));
          t = t[i := ucast prod];
          prod = drop_bit WSIZE prod
      in (prod, t)))"

definition red_second_step :: "Word list \<Rightarrow> nat \<Rightarrow> DWord \<times> Word list \<Rightarrow> DWord \<times> Word list" where
  "red_second_step t i = (\<lambda>(prod, r).
     (let prod = prod + ucast (t ! i);
          r = r[i := ucast prod];
          prod = drop_bit WSIZE prod
      in (prod, r)))"

definition gfp_mul :: "Word list \<Rightarrow> Word list \<Rightarrow> Word list \<Rightarrow> Word list" where
  "gfp_mul r a b =
    (let t = replicate (2 * LEN) 0;
         (prod, t) = fold (mul_first_step a b) [0..<LEN] (0, t);
         t = t[LEN := ucast prod];
         t = fold (mul_outer_step a b) [1..<LEN] t;
         (prod, t) = fold red_first_step [0..<LEN - 1] (0, t);
         prod = prod + (ucast (t ! (2 * LEN - 1)) * push_bit 1 CONSTC + ucast (t ! (LEN - 1)));
         msw = (ucast prod :: Word) AND MSB0MASK;
         prod = CONSTC * drop_bit (WSIZE - 1) prod;
         (prod, r) = fold (red_second_step t) [0..<LEN - 1] (prod, r)
     in r[LEN - 1 := msw + ucast prod])"

section \<open>Composite operations (gfparith.c)\<close>

definition gfp_fred :: "Word list \<Rightarrow> Word list \<Rightarrow> Word list" where
  "gfp_fred r a =
    (let p = gfp_setp (replicate LEN 0);
         (rbit, r) = mpi_sub r a p LEN;
         (_, r) = mpi_cadd r r p rbit LEN;
         (rbit, r) = mpi_sub r r p LEN;
         (_, r) = mpi_cadd r r p rbit LEN
     in r)"

definition gfp_cmp :: "Word list \<Rightarrow> Word list \<Rightarrow> fault + int" where
  "gfp_cmp a b =
    (let p = gfp_setp (replicate LEN 0);
         ar = replicate LEN 0;
         br = replicate LEN 0;
         (rbit, ar) = mpi_sub ar a p LEN;
         (_, ar) = mpi_cadd ar ar p rbit LEN;
         (rbit, ar) = mpi_sub ar ar p LEN;
         (_, ar) = mpi_cadd ar ar p rbit LEN;
         (rbit, br) = mpi_sub br b p LEN;
         (_, br) = mpi_cadd br br p rbit LEN;
         (rbit, br) = mpi_sub br br p LEN;
         (_, br) = mpi_cadd br br p rbit LEN
     in mpi_cmp ar br LEN)"

text \<open>
  \<open>gfp_inv\<close>. Its loops are not bounded by a counter, so each is a partial function:
  \<open>None\<close> is a loop that never ends, \<open>Some (Inl f)\<close> a run stopped by the fault \<open>f\<close>,
  \<open>Some (Inr x)\<close> a normal exit. The three elements of \<open>tmp\<close> are the arrays \<open>ux\<close>,
  \<open>vx\<close> and \<open>x1\<close>; \<open>x2\<close> is the output array \<open>r\<close> itself.
\<close>

text \<open>\<open>while (mpi_cmp(ux, vx, LEN) >= 0) mpi_sub(ux, ux, vx, LEN);\<close>\<close>

partial_function (option) inv_reduce :: "Word list \<Rightarrow> Word list \<Rightarrow> (fault + Word list) option" where
  "inv_reduce ux vx =
    (case mpi_cmp ux vx LEN of
       Inl f \<Rightarrow> Some (Inl f)
     | Inr c \<Rightarrow> if c \<ge> 0 then inv_reduce (snd (mpi_sub ux ux vx LEN)) vx else Some (Inr ux))"

declare inv_reduce.simps [code]

text \<open>
  \<open>while ((ux[0] & 1) == 0) { mpi_shr(ux, ux, uvlen); gfp_hlv(x1, x1); }\<close>, and the same
  loop on \<open>vx\<close> and \<open>x2\<close>. \<open>mpi_shr\<close> accesses index \<open>uvlen - 1\<close>.
\<close>

partial_function (option) inv_halve :: "nat \<Rightarrow> Word list \<Rightarrow> Word list \<Rightarrow> (fault + Word list \<times> Word list) option" where
  "inv_halve uvlen u x =
    (if u ! 0 AND 1 = 0 then
       (if uvlen = 0 then Some (Inl IndexOutOfRange)
        else inv_halve uvlen (snd (mpi_shr u u uvlen)) (gfp_hlv x x))
     else Some (Inr (u, x)))"

declare inv_halve.simps [code]

record inv_state =
  ux :: "Word list"
  vx :: "Word list"
  x1 :: "Word list"
  x2 :: "Word list"
  uvlen :: nat

text \<open>The test and the body of the main loop.\<close>

definition inv_cond :: "inv_state \<Rightarrow> bool" where
  "inv_cond s = (mpi_cmpw (ux s) 1 (uvlen s) \<noteq> 0 \<and> mpi_cmpw (vx s) 1 (uvlen s) \<noteq> 0)"

definition inv_sub :: "inv_state \<Rightarrow> fault + inv_state" where
  "inv_sub s =
    (case mpi_cmp (ux s) (vx s) (uvlen s) of
       Inl f \<Rightarrow> Inl f
     | Inr c \<Rightarrow>
        (let s = (if c \<ge> 0
                  then s\<lparr>ux := snd (mpi_sub (ux s) (ux s) (vx s) (uvlen s)),
                         x1 := gfp_sub (x1 s) (x1 s) (x2 s)\<rparr>
                  else s\<lparr>vx := snd (mpi_sub (vx s) (vx s) (ux s) (uvlen s)),
                         x2 := gfp_sub (x2 s) (x2 s) (x1 s)\<rparr>)
         in if uvlen s = 0 then Inl IndexOutOfRange
            else if ux s ! (uvlen s - 1) = 0 \<and> vx s ! (uvlen s - 1) = 0
                 then Inr (s\<lparr>uvlen := uvlen s - 1\<rparr>)
                 else Inr s))"

definition inv_body :: "inv_state \<Rightarrow> (fault + inv_state) option" where
  "inv_body s =
    (case inv_halve (uvlen s) (ux s) (x1 s) of
       None \<Rightarrow> None
     | Some (Inl f) \<Rightarrow> Some (Inl f)
     | Some (Inr (u, y1)) \<Rightarrow>
        (case inv_halve (uvlen s) (vx s) (x2 s) of
           None \<Rightarrow> None
         | Some (Inl f) \<Rightarrow> Some (Inl f)
         | Some (Inr (v, y2)) \<Rightarrow> Some (inv_sub (s\<lparr>ux := u, x1 := y1, vx := v, x2 := y2\<rparr>))))"

partial_function (option) inv_loop :: "inv_state \<Rightarrow> (fault + inv_state) option" where
  "inv_loop s =
    (if inv_cond s then
       (case inv_body s of
          None \<Rightarrow> None
        | Some (Inl f) \<Rightarrow> Some (Inl f)
        | Some (Inr s') \<Rightarrow> inv_loop s')
     else Some (Inr s))"

declare inv_loop.simps [code]

text \<open>The state in which \<open>gfp_inv\<close> enters its main loop, when it gets there.\<close>

definition inv_init :: "Word list \<Rightarrow> Word list \<Rightarrow> (fault + inv_state) option" where
  "inv_init r a =
    (let ux = mpi_copy (replicate LEN 0) a LEN;
         vx = gfp_setp (replicate LEN 0);
         x1 = mpi_setw (replicate LEN 0) 1 LEN;
         x2 = mpi_setw r 0 LEN
     in case inv_reduce ux vx of
          None \<Rightarrow> None
        | Some (Inl f) \<Rightarrow> Some (Inl f)
        | Some (Inr ux) \<Rightarrow> Some (Inr \<lparr>ux = ux, vx = vx, x1 = x1, x2 = x2, uvlen = LEN\<rparr>))"

definition gfp_inv :: "Word list \<Rightarrow> Word list \<Rightarrow> (fault + int \<times> Word list) option" where
  "gfp_inv r a =
    (case inv_init r a of
       None \<Rightarrow> None
     | Some (Inl f) \<Rightarrow> Some (Inl f)
     | Some (Inr s) \<Rightarrow>
        if mpi_cmpw (ux s) 0 LEN = 0 then Some (Inr (M25519_ERR_INVERS, x2 s))
        else (case inv_loop s of
                None \<Rightarrow> None
              | Some (Inl f) \<Rightarrow> Some (Inl f)
              | Some (Inr s) \<Rightarrow>
                 Some (Inr (M25519_NO_ERROR,
                   if mpi_cmpw (ux s) 1 LEN = 0 then mpi_copy (x2 s) (x1 s) LEN else x2 s))))"

text \<open>
  The states in which a run of \<open>gfp_inv r a\<close> evaluates the test of its main loop. The
  calls \<open>mpi_cmp(ux, vx, uvlen)\<close> of an iteration use the \<open>uvlen\<close> of the state at its
  start.
\<close>

inductive inv_reaches :: "Word list \<Rightarrow> Word list \<Rightarrow> inv_state \<Rightarrow> bool" for r a where
  start: "inv_init r a = Some (Inr s) \<Longrightarrow> mpi_cmpw (ux s) 0 LEN \<noteq> 0 \<Longrightarrow> inv_reaches r a s"
| step: "inv_reaches r a s \<Longrightarrow> inv_cond s \<Longrightarrow> inv_body s = Some (Inr s') \<Longrightarrow> inv_reaches r a s'"

text \<open>
  The shape of a state of the main loop: the four arrays have \<open>LEN\<close> words and \<open>uvlen\<close>
  is a length between 1 and \<open>LEN\<close>.
\<close>

definition inv_shape :: "inv_state \<Rightarrow> bool" where
  "inv_shape s \<longleftrightarrow> length (ux s) = 8 \<and> length (vx s) = 8 \<and> length (x1 s) = 8 \<and>
     length (x2 s) = 8 \<and> 1 \<le> uvlen s \<and> uvlen s \<le> 8"

section \<open>Arithmetic behind the inversion\<close>

text \<open>
  \<open>gfp_inv\<close> is a binary extended Euclidean algorithm; that it ends with an inverse rests on
  \<open>p = 2^255 - 19\<close> being prime. Primality is proved from certificates whose modular powers
  are evaluated by the functions below: \<open>bred\<close> subtracts an estimated multiple of the
  modulus, \<open>fold_red\<close> folds the bits above \<open>2^s\<close> back for a modulus \<open>2^s - c\<close>, \<open>mpow\<close> is square-and-multiply over the bits of the exponent, most significant
  bit first.
\<close>

definition is_prime :: "nat \<Rightarrow> bool" where
  "is_prime p \<longleftrightarrow> 1 < p \<and> (\<forall>m. m dvd p \<longrightarrow> m = 1 \<or> m = p)"

definition pw :: "nat \<Rightarrow> nat \<Rightarrow> nat \<Rightarrow> nat \<Rightarrow> bool" where
  "pw n a e y \<longleftrightarrow> a ^ e mod n = y mod n"

definition bred :: "nat \<Rightarrow> nat \<Rightarrow> nat \<Rightarrow> nat \<Rightarrow> nat \<Rightarrow> nat" where
  "bred n mu s1 s2 x = x - drop_bit s2 (drop_bit s1 x * mu) * n"

definition fold_red :: "nat \<Rightarrow> nat \<Rightarrow> nat \<Rightarrow> nat" where
  "fold_red c s x = c * drop_bit s x + take_bit s x"

definition fold_red2 :: "nat \<Rightarrow> nat \<Rightarrow> nat \<Rightarrow> nat" where
  "fold_red2 c s x = fold_red c s (fold_red c s x)"

fun mpow :: "(nat \<Rightarrow> nat) \<Rightarrow> nat \<Rightarrow> nat \<Rightarrow> bool list \<Rightarrow> nat" where
  "mpow red b acc [] = acc"
| "mpow red b acc (False # bs) = mpow red b (red (acc * acc)) bs"
| "mpow red b acc (True # bs) = mpow red b (red (red (acc * acc) * b)) bs"

fun bits_val :: "nat \<Rightarrow> bool list \<Rightarrow> nat" where
  "bits_val v [] = v"
| "bits_val v (False # bs) = bits_val (2 * v) bs"
| "bits_val v (True # bs) = bits_val (2 * v + 1) bs"

text \<open>
  The invariant of the main loop of \<open>gfp_inv\<close> for an operand of value \<open>A\<close>: the words of
  \<open>ux\<close> and \<open>vx\<close> from \<open>uvlen\<close> on are zero, both numbers are positive and coprime, and
  \<open>x1 * A\<close> and \<open>x2 * A\<close> are congruent to them modulo \<open>p\<close>.
\<close>

definition inv_ok :: "int \<Rightarrow> inv_state \<Rightarrow> bool" where
  "inv_ok A s \<longleftrightarrow> inv_shape s \<and>
     mpi_val (drop (uvlen s) (ux s)) = 0 \<and> mpi_val (drop (uvlen s) (vx s)) = 0 \<and>
     0 < mpi_val (ux s) \<and> 0 < mpi_val (vx s) \<and> coprime (mpi_val (ux s)) (mpi_val (vx s)) \<and>
     (mpi_val (x1 s) * A) mod P25519 = mpi_val (ux s) mod P25519 \<and>
     (mpi_val (x2 s) * A) mod P25519 = mpi_val (vx s) mod P25519"

section \<open>Arrays as integers, loops as folds\<close>

lemma LEN_eq: "LEN = 8" by (simp add: LEN_def CONSTK_def WSIZE_def)
lemma WSIZE_eq: "WSIZE = 32" by (simp add: WSIZE_def)
lemma MSB0MASK_eq: "MSB0MASK = 0x7FFFFFFF" by (simp add: MSB0MASK_def ALL1MASK_def mask_eq_exp_minus_1)
lemma MSB1MASK_eq: "MSB1MASK = 0x80000000" by (simp add: MSB1MASK_def WSIZE_def)
lemma ALL1MASK_eq: "ALL1MASK = 0xFFFFFFFF" by (simp add: ALL1MASK_def)
lemma FOURXPHI_eq: "FOURXPHI = 0x1FFFFFFFC" by (simp add: FOURXPHI_def MSB0MASK_eq)
lemma FOURXPMI_eq: "FOURXPMI = 0x3FFFFFFFC" by (simp add: FOURXPMI_def ALL1MASK_eq)
lemma FOURXPLO_eq: "FOURXPLO = 0x3FFFFFFB4" by (simp add: FOURXPLO_def ALL1MASK_eq)

lemma mpi_val_ge0: "0 \<le> mpi_val xs"
  by (induction xs) auto

lemma mpi_val_lt: "mpi_val xs < 2 ^ (32 * length xs)"
proof (induction xs)
  case Nil then show ?case by simp
next
  case (Cons w ws)
  have "uint w < 2 ^ 32" using uint_lt2p [of w] by simp
  moreover have "mpi_val ws + 1 \<le> 2 ^ (32 * length ws)" using Cons by simp
  then have "2 ^ 32 * (mpi_val ws + 1) \<le> (2 ^ 32 :: int) * 2 ^ (32 * length ws)"
    by (rule mult_left_mono) simp
  ultimately show ?case by (simp add: power_add algebra_simps)
qed

lemma mpi_val_append: "mpi_val (xs @ ys) = mpi_val xs + 2 ^ (32 * length xs) * mpi_val ys"
  by (induction xs) (simp_all add: power_add algebra_simps)

lemma mpi_val_take_Suc:
  "i < length xs \<Longrightarrow> mpi_val (take (Suc i) xs) = mpi_val (take i xs) + 2 ^ (32 * i) * uint (xs ! i)"
  by (simp add: take_Suc_conv_app_nth mpi_val_append)

lemma mpi_val_take_drop: "mpi_val xs = mpi_val (take n xs) + 2 ^ (32 * min n (length xs)) * mpi_val (drop n xs)"
  using mpi_val_append [of "take n xs" "drop n xs"] by (simp add: min.commute)

lemma mpi_val_inj: "length xs = length ys \<Longrightarrow> mpi_val xs = mpi_val ys \<Longrightarrow> xs = ys"
proof (induction xs arbitrary: ys)
  case Nil then show ?case by simp
next
  case (Cons x xs)
  then obtain y ys' where ys: "ys = y # ys'" by (cases ys) auto
  from Cons.prems have e: "uint x + 2 ^ 32 * mpi_val xs = uint y + 2 ^ 32 * mpi_val ys'" by (simp add: ys)
  have "(uint x + 2 ^ 32 * mpi_val xs) mod 2 ^ 32 = uint x mod 2 ^ 32"
    by (rule mod_mult_self2)
  moreover have "(uint y + 2 ^ 32 * mpi_val ys') mod 2 ^ 32 = uint y mod 2 ^ 32"
    by (rule mod_mult_self2)
  moreover have "uint x mod 2 ^ 32 = uint x" "uint y mod 2 ^ 32 = uint y"
    using uint_lt2p [of x] uint_lt2p [of y] by simp_all
  ultimately have xy: "uint x = uint y" using e by metis
  then have "mpi_val xs = mpi_val ys'" using e by simp
  moreover have "length xs = length ys'" using Cons.prems(1) ys by simp
  ultimately have "xs = ys'" by (rule Cons.IH [rotated])
  moreover have "x = y" using xy by (simp add: word_uint_eq_iff)
  ultimately show ?case using ys by simp
qed

lemma fold_upt_inv:
  assumes "P 0 s0" and "\<And>i s. i < n \<Longrightarrow> P i s \<Longrightarrow> P (Suc i) (f i s)"
  shows "P n (fold f [0..<n] s0)"
  using assms(2)
proof (induction n)
  case 0 then show ?case using assms(1) by simp
next
  case (Suc n)
  then show ?case by simp
qed

lemma fold_upt_from_inv:
  assumes "m \<le> n" "P m s0" and "\<And>i s. m \<le> i \<Longrightarrow> i < n \<Longrightarrow> P i s \<Longrightarrow> P (Suc i) (f i s)"
  shows "P n (fold f [m..<n] s0)"
  using assms(1,3)
proof (induction n)
  case 0 then show ?case using assms(2) by simp
next
  case (Suc n)
  show ?case
  proof (cases "m = Suc n")
    case True then show ?thesis using assms(2) by simp
  next
    case False
    then have mn: "m \<le> n" using Suc.prems(1) by simp
    have "P n (fold f [m..<n] s0)" using Suc.IH [OF mn] Suc.prems(2) by simp
    then show ?thesis using mn Suc.prems(2) [of n] by simp
  qed
qed

text \<open>descending loop: for (i = n - 1; i >= m; i--)\<close>
lemma fold_rev_upt_inv:
  assumes "m \<le> n" "P n s0" and "\<And>i s. m \<le> i \<Longrightarrow> i < n \<Longrightarrow> P (Suc i) s \<Longrightarrow> P i (f i s)"
  shows "P m (fold f (rev [m..<n]) s0)"
proof -
  have "\<And>k. k \<le> n - m \<Longrightarrow> P (n - k) (fold f (rev [n - k..<n]) s0)"
  proof -
    fix k show "k \<le> n - m \<Longrightarrow> P (n - k) (fold f (rev [n - k..<n]) s0)"
    proof (induction k)
      case 0 then show ?case using assms(2) by simp
    next
      case (Suc k)
      then have k: "k \<le> n - m" and lt: "n - Suc k < n" "m \<le> n - Suc k" using assms(1) by auto
      have e: "[n - Suc k..<n] = (n - Suc k) # [n - k..<n]"
        using lt Suc.prems upt_conv_Cons [of "n - Suc k" n] by (simp add: Suc_diff_Suc)
      have "Suc (n - Suc k) = n - k" using Suc.prems by simp
      then show ?case using Suc.IH [OF k] assms(3) [of "n - Suc k"] lt by (simp add: e)
    qed
  qed
  from this [of "n - m"] show ?thesis using assms(1) by simp
qed

section \<open>Words as integers\<close>

lemma uint_lt_dw: "uint (v :: DWord) < 2 ^ 64" using uint_lt2p [of v] by simp
lemma uint_lt_w: "uint (v :: Word) < 2 ^ 32" using uint_lt2p [of v] by simp

lemma uint_ucast_down: "uint (ucast (v :: DWord) :: Word) = uint v mod 2 ^ 32"
  by (simp add: unsigned_ucast_eq take_bit_eq_mod)

lemma uint_ucast_up: "uint (ucast (w :: Word) :: DWord) = uint w"
  using uint_lt_w [of w] by (simp add: unsigned_ucast_eq take_bit_eq_mod)

lemma uint_drop_bit_word: "uint (drop_bit n (v :: 'a::len word)) = uint v div 2 ^ n"
proof -
  have "unat (drop_bit n v) = drop_bit n (unat v)" by (rule unat_drop_bit_eq)
  also have "\<dots> = unat v div 2 ^ n" by (rule drop_bit_eq_div)
  finally have "unat (drop_bit n v) = unat v div 2 ^ n" .
  then have "int (unat (drop_bit n v)) = int (unat v div 2 ^ n)" by (rule arg_cong)
  also have "\<dots> = int (unat v) div 2 ^ n" by (simp add: zdiv_int)
  finally show ?thesis by (simp only: uint_nat)
qed

lemma sint_signed_drop_bit_dw: "sint (signed_drop_bit n (v :: DWord)) = sint v div 2 ^ n"
  by (simp add: sint_signed_drop_bit_eq drop_bit_eq_div)

lemma sint_ucast_down: "uint (ucast (v :: DWord) :: Word) = sint v mod 2 ^ 32"
proof -
  have "uint v = sint v mod 2 ^ 64" by (simp add: uint_sint take_bit_eq_mod)
  then have "uint v mod 2 ^ 32 = (sint v mod 2 ^ 64) mod 2 ^ 32" by simp
  also have "\<dots> = sint v mod 2 ^ 32" by (rule mod_mod_cancel) simp
  finally show ?thesis by (simp add: uint_ucast_down)
qed

lemma uint_eqI: "w = word_of_int v \<Longrightarrow> 0 \<le> v \<Longrightarrow> v < 2 ^ 64 \<Longrightarrow> uint (w :: DWord) = v"
  by (simp add: uint_word_of_int take_bit_eq_mod)

lemma sint_eqI: "w = word_of_int v \<Longrightarrow> - (2 ^ 63) \<le> v \<Longrightarrow> v < 2 ^ 63 \<Longrightarrow> sint (w :: DWord) = v"
  by (simp add: sint_sbintrunc' signed_take_bit_int_eq_self)

lemma uint_w_eqI: "w = word_of_int v \<Longrightarrow> 0 \<le> v \<Longrightarrow> v < 2 ^ 32 \<Longrightarrow> uint (w :: Word) = v"
  by (simp add: uint_word_of_int take_bit_eq_mod)

lemma split_word_int: "(v :: int) mod 2 ^ 32 + 2 ^ 32 * (v div 2 ^ 32) = v"
  by simp

text \<open>One carry chain: words m..<n of a sum are written to r[off + m..<off + n].\<close>
lemma chain:
  fixes f :: "nat \<Rightarrow> DWord \<times> Word list \<Rightarrow> DWord \<times> Word list"
    and rd :: "DWord \<Rightarrow> int" and sh :: "DWord \<Rightarrow> DWord" and x :: "nat \<Rightarrow> int"
  assumes rd_low: "\<And>v. uint (ucast v :: Word) = rd v mod 2 ^ 32"
      and rd_sh: "\<And>v. rd (sh v) = rd v div 2 ^ 32"
      and B_sh: "\<And>v. B (sh v)"
      and step: "\<And>j s r. m \<le> j \<Longrightarrow> j < n \<Longrightarrow> B s \<Longrightarrow> length r = length r0 \<Longrightarrow>
                   drop (off + j) r = drop (off + j) r0 \<Longrightarrow>
                   \<exists>v. f j (s, r) = (sh v, r[off + j := ucast v]) \<and> rd v = rd s + x j"
      and B0: "B s0" and len: "off + n \<le> length r0" and mn: "m \<le> n"
  shows "case fold f [m..<n] (s0, r0) of (s, r) \<Rightarrow>
           length r = length r0 \<and> take (off + m) r = take (off + m) r0 \<and>
           drop (off + n) r = drop (off + n) r0 \<and> B s \<and>
           mpi_val (take (n - m) (drop (off + m) r)) + 2 ^ (32 * (n - m)) * rd s
             = rd s0 + (\<Sum>j = m..<n. 2 ^ (32 * (j - m)) * x j)"
proof -
  define P where "P k sr = (case sr of (s, r) \<Rightarrow>
           length r = length r0 \<and> take (off + m) r = take (off + m) r0 \<and>
           drop (off + k) r = drop (off + k) r0 \<and> B s \<and>
           mpi_val (take (k - m) (drop (off + m) r)) + 2 ^ (32 * (k - m)) * rd s
             = rd s0 + (\<Sum>j = m..<k. 2 ^ (32 * (j - m)) * x j))" for k sr
  have "P n (fold f [m..<n] (s0, r0))"
  proof (rule fold_upt_from_inv [OF mn])
    show "P m (s0, r0)" using B0 by (simp add: P_def)
  next
    fix k sr assume mk: "m \<le> k" and kn: "k < n" and Pk: "P k sr"
    obtain s r where sr: "sr = (s, r)" by (cases sr)
    from Pk have lr: "length r = length r0" and tk: "take (off + m) r = take (off + m) r0"
      and dr: "drop (off + k) r = drop (off + k) r0" and Bs: "B s"
      and val: "mpi_val (take (k - m) (drop (off + m) r)) + 2 ^ (32 * (k - m)) * rd s
             = rd s0 + (\<Sum>j = m..<k. 2 ^ (32 * (j - m)) * x j)"
      by (simp_all add: P_def sr)
    from step [OF mk kn Bs lr dr] obtain v where
      fv: "f k (s, r) = (sh v, r[off + k := ucast v])" and rv: "rd v = rd s + x k" by blast
    let ?r = "r[off + k := ucast v]"
    have klen: "off + k < length r" using kn len lr by simp
    have 1: "length ?r = length r0" using lr by simp
    have 2: "take (off + m) ?r = take (off + m) r0" using tk mk by simp
    have "drop (Suc (off + k)) r = drop (Suc (off + k)) r0"
      using dr by (metis drop_Suc tl_drop)
    then have 3: "drop (off + Suc k) ?r = drop (off + Suc k) r0" by simp
    have dm: "drop (off + m) ?r = (drop (off + m) r)[k - m := ucast v]"
      using mk by (simp add: drop_update_swap)
    have km: "k - m < length (drop (off + m) r)" using klen mk by simp
    have "take (Suc (k - m)) (drop (off + m) ?r)
            = take (k - m) (drop (off + m) r) @ [ucast v]"
      using km by (simp add: dm take_Suc_conv_app_nth)
    then have e1: "mpi_val (take (Suc k - m) (drop (off + m) ?r))
            = mpi_val (take (k - m) (drop (off + m) r)) + 2 ^ (32 * (k - m)) * (rd v mod 2 ^ 32)"
      using mk km by (simp add: Suc_diff_le mpi_val_append rd_low min_def)
    have e2: "(2::int) ^ (32 * (Suc k - m)) = 2 ^ (32 * (k - m)) * 2 ^ 32"
      using mk by (simp add: Suc_diff_le power_add)
    have e3: "(\<Sum>j = m..<Suc k. 2 ^ (32 * (j - m)) * x j)
            = (\<Sum>j = m..<k. 2 ^ (32 * (j - m)) * x j) + 2 ^ (32 * (k - m)) * x k"
      using mk by simp
    define E :: int where "E = 2 ^ (32 * (k - m))"
    have "E * (rd v mod 2 ^ 32) + E * 2 ^ 32 * (rd v div 2 ^ 32)
            = E * (rd v mod 2 ^ 32 + 2 ^ 32 * (rd v div 2 ^ 32))"
      by (simp only: distrib_left mult.assoc)
    also have "\<dots> = E * rd v" by simp
    also have "\<dots> = E * rd s + E * x k" by (simp only: rv distrib_left)
    finally have e4: "E * (rd v mod 2 ^ 32) + E * 2 ^ 32 * (rd v div 2 ^ 32) = E * rd s + E * x k" .
    have 5: "mpi_val (take (Suc k - m) (drop (off + m) ?r)) + 2 ^ (32 * (Suc k - m)) * rd (sh v)
             = rd s0 + (\<Sum>j = m..<Suc k. 2 ^ (32 * (j - m)) * x j)"
      unfolding e1 e2 e3 rd_sh using val e4 unfolding E_def by linarith
    show "P (Suc k) (f k sr)"
      unfolding sr fv P_def using 1 2 3 5 B_sh by simp
  qed
  then show ?thesis by (simp add: P_def)
qed

lemma uint_add_dw: "uint x + uint y < 2 ^ 64 \<Longrightarrow> uint (x + y :: DWord) = uint x + uint y"
  using uint_add_lem [of x y] by simp

lemma uint_mult_dw: "uint x * uint y < 2 ^ 64 \<Longrightarrow> uint (x * y :: DWord) = uint x * uint y"
  using uint_mult_lem [of x y] by simp

lemma uint_add_w: "uint x + uint y < 2 ^ 32 \<Longrightarrow> uint (x + y :: Word) = uint x + uint y"
  using uint_add_lem [of x y] by simp

lemma sint_add_dw:
  "- (2 ^ 63) \<le> sint x + sint y \<Longrightarrow> sint x + sint y < 2 ^ 63 \<Longrightarrow> sint (x + y :: DWord) = sint x + sint y"
  by (simp add: sint_word_add signed_take_bit_int_eq_self)

lemma sint_sub_dw:
  "- (2 ^ 63) \<le> sint x - sint y \<Longrightarrow> sint x - sint y < 2 ^ 63 \<Longrightarrow> sint (x - y :: DWord) = sint x - sint y"
  by (simp add: sint_word_ariths signed_take_bit_int_eq_self)

lemma sint_ucast_up: "sint (ucast (w :: Word) :: DWord) = uint w"
proof -
  have "ucast w = (word_of_int (uint w) :: DWord)" by (rule ucast_eq)
  moreover have "- (2 ^ 63) \<le> uint w" by (rule order_trans [of _ 0]) simp_all
  moreover have "uint w < 2 ^ 63" using uint_lt_w [of w] by simp
  ultimately show ?thesis by (rule sint_eqI)
qed

lemma uint_not_w: "uint (NOT (w :: Word)) = 2 ^ 32 - 1 - uint w"
proof -
  define S where "S = uint w + uint (NOT w)"
  have "w + NOT w = - 1" by (simp add: not_eq_complement)
  then have "uint (w + NOT w) = 2 ^ 32 - 1"
    by (simp add: unsigned_minus_1_eq_mask mask_eq_exp_minus_1)
  then have m: "S mod 2 ^ 32 = 2 ^ 32 - 1"
    unfolding uint_word_ariths S_def by simp
  have b: "0 \<le> S" "S \<le> 2 ^ 33 - 2"
    using uint_lt_w [of w] uint_lt_w [of "NOT w"] by (simp_all add: S_def)
  have "S = 2 ^ 32 - 1"
  proof (cases "S < 2 ^ 32")
    case True
    then have "S mod 2 ^ 32 = S" using b by simp
    then show ?thesis using m by simp
  next
    case False
    then have "0 \<le> S - 2 ^ 32" "S - 2 ^ 32 < 2 ^ 32" using b by simp_all
    then have "(S - 2 ^ 32) mod 2 ^ 32 = S - 2 ^ 32" by (rule mod_pos_pos_trivial)
    moreover have "(S - 2 ^ 32) mod 2 ^ 32 = S mod 2 ^ 32" by (rule minus_mod_self2)
    ultimately have "S - 2 ^ 32 = 2 ^ 32 - 1" using m by simp
    then show ?thesis using b by simp
  qed
  then show ?thesis by (simp add: S_def)
qed

lemma uchain:
  fixes f :: "nat \<Rightarrow> DWord \<times> Word list \<Rightarrow> DWord \<times> Word list"
  assumes step: "\<And>j s r. m \<le> j \<Longrightarrow> j < n \<Longrightarrow> uint s < 2 ^ 32 \<Longrightarrow> length r = length r0 \<Longrightarrow>
                   drop (off + j) r = drop (off + j) r0 \<Longrightarrow>
                   \<exists>v. f j (s, r) = (drop_bit 32 v, r[off + j := ucast v]) \<and> uint v = uint s + x j"
      and B0: "uint s0 < 2 ^ 32" and len: "off + n \<le> length r0" and mn: "m \<le> n"
  shows "case fold f [m..<n] (s0, r0) of (s, r) \<Rightarrow>
           length r = length r0 \<and> take (off + m) r = take (off + m) r0 \<and>
           drop (off + n) r = drop (off + n) r0 \<and> uint s < 2 ^ 32 \<and>
           mpi_val (take (n - m) (drop (off + m) r)) + 2 ^ (32 * (n - m)) * uint s
             = uint s0 + (\<Sum>j = m..<n. 2 ^ (32 * (j - m)) * x j)"
proof (rule chain [where rd = uint and sh = "drop_bit 32" and B = "\<lambda>s. uint s < 2 ^ 32", OF _ _ _ step B0 len mn])
  show "\<And>v. uint (ucast (v::DWord) :: Word) = uint v mod 2 ^ 32" by (rule uint_ucast_down)
  show "\<And>v::DWord. uint (drop_bit 32 v) = uint v div 2 ^ 32" by (rule uint_drop_bit_word)
  show "\<And>v::DWord. uint (drop_bit 32 v) < 2 ^ 32"
  proof -
    fix v :: DWord
    have "uint v div 2 ^ 32 < 2 ^ 32" using uint_lt_dw [of v] by simp
    then show "uint (drop_bit 32 v) < 2 ^ 32" by (simp only: uint_drop_bit_word)
  qed
qed

lemma schain:
  fixes f :: "nat \<Rightarrow> DWord \<times> Word list \<Rightarrow> DWord \<times> Word list"
  assumes step: "\<And>j s r. m \<le> j \<Longrightarrow> j < n \<Longrightarrow> - (2 ^ 31) \<le> sint s \<and> sint s < 2 ^ 31 \<Longrightarrow> length r = length r0 \<Longrightarrow>
                   drop (off + j) r = drop (off + j) r0 \<Longrightarrow>
                   \<exists>v. f j (s, r) = (signed_drop_bit 32 v, r[off + j := ucast v]) \<and> sint v = sint s + x j"
      and B0: "- (2 ^ 31) \<le> sint s0 \<and> sint s0 < 2 ^ 31" and len: "off + n \<le> length r0" and mn: "m \<le> n"
  shows "case fold f [m..<n] (s0, r0) of (s, r) \<Rightarrow>
           length r = length r0 \<and> take (off + m) r = take (off + m) r0 \<and>
           drop (off + n) r = drop (off + n) r0 \<and> (- (2 ^ 31) \<le> sint s \<and> sint s < 2 ^ 31) \<and>
           mpi_val (take (n - m) (drop (off + m) r)) + 2 ^ (32 * (n - m)) * sint s
             = sint s0 + (\<Sum>j = m..<n. 2 ^ (32 * (j - m)) * x j)"
proof (rule chain [where rd = sint and sh = "signed_drop_bit 32" and B = "\<lambda>s. - (2 ^ 31) \<le> sint s \<and> sint s < 2 ^ 31", OF _ _ _ step B0 len mn])
  show "\<And>v. uint (ucast (v::DWord) :: Word) = sint v mod 2 ^ 32" by (rule sint_ucast_down)
  show "\<And>v::DWord. sint (signed_drop_bit 32 v) = sint v div 2 ^ 32" by (rule sint_signed_drop_bit_dw)
  show "\<And>v::DWord. - (2 ^ 31) \<le> sint (signed_drop_bit 32 v) \<and> sint (signed_drop_bit 32 v) < 2 ^ 31"
  proof -
    fix v :: DWord
    have "- (2 ^ 63) \<le> sint v" "sint v < 2 ^ 63" using sint_ge [of v] sint_lt [of v] by simp_all
    then have "(- (2 ^ 63)) div 2 ^ 32 \<le> sint v div 2 ^ 32" "sint v div 2 ^ 32 \<le> (2 ^ 63 - 1) div 2 ^ 32"
      by (simp_all add: zdiv_mono1)
    then have "- (2 ^ 31) \<le> sint v div 2 ^ 32 \<and> sint v div 2 ^ 32 < 2 ^ 31" by simp
    then show "- (2 ^ 31) \<le> sint (signed_drop_bit 32 v) \<and> sint (signed_drop_bit 32 v) < 2 ^ 31"
      by (simp only: sint_signed_drop_bit_dw)
  qed
qed

lemma sum_mpi_val:
  "n \<le> length a \<Longrightarrow> m \<le> n \<Longrightarrow> (\<Sum>j = m..<n. 2 ^ (32 * (j - m)) * uint (a ! j)) = mpi_val (take (n - m) (drop m a))"
proof (induction n)
  case 0 then show ?case by simp
next
  case (Suc n)
  show ?case
  proof (cases "m = Suc n")
    case True then show ?thesis by simp
  next
    case False
    then have mn: "m \<le> n" using Suc.prems by simp
    have "n - m < length (drop m a)" using Suc.prems mn by simp
    then have "mpi_val (take (Suc (n - m)) (drop m a)) = mpi_val (take (n - m) (drop m a)) + 2 ^ (32 * (n - m)) * uint (drop m a ! (n - m))"
      by (rule mpi_val_take_Suc)
    moreover have "drop m a ! (n - m) = a ! n" using Suc.prems mn by simp
    ultimately show ?thesis using Suc.IH mn Suc.prems by (simp add: Suc_diff_le)
  qed
qed

lemma sum_pow32: "(\<Sum>j = 0..<n. 2 ^ (32 * j) * (4294967295 :: int)) = 2 ^ (32 * n) - 1"
  by (induction n) (simp_all add: power_add algebra_simps)

section \<open>Subtraction, conditional addition and full reduction\<close>

lemma sint_small_w: "uint (w :: Word) < 2 ^ 31 \<Longrightarrow> sint w = uint w"
proof -
  assume a: "uint w < 2 ^ 31"
  have b: "- (2 ^ 31) \<le> uint w" by (rule order_trans [of _ 0]) simp_all
  have "sint (word_of_int (uint w) :: Word) = signed_take_bit (LENGTH(32) - 1) (uint w)"
    by (rule sint_sbintrunc')
  also have "\<dots> = uint w" using a b by (simp add: signed_take_bit_int_eq_self)
  finally show ?thesis by simp
qed

lemma int_cast_small: "uint v < 2 ^ 31 \<Longrightarrow> int_cast v = uint v"
proof -
  assume a: "uint v < 2 ^ 31"
  have "uint (ucast v :: Word) = uint v" using a by (simp add: uint_ucast_down)
  then show ?thesis using a sint_small_w [of "ucast v"] by (simp add: int_cast_def)
qed

lemma mpi_val_take_lt: "len \<le> length a \<Longrightarrow> mpi_val (take len a) < 2 ^ (32 * len)"
  using mpi_val_lt [of "take len a"] by (simp add: min_absorb2)

lemma mpi_sub_chain:
  assumes la: "len \<le> length a" and lb: "len \<le> length b" and lr: "len \<le> length r"
  shows "case fold (mpi_sub_step a b) [0..<len] (1, r) of (dif, r') \<Rightarrow>
           length r' = length r \<and> drop len r' = drop len r \<and> uint dif < 2 ^ 32 \<and>
           mpi_val (take len r') + 2 ^ (32 * len) * uint dif
             = mpi_val (take len a) - mpi_val (take len b) + 2 ^ (32 * len)"
proof -
  let ?x = "\<lambda>j. uint (a ! j) + (2 ^ 32 - 1 - uint (b ! j))"
  have step: "\<exists>v. mpi_sub_step a b j (s, r') = (drop_bit 32 v, r'[0 + j := ucast v]) \<and> uint v = uint s + ?x j"
    if "uint s < 2 ^ 32" for j s r'
  proof -
    let ?t = "ucast (a ! j) + ucast (NOT (b ! j)) :: DWord"
    have t: "uint ?t = ?x j"
      using uint_lt_w [of "a ! j"] uint_lt_w [of "NOT (b ! j)"]
      by (subst uint_add_dw) (simp_all add: uint_ucast_up uint_not_w)
    have "uint (s + ?t) = uint s + ?x j"
      using that uint_lt_w [of "a ! j"] uint_lt_w [of "NOT (b ! j)"] t
      by (subst uint_add_dw) (simp_all add: uint_not_w)
    then show ?thesis by (intro exI [of _ "s + ?t"]) (simp add: mpi_sub_step_def Let_def WSIZE_eq)
  qed
  have "case fold (mpi_sub_step a b) [0..<len] (1, r) of (s, r') \<Rightarrow>
           length r' = length r \<and> take (0 + 0) r' = take (0 + 0) r \<and>
           drop (0 + len) r' = drop (0 + len) r \<and> uint s < 2 ^ 32 \<and>
           mpi_val (take (len - 0) (drop (0 + 0) r')) + 2 ^ (32 * (len - 0)) * uint s
             = uint (1 :: DWord) + (\<Sum>j = 0..<len. 2 ^ (32 * (j - 0)) * ?x j)"
    by (rule uchain) (use step lr in simp_all)
  moreover have "(\<Sum>j = 0..<len. 2 ^ (32 * (j - 0)) * ?x j)
        = (\<Sum>j = 0..<len. 2 ^ (32 * (j - 0)) * uint (a ! j)) + (\<Sum>j = 0..<len. 2 ^ (32 * j) * (2 ^ 32 - 1))
          - (\<Sum>j = 0..<len. 2 ^ (32 * (j - 0)) * uint (b ! j))"
    by (simp add: sum.distrib sum_subtractf algebra_simps)
  ultimately show ?thesis
    using sum_mpi_val [OF la, of 0] sum_mpi_val [OF lb, of 0]
    by (simp add: sum_pow32 split: prod.splits)
qed

lemma mpi_sub_spec:
  assumes la: "len \<le> length a" and lb: "len \<le> length b" and lr: "len \<le> length r"
  shows "length (snd (mpi_sub r a b len)) = length r"
    and "drop len (snd (mpi_sub r a b len)) = drop len r"
    and "fst (mpi_sub r a b len) = (if mpi_val (take len a) < mpi_val (take len b) then 1 else 0)"
    and "mpi_val (take len (snd (mpi_sub r a b len)))
          = mpi_val (take len a) - mpi_val (take len b) + fst (mpi_sub r a b len) * 2 ^ (32 * len)"
proof -
  obtain dif r' where f: "fold (mpi_sub_step a b) [0..<len] (1, r) = (dif, r')"
    by (cases "fold (mpi_sub_step a b) [0..<len] (1, r)")
  from mpi_sub_chain [OF la lb lr] f
  have l: "length r' = length r" and d: "drop len r' = drop len r" and
    v: "mpi_val (take len r') + 2 ^ (32 * len) * uint dif
             = mpi_val (take len a) - mpi_val (take len b) + 2 ^ (32 * len)"
    by simp_all
  have m: "mpi_sub r a b len = (1 - int_cast dif, r')" by (simp add: mpi_sub_def f)
  define A B R E where "A = mpi_val (take len a)" and "B = mpi_val (take len b)"
    and "R = mpi_val (take len r')" and "E = (2 :: int) ^ (32 * len)"
  have bnd: "0 \<le> A" "A < E" "0 \<le> B" "B < E" "0 \<le> R" "R < E"
    using mpi_val_take_lt [OF la] mpi_val_take_lt [OF lb] mpi_val_take_lt [of len r'] lr l
    by (simp_all add: A_def B_def R_def E_def mpi_val_ge0)
  have v': "R + E * uint dif = A - B + E" using v by (simp add: A_def B_def R_def E_def)
  have d01: "uint dif = (if A < B then 0 else 1)"
  proof (cases "uint dif = 0")
    case True then show ?thesis using v' bnd by auto
  next
    case False
    then have "1 \<le> uint dif" using uint_ge_0 [of dif] by linarith
    show ?thesis
    proof (cases "uint dif = 1")
      case True then show ?thesis using v' bnd by auto
    next
      case False
      then have "2 \<le> uint dif" using \<open>1 \<le> uint dif\<close> by simp
      then have "E * 2 \<le> E * uint dif" using bnd by (intro mult_left_mono) simp_all
      then have False using v' bnd by linarith
      then show ?thesis ..
    qed
  qed
  then have ic: "int_cast dif = uint dif" by (intro int_cast_small) (simp split: if_splits)
  show "length (snd (mpi_sub r a b len)) = length r" by (simp add: m l)
  show "drop len (snd (mpi_sub r a b len)) = drop len r" by (simp add: m d)
  show "fst (mpi_sub r a b len) = (if mpi_val (take len a) < mpi_val (take len b) then 1 else 0)"
    using d01 by (simp add: m ic A_def B_def)
  show "mpi_val (take len (snd (mpi_sub r a b len)))
          = mpi_val (take len a) - mpi_val (take len b) + fst (mpi_sub r a b len) * 2 ^ (32 * len)"
    using d01 v' by (simp add: m ic A_def B_def R_def E_def split: if_splits)
qed

lemma mpi_cadd_chain:
  assumes la: "len \<le> length a" and lb: "len \<le> length b" and lr: "len \<le> length r"
    and msk: "msk = 0 \<or> msk = - 1"
  shows "case fold (mpi_cadd_step a b msk) [0..<len] (0, r) of (cy, r') \<Rightarrow>
           length r' = length r \<and> drop len r' = drop len r \<and> uint cy < 2 ^ 32 \<and>
           mpi_val (take len r') + 2 ^ (32 * len) * uint cy
             = mpi_val (take len a) + (if msk = 0 then 0 else 1) * mpi_val (take len b)"
proof -
  define c :: int where "c = (if msk = 0 then 0 else 1)"
  let ?x = "\<lambda>j. uint (a ! j) + c * uint (b ! j)"
  have bm: "uint (w AND msk) = c * uint w" for w :: Word
    using msk by (auto simp: c_def)
  have step: "\<exists>v. mpi_cadd_step a b msk j (s, r') = (drop_bit 32 v, r'[0 + j := ucast v]) \<and> uint v = uint s + ?x j"
    if "uint s < 2 ^ 32" for j s r'
  proof -
    let ?t = "ucast (a ! j) + ucast (b ! j AND msk) :: DWord"
    have cb: "c * uint (b ! j) < 2 ^ 32" "0 \<le> c * uint (b ! j)"
      using uint_lt_w [of "b ! j"] by (simp_all add: c_def)
    have t: "uint ?t = ?x j"
      using uint_lt_w [of "a ! j"] cb
      by (subst uint_add_dw) (simp_all add: uint_ucast_up bm)
    have "uint (s + ?t) = uint s + ?x j"
      using that uint_lt_w [of "a ! j"] cb t
      by (subst uint_add_dw) simp_all
    then show ?thesis by (intro exI [of _ "s + ?t"]) (simp add: mpi_cadd_step_def Let_def WSIZE_eq)
  qed
  have "case fold (mpi_cadd_step a b msk) [0..<len] (0, r) of (s, r') \<Rightarrow>
           length r' = length r \<and> take (0 + 0) r' = take (0 + 0) r \<and>
           drop (0 + len) r' = drop (0 + len) r \<and> uint s < 2 ^ 32 \<and>
           mpi_val (take (len - 0) (drop (0 + 0) r')) + 2 ^ (32 * (len - 0)) * uint s
             = uint (0 :: DWord) + (\<Sum>j = 0..<len. 2 ^ (32 * (j - 0)) * ?x j)"
    by (rule uchain) (use step lr in simp_all)
  moreover have "(\<Sum>j = 0..<len. 2 ^ (32 * (j - 0)) * ?x j)
        = (\<Sum>j = 0..<len. 2 ^ (32 * (j - 0)) * uint (a ! j)) 
          + c * (\<Sum>j = 0..<len. 2 ^ (32 * (j - 0)) * uint (b ! j))"
    by (simp add: sum.distrib sum_distrib_left algebra_simps)
  ultimately show ?thesis
    using sum_mpi_val [OF la, of 0] sum_mpi_val [OF lb, of 0]
    unfolding c_def by (cases "fold (mpi_cadd_step a b msk) [0..<len] (0, r)") simp
qed

lemma mpi_cadd_spec:
  assumes la: "len \<le> length a" and lb: "len \<le> length b" and lr: "len \<le> length r"
    and add: "add = 0 \<or> add = 1"
  shows "length (snd (mpi_cadd r a b add len)) = length r"
    and "drop len (snd (mpi_cadd r a b add len)) = drop len r"
    and "mpi_val (take len (snd (mpi_cadd r a b add len)))
          = (mpi_val (take len a) + add * mpi_val (take len b)) mod 2 ^ (32 * len)"
proof -
  define msk :: Word where "msk = 0 - word_of_int (add AND 1)"
  have msk: "msk = 0 \<or> msk = - 1" and m0: "msk = 0 \<longleftrightarrow> add = 0"
    using add by (auto simp: msk_def)
  obtain cy r' where f: "fold (mpi_cadd_step a b msk) [0..<len] (0, r) = (cy, r')"
    by (cases "fold (mpi_cadd_step a b msk) [0..<len] (0, r)")
  from mpi_cadd_chain [OF la lb lr msk] f
  have l: "length r' = length r" and d: "drop len r' = drop len r" and
    v: "mpi_val (take len r') + 2 ^ (32 * len) * uint cy
             = mpi_val (take len a) + (if msk = 0 then 0 else 1) * mpi_val (take len b)"
    by simp_all
  have m: "snd (mpi_cadd r a b add len) = r'"
    unfolding mpi_cadd_def Let_def msk_def [symmetric] by (simp add: f)
  have "mpi_val (take len a) + add * mpi_val (take len b) = mpi_val (take len r') + 2 ^ (32 * len) * uint cy"
    using v add m0 by auto
  then have "(mpi_val (take len a) + add * mpi_val (take len b)) mod 2 ^ (32 * len) = mpi_val (take len r') mod 2 ^ (32 * len)"
    by simp
  also have "\<dots> = mpi_val (take len r')"
    using mpi_val_take_lt [of len r'] lr l by (simp add: mpi_val_ge0)
  finally show "mpi_val (take len (snd (mpi_cadd r a b add len)))
          = (mpi_val (take len a) + add * mpi_val (take len b)) mod 2 ^ (32 * len)"
    by (simp add: m)
  show "length (snd (mpi_cadd r a b add len)) = length r" by (simp add: m l)
  show "drop len (snd (mpi_cadd r a b add len)) = drop len r" by (simp add: m d)
qed

lemma gfp_setp_zero:
  "gfp_setp (replicate LEN 0) = [0xFFFFFFED, 0xFFFFFFFF, 0xFFFFFFFF, 0xFFFFFFFF, 0xFFFFFFFF, 0xFFFFFFFF, 0xFFFFFFFF, 0x7FFFFFFF]"
  by code_simp

lemma P25519_eq: "P25519 = 57896044618658097711785492504343953926634992332820282019728792003956564819949"
  by (simp add: P25519_def)

lemma mpi_val_setp: "mpi_val (gfp_setp (replicate LEN 0)) = P25519"
  by (simp add: gfp_setp_zero P25519_eq)

lemma length_setp: "length (gfp_setp (replicate LEN 0)) = 8"
  by (simp add: gfp_setp_zero)

lemma mpi_val_lt_256: "length a = 8 \<Longrightarrow> mpi_val a < 2 ^ 256"
  using mpi_val_lt [of a] by simp

text \<open>One round of gfp_fred: subtract p, add it back when the difference was negative.\<close>
lemma fred_round:
  assumes lx: "length x = 8" and lr: "length r = 8" and lp: "length p = 8"
    and pv: "mpi_val p = P25519"
  defines "r1 \<equiv> mpi_sub r x p LEN"
  defines "r2 \<equiv> snd (mpi_cadd (snd r1) (snd r1) p (fst r1) LEN)"
  shows "length r2 = 8" 
    and "mpi_val r2 = (if mpi_val x < P25519 then mpi_val x else mpi_val x - P25519)"
proof -
  have s: "length (snd r1) = 8"
    "fst r1 = (if mpi_val x < P25519 then 1 else 0)"
    "mpi_val (snd r1) = mpi_val x - P25519 + fst r1 * 2 ^ 256"
    using mpi_sub_spec [of 8 x p r] lx lr lp pv by (simp_all add: r1_def LEN_eq)
  have c: "length r2 = 8"
    "mpi_val r2 = (mpi_val (snd r1) + fst r1 * P25519) mod 2 ^ 256"
    using mpi_cadd_spec [of 8 "snd r1" p "snd r1" "fst r1"] s lp pv by (simp_all add: r2_def LEN_eq)
  show "length r2 = 8" by (rule c)
  have b: "0 \<le> mpi_val x" "mpi_val x < 2 ^ 256" using mpi_val_ge0 mpi_val_lt_256 [OF lx] by simp_all
  show "mpi_val r2 = (if mpi_val x < P25519 then mpi_val x else mpi_val x - P25519)"
  proof (cases "mpi_val x < P25519")
    case True
    then have "mpi_val r2 = (mpi_val x + 2 ^ 256) mod 2 ^ 256" using c s by simp
    also have "\<dots> = mpi_val x mod 2 ^ 256" by simp
    also have "\<dots> = mpi_val x" using b by simp
    finally show ?thesis using True by simp
  next
    case False
    then have "mpi_val r2 = (mpi_val x - P25519) mod 2 ^ 256" using c s by simp
    also have "\<dots> = mpi_val x - P25519" using b False by (simp add: P25519_eq)
    finally show ?thesis using False by simp
  qed
qed

lemma gfp_fred_unfold:
  "gfp_fred r a =
    (let p = gfp_setp (replicate LEN 0);
         r1 = mpi_sub r a p LEN;
         r2 = snd (mpi_cadd (snd r1) (snd r1) p (fst r1) LEN);
         r3 = mpi_sub r2 r2 p LEN
     in snd (mpi_cadd (snd r3) (snd r3) p (fst r3) LEN))"
  by (simp add: gfp_fred_def Let_def split: prod.splits)

lemma gfp_fred_spec:
  assumes la: "length a = 8" and lr: "length r = 8"
  shows "length (gfp_fred r a) = 8" and "mpi_val (gfp_fred r a) = mpi_val a mod P25519"
proof -
  define p where "p = gfp_setp (replicate LEN 0)"
  define r1 where "r1 = mpi_sub r a p LEN"
  define r2 where "r2 = snd (mpi_cadd (snd r1) (snd r1) p (fst r1) LEN)"
  define r3 where "r3 = mpi_sub r2 r2 p LEN"
  define r4 where "r4 = snd (mpi_cadd (snd r3) (snd r3) p (fst r3) LEN)"
  have f: "gfp_fred r a = r4"
    by (simp add: gfp_fred_unfold Let_def p_def r1_def r2_def r3_def r4_def)
  have lp: "length p = 8" and pv: "mpi_val p = P25519"
    by (simp_all add: p_def length_setp mpi_val_setp)
  have 1: "length r2 = 8" "mpi_val r2 = (if mpi_val a < P25519 then mpi_val a else mpi_val a - P25519)"
    using fred_round [OF la lr lp pv] by (simp_all add: r1_def r2_def)
  have 2: "length r4 = 8" "mpi_val r4 = (if mpi_val r2 < P25519 then mpi_val r2 else mpi_val r2 - P25519)"
    using fred_round [OF 1(1) 1(1) lp pv] by (simp_all add: r3_def r4_def)
  show "length (gfp_fred r a) = 8" by (simp add: f 2)
  have b: "0 \<le> mpi_val a" "mpi_val a < 2 ^ 256" using mpi_val_ge0 mpi_val_lt_256 [OF la] by simp_all
  define A where "A = mpi_val a"
  have r4: "mpi_val r4 = (if A < P25519 then A else if A < 2 * P25519 then A - P25519 else A - 2 * P25519)"
    using 1 2 b by (auto simp: A_def P25519_eq)
  have "mpi_val r4 = A mod P25519"
  proof -
    have "0 \<le> mpi_val r4" "mpi_val r4 < P25519" using r4 b by (auto simp: A_def P25519_eq)
    then have "mpi_val r4 mod P25519 = mpi_val r4" by simp
    moreover have "mpi_val r4 mod P25519 = A mod P25519"
    proof -
      have "(A - P25519) mod P25519 = A mod P25519" by simp
      moreover have "(A - 2 * P25519) mod P25519 = A mod P25519"
        by (metis mod_mult_self1 uminus_add_conv_diff mult_minus_left add.commute)
      ultimately show ?thesis by (simp add: r4)
    qed
    ultimately show ?thesis by simp
  qed
  then show "mpi_val (gfp_fred r a) = mpi_val a mod P25519" by (simp add: f A_def)
qed

lemma mod_P_shift: "(x + k * P25519) mod P25519 = x mod P25519"
  by simp

lemma mod_P_shift': "(x - k * P25519) mod P25519 = x mod P25519"
  using mod_P_shift [of x "- k"] by simp

lemma mpi_val_zero_iff: "length a = 8 \<Longrightarrow> mpi_val a = 0 \<longleftrightarrow> a = replicate 8 0"
proof
  assume "length a = 8" "mpi_val a = 0"
  then show "a = replicate 8 0" by (intro mpi_val_inj) (simp_all add: eval_nat_numeral)
next
  assume "a = replicate 8 0" then show "mpi_val a = 0" by (simp add: eval_nat_numeral)
qed

section \<open>Field addition and subtraction\<close>

lemma mpi_val_8: "length a = 8 \<Longrightarrow> mpi_val a = mpi_val (take 7 a) + 2 ^ 224 * uint (a ! 7)"
  using mpi_val_take_Suc [of 7 a] by simp

lemma mpi_val_upd7: "length r = 8 \<Longrightarrow> mpi_val (r[7 := w]) = mpi_val (take 7 r) + 2 ^ 224 * uint w"
  using mpi_val_8 [of "r[7 := w]"] by simp

lemma uint_and_msb0: "uint ((ucast (v :: DWord) :: Word) AND MSB0MASK) = uint v mod 2 ^ 31"
proof -
  have "MSB0MASK = mask 31" by (simp add: MSB0MASK_def ALL1MASK_def)
  then have "(ucast v :: Word) AND MSB0MASK = take_bit 31 (ucast v :: Word)"
    by (simp only: take_bit_eq_mask)
  then have "uint ((ucast v :: Word) AND MSB0MASK) = uint (take_bit 31 (ucast v :: Word))"
    by (rule arg_cong)
  also have "\<dots> = take_bit 31 (uint (ucast v :: Word))" by (rule unsigned_take_bit_eq)
  also have "\<dots> = uint (ucast v :: Word) mod 2 ^ 31" by (rule take_bit_eq_mod)
  also have "\<dots> = (uint v mod 2 ^ 32) mod 2 ^ 31" by (simp only: uint_ucast_down)
  also have "\<dots> = uint v mod 2 ^ 31" by (rule mod_mod_cancel) simp
  finally show ?thesis .
qed

lemma split31: "(v :: int) mod 2 ^ 31 + 2 ^ 31 * (v div 2 ^ 31) = v"
  by simp

lemma gfp_add_val:
  assumes la: "length a = 8" and lb: "length b = 8" and lr: "length r = 8"
  defines "hi \<equiv> (uint (a ! 7) + uint (b ! 7)) div 2 ^ 31"
  shows "length (gfp_add r a b) = 8"
    and "mpi_val (gfp_add r a b) = mpi_val a + mpi_val b - hi * P25519"
    and "mpi_val (gfp_add r a b) \<le> 2 * P25519 - 1"
proof -
  define top :: DWord where "top = ucast (a ! 7) + ucast (b ! 7)"
  define msw :: Word where "msw = ucast top AND MSB0MASK"
  define s0 :: DWord where "s0 = 19 * ucast (ucast (drop_bit 31 top) :: Word)"
  obtain s r1 where f: "fold (gfp_add_step a b) [0..<7] (s0, r) = (s, r1)"
    by (cases "fold (gfp_add_step a b) [0..<7] (s0, r)")
  have g: "gfp_add r a b = r1[7 := msw + ucast s]"
    by (simp add: gfp_add_def Let_def LEN_eq WSIZE_eq f top_def [symmetric] msw_def [symmetric] s0_def [symmetric])
  have a7: "uint (a ! 7) < 2 ^ 32" "0 \<le> uint (a ! 7)" and b7: "uint (b ! 7) < 2 ^ 32" "0 \<le> uint (b ! 7)"
    using uint_lt_w [of "a ! 7"] uint_lt_w [of "b ! 7"] by simp_all
  have top: "uint top = uint (a ! 7) + uint (b ! 7)"
    unfolding top_def using a7 b7 by (subst uint_add_dw) (simp_all add: uint_ucast_up)
  have msw: "uint msw = uint top mod 2 ^ 31" by (simp only: msw_def uint_and_msb0)
  have hi: "0 \<le> hi" "hi \<le> 3" using a7 b7 by (simp_all add: hi_def pos_imp_zdiv_nonneg_iff)
  have hiw: "uint (ucast (ucast (drop_bit 31 top) :: Word) :: DWord) = hi"
    using hi by (simp add: uint_ucast_up uint_ucast_down uint_drop_bit_word top hi_def)
  have s0: "uint s0 = 19 * hi"
    unfolding s0_def using hi hiw by (subst uint_mult_dw) simp_all
  let ?x = "\<lambda>j. uint (a ! j) + uint (b ! j)"
  have step: "\<exists>v. gfp_add_step a b j (s, r') = (drop_bit 32 v, r'[0 + j := ucast v]) \<and> uint v = uint s + ?x j"
    if "uint s < 2 ^ 32" for j s r'
  proof -
    let ?t = "ucast (a ! j) + ucast (b ! j) :: DWord"
    have t: "uint ?t = ?x j"
      using uint_lt_w [of "a ! j"] uint_lt_w [of "b ! j"]
      by (subst uint_add_dw) (simp_all add: uint_ucast_up)
    have "uint (s + ?t) = uint s + ?x j"
      using that uint_lt_w [of "a ! j"] uint_lt_w [of "b ! j"] t
      by (subst uint_add_dw) simp_all
    then show ?thesis by (intro exI [of _ "s + ?t"]) (simp add: gfp_add_step_def Let_def WSIZE_eq)
  qed
  have "case fold (gfp_add_step a b) [0..<7] (s0, r) of (s, r') \<Rightarrow>
           length r' = length r \<and> take (0 + 0) r' = take (0 + 0) r \<and>
           drop (0 + 7) r' = drop (0 + 7) r \<and> uint s < 2 ^ 32 \<and>
           mpi_val (take (7 - 0) (drop (0 + 0) r')) + 2 ^ (32 * (7 - 0)) * uint s
             = uint s0 + (\<Sum>j = 0..<7. 2 ^ (32 * (j - 0)) * ?x j)"
    by (rule uchain) (use step lr s0 hi in simp_all)
  moreover have "(\<Sum>j = 0..<7. 2 ^ (32 * (j - 0)) * ?x j)
        = (\<Sum>j = 0..<7. 2 ^ (32 * (j - 0)) * uint (a ! j)) + (\<Sum>j = 0..<7. 2 ^ (32 * (j - 0)) * uint (b ! j))"
    by (simp only: sum.distrib [symmetric] distrib_left)
  ultimately have l1: "length r1 = 8" and
    v: "mpi_val (take 7 r1) + 2 ^ 224 * uint s = 19 * hi + mpi_val (take 7 a) + mpi_val (take 7 b)"
    using sum_mpi_val [of 7 a 0] sum_mpi_val [of 7 b 0] la lb lr s0 by (simp_all add: f)
  define alo blo where "alo = mpi_val (take 7 a)" and "blo = mpi_val (take 7 b)"
  have lo: "0 \<le> alo" "alo < 2 ^ 224" "0 \<le> blo" "blo < 2 ^ 224"
    using mpi_val_take_lt [of 7 a] mpi_val_take_lt [of 7 b] la lb by (simp_all add: alo_def blo_def mpi_val_ge0)
  have r1lo: "0 \<le> mpi_val (take 7 r1)" "mpi_val (take 7 r1) < 2 ^ 224"
    using mpi_val_take_lt [of 7 r1] l1 by (simp_all add: mpi_val_ge0)
  have s2: "uint s \<le> 2"
  proof (rule ccontr)
    assume "\<not> uint s \<le> 2"
    then have "3 \<le> uint s" by simp
    then have "2 ^ 224 * 3 \<le> (2 ^ 224 :: int) * uint s" by (intro mult_left_mono) simp_all
    then show False using v lo hi r1lo unfolding alo_def blo_def by simp
  qed
  have m31: "0 \<le> uint top mod 2 ^ 31" "uint top mod 2 ^ 31 < 2 ^ 31" by simp_all
  have fin: "uint (msw + ucast s) = uint top mod 2 ^ 31 + uint s"
    using s2 m31 msw by (subst uint_add_w) (simp_all add: uint_ucast_down)
  show "length (gfp_add r a b) = 8" by (simp add: g l1)
  have sp: "uint top mod 2 ^ 31 + 2 ^ 31 * hi = uint (a ! 7) + uint (b ! 7)"
    unfolding hi_def top by simp
  have val: "mpi_val (gfp_add r a b) = mpi_val (take 7 r1) + 2 ^ 224 * (uint top mod 2 ^ 31 + uint s)"
    by (simp add: g mpi_val_upd7 [OF l1] fin)
  have ab: "mpi_val a = alo + 2 ^ 224 * uint (a ! 7)" "mpi_val b = blo + 2 ^ 224 * uint (b ! 7)"
    using mpi_val_8 [OF la] mpi_val_8 [OF lb] by (simp_all add: alo_def blo_def)
  show "mpi_val (gfp_add r a b) = mpi_val a + mpi_val b - hi * P25519"
    using val v sp unfolding ab alo_def [symmetric] blo_def [symmetric] P25519_eq by simp
  show "mpi_val (gfp_add r a b) \<le> 2 * P25519 - 1"
    using val v m31 lo hi unfolding alo_def [symmetric] blo_def [symmetric] P25519_eq by simp
qed

lemma uint_w_bounds: "0 \<le> uint (v :: Word)" "uint (v :: Word) \<le> 4294967295"
  using uint_lt_w [of v] by simp_all

lemma ucast_sint_down: "(ucast (s :: DWord) :: Word) = word_of_int (sint s)"
proof -
  have "uint (ucast s :: Word) = uint (word_of_int (sint s) :: Word)"
    unfolding sint_ucast_down uint_word_of_int by simp
  then show ?thesis by (simp only: word_uint_eq_iff)
qed

lemma sint_ucast_diff: "sint (ucast (x :: Word) - ucast (y :: Word) :: DWord) = uint x - uint y"
proof -
  define X Y where "X = uint x" and "Y = uint y"
  have b: "0 \<le> X" "X \<le> 4294967295" "0 \<le> Y" "Y \<le> 4294967295"
    using uint_w_bounds [of x] uint_w_bounds [of y] by (simp_all add: X_def Y_def)
  have 1: "X = sint (ucast x :: DWord)" "Y = sint (ucast y :: DWord)"
    by (simp_all only: sint_ucast_up X_def Y_def)
  have "- (2 ^ 63) \<le> X - Y" "X - Y < 2 ^ 63" using b by simp_all
  then have "sint (ucast x - ucast y :: DWord) = sint (ucast x :: DWord) - sint (ucast y :: DWord)"
    unfolding 1 by (rule sint_sub_dw)
  then show ?thesis by (simp only: sint_ucast_up)
qed

lemma sint_add_small:
  assumes "- (2 ^ 31) \<le> sint s \<and> sint s < 2 ^ 31" and "sint t = k"
    and "- 4611686018427387904 \<le> k" and "k \<le> 4611686018427387904"
  shows "sint (s + t :: DWord) = sint s + k"
proof -
  define S where "S = sint s"
  have "- 2147483648 \<le> S" "S < 2147483648" "- 4611686018427387904 \<le> k" "k \<le> 4611686018427387904"
    using assms by (simp_all add: S_def)
  then have "- (2 ^ 63) \<le> S + k" "S + k < 2 ^ 63" by simp_all
  then have "sint (s + t) = sint s + sint t"
    unfolding S_def assms(2) [symmetric] by (rule sint_add_dw)
  then show ?thesis by (simp only: assms(2))
qed

lemma uint_sub_dw: "uint y \<le> uint x \<Longrightarrow> uint (x - y :: DWord) = uint x - uint y"
  using uint_sub_lem [of y x] by simp

lemma sint_eq_uint_dw: "uint (w :: DWord) < 2 ^ 63 \<Longrightarrow> sint w = uint w"
proof -
  assume a: "uint w < 2 ^ 63"
  have b: "- (2 ^ 63) \<le> uint w" by (rule order_trans [of _ 0]) simp_all
  have "sint (word_of_int (uint w) :: DWord) = signed_take_bit (LENGTH(64) - 1) (uint w)"
    by (rule sint_sbintrunc')
  also have "\<dots> = uint w" using a b by (simp add: signed_take_bit_int_eq_self)
  finally show ?thesis by simp
qed

lemma sint_mult_dw:
  "- (2 ^ 63) \<le> sint x * sint y \<Longrightarrow> sint x * sint y < 2 ^ 63 \<Longrightarrow> sint (x * y :: DWord) = sint x * sint y"
  by (simp add: sint_word_ariths signed_take_bit_int_eq_self)

lemma sub_top:
  fixes a7 b7 :: Word
  defines "T \<equiv> 8589934588 + uint a7 - uint b7"
  shows "4294967293 \<le> T" and "T \<le> 12884901883"
    and "uint (FOURXPHI + ucast a7 - ucast b7 :: DWord) = T"
    and "sint (FOURXPHI + ucast a7 - ucast b7 :: DWord) = T"
proof -
  show b: "4294967293 \<le> T" "T \<le> 12884901883"
    using uint_w_bounds [of a7] uint_w_bounds [of b7]
    unfolding T_def by linarith+
  have 1: "uint (FOURXPHI + ucast a7 :: DWord) = 8589934588 + uint a7"
    using uint_lt_w [of a7] by (subst uint_add_dw) (simp_all add: FOURXPHI_eq uint_ucast_up)
  have "uint (ucast b7 :: DWord) \<le> uint (FOURXPHI + ucast a7 :: DWord)"
    unfolding 1 uint_ucast_up using uint_w_bounds [of b7] uint_w_bounds [of a7] by linarith
  then show u: "uint (FOURXPHI + ucast a7 - ucast b7 :: DWord) = T"
    by (subst uint_sub_dw) (simp_all add: 1 uint_ucast_up T_def)
  show "sint (FOURXPHI + ucast a7 - ucast b7 :: DWord) = T"
    using b by (subst sint_eq_uint_dw) (simp_all add: u)
qed

lemma gfp_sub_val:
  assumes la: "length a = 8" and lb: "length b = 8" and lr: "length r = 8"
  shows "length (gfp_sub r a b) = 8"
    and "mpi_val (gfp_sub r a b)
          = mpi_val a - mpi_val b + (4 - (8589934588 + uint (a ! 7) - uint (b ! 7)) div 2 ^ 31) * P25519"
    and "0 \<le> mpi_val (gfp_sub r a b)" and "mpi_val (gfp_sub r a b) \<le> 2 * P25519 - 1"
proof -
  define T where "T = 8589934588 + uint (a ! 7) - uint (b ! 7)"
  define hi where "hi = T div 2 ^ 31"
  define top :: DWord where "top = FOURXPHI + ucast (a ! 7) - ucast (b ! 7)"
  define msw :: Word where "msw = ucast top AND MSB0MASK"
  define s0 :: DWord where "s0 = 19 * ucast (ucast (signed_drop_bit 31 top) :: Word) - 76"
  obtain s r1 where f: "fold (gfp_sub_step a b) [0..<7] (s0, r) = (s, r1)"
    by (cases "fold (gfp_sub_step a b) [0..<7] (s0, r)")
  have g: "gfp_sub r a b = r1[7 := msw + ucast s + 4]"
    using f unfolding top_def msw_def s0_def
    by (simp add: gfp_sub_def Let_def LEN_eq WSIZE_eq)
  have Tb: "4294967293 \<le> T" "T \<le> 12884901883" and utop: "uint top = T" and stop: "sint top = T"
    using sub_top [of "a ! 7" "b ! 7"] by (simp_all add: T_def top_def)
  have msw: "uint msw = T mod 2 ^ 31" by (simp only: msw_def uint_and_msb0 utop)
  have hi: "1 \<le> hi" "hi \<le> 5"
  proof -
    have "4294967293 div 2 ^ 31 \<le> T div 2 ^ 31" "T div 2 ^ 31 \<le> 12884901883 div 2 ^ 31"
      using Tb by (simp_all add: zdiv_mono1)
    then show "1 \<le> hi" "hi \<le> 5" by (simp_all add: hi_def)
  qed
  have hiw: "uint (ucast (signed_drop_bit 31 top) :: Word) = hi"
    using hi by (simp add: sint_ucast_down sint_signed_drop_bit_dw stop hi_def)
  have "sint (19 * ucast (ucast (signed_drop_bit 31 top) :: Word) :: DWord) = 19 * hi"
    using hi by (subst sint_mult_dw) (simp_all add: sint_ucast_up hiw)
  then have s0: "sint s0 = 19 * hi - 76"
    unfolding s0_def using hi by (subst sint_sub_dw) simp_all
  let ?x = "\<lambda>j. uint (a ! j) - uint (b ! j)"
  have step: "\<exists>v. gfp_sub_step a b j (s, r') = (signed_drop_bit 32 v, r'[0 + j := ucast v]) \<and> sint v = sint s + ?x j"
    if "- (2 ^ 31) \<le> sint s \<and> sint s < 2 ^ 31" for j s r'
  proof -
    let ?t = "ucast (a ! j) - ucast (b ! j) :: DWord"
    have "- 4611686018427387904 \<le> ?x j" "?x j \<le> 4611686018427387904"
      using uint_w_bounds [of "a ! j"] uint_w_bounds [of "b ! j"] by linarith+
    then have "sint (s + ?t) = sint s + ?x j"
      by (rule sint_add_small [OF that sint_ucast_diff])
    then show ?thesis by (intro exI [of _ "s + ?t"]) (simp add: gfp_sub_step_def Let_def WSIZE_eq)
  qed
  have "case fold (gfp_sub_step a b) [0..<7] (s0, r) of (s, r') \<Rightarrow>
           length r' = length r \<and> take (0 + 0) r' = take (0 + 0) r \<and>
           drop (0 + 7) r' = drop (0 + 7) r \<and> (- (2 ^ 31) \<le> sint s \<and> sint s < 2 ^ 31) \<and>
           mpi_val (take (7 - 0) (drop (0 + 0) r')) + 2 ^ (32 * (7 - 0)) * sint s
             = sint s0 + (\<Sum>j = 0..<7. 2 ^ (32 * (j - 0)) * ?x j)"
    by (rule schain) (use step lr s0 hi in simp_all)
  moreover have "(\<Sum>j = 0..<7. 2 ^ (32 * (j - 0)) * ?x j)
        = (\<Sum>j = 0..<7. 2 ^ (32 * (j - 0)) * uint (a ! j)) - (\<Sum>j = 0..<7. 2 ^ (32 * (j - 0)) * uint (b ! j))"
    by (simp only: sum_subtractf [symmetric] right_diff_distrib)
  ultimately have l1: "length r1 = 8" and
    v: "mpi_val (take 7 r1) + 2 ^ 224 * sint s = 19 * hi - 76 + mpi_val (take 7 a) - mpi_val (take 7 b)"
    using sum_mpi_val [of 7 a 0] sum_mpi_val [of 7 b 0] la lb lr s0 by (simp_all add: f)
  define alo blo where "alo = mpi_val (take 7 a)" and "blo = mpi_val (take 7 b)"
  have lo: "0 \<le> alo" "alo < 2 ^ 224" "0 \<le> blo" "blo < 2 ^ 224"
    using mpi_val_take_lt [of 7 a] mpi_val_take_lt [of 7 b] la lb by (simp_all add: alo_def blo_def mpi_val_ge0)
  have r1lo: "0 \<le> mpi_val (take 7 r1)" "mpi_val (take 7 r1) < 2 ^ 224"
    using mpi_val_take_lt [of 7 r1] l1 by (simp_all add: mpi_val_ge0)
  have s2: "- 2 \<le> sint s" "sint s \<le> 1"
  proof -
    show "- 2 \<le> sint s"
    proof (rule ccontr)
      assume "\<not> - 2 \<le> sint s"
      then have "sint s \<le> - 3" by simp
      then have "2 ^ 224 * sint s \<le> (2 ^ 224 :: int) * (- 3)" by (intro mult_left_mono) simp_all
      then show False using v lo hi r1lo unfolding alo_def blo_def by simp
    qed
    show "sint s \<le> 1"
    proof (rule ccontr)
      assume "\<not> sint s \<le> 1"
      then have "2 \<le> sint s" by simp
      then have "2 ^ 224 * 2 \<le> (2 ^ 224 :: int) * sint s" by (intro mult_left_mono) simp_all
      then show False using v lo hi r1lo unfolding alo_def blo_def by simp
    qed
  qed
  have m31: "0 \<le> T mod 2 ^ 31" "T mod 2 ^ 31 < 2 ^ 31" by simp_all
  define kw :: Word where "kw = word_of_int (sint s + 4)"
  have k: "ucast s + 4 = kw" unfolding kw_def by (simp add: ucast_sint_down)
  have uk: "uint kw = sint s + 4"
    unfolding kw_def using s2 by (intro uint_w_eqI [OF refl]) simp_all
  have "uint (msw + kw) = T mod 2 ^ 31 + (sint s + 4)"
    using s2 m31 by (subst uint_add_w) (simp_all add: uk msw)
  then have fin: "uint (msw + ucast s + 4) = T mod 2 ^ 31 + sint s + 4"
    unfolding k [symmetric] by (simp add: add.assoc)
  show "length (gfp_sub r a b) = 8" by (simp add: g l1)
  have sp: "T mod 2 ^ 31 + 2 ^ 31 * hi = T"
    unfolding hi_def by simp
  have val: "mpi_val (gfp_sub r a b) = mpi_val (take 7 r1) + 2 ^ 224 * (T mod 2 ^ 31 + sint s + 4)"
    by (simp add: g mpi_val_upd7 [OF l1] fin)
  have ab: "mpi_val a = alo + 2 ^ 224 * uint (a ! 7)" "mpi_val b = blo + 2 ^ 224 * uint (b ! 7)"
    using mpi_val_8 [OF la] mpi_val_8 [OF lb] by (simp_all add: alo_def blo_def)
  show "mpi_val (gfp_sub r a b)
          = mpi_val a - mpi_val b + (4 - (8589934588 + uint (a ! 7) - uint (b ! 7)) div 2 ^ 31) * P25519"
    unfolding T_def [symmetric] hi_def [symmetric]
    using val v sp unfolding ab alo_def [symmetric] blo_def [symmetric] P25519_eq T_def by simp
  show "0 \<le> mpi_val (gfp_sub r a b)"
    using val v m31 lo hi unfolding alo_def [symmetric] blo_def [symmetric] by simp
  show "mpi_val (gfp_sub r a b) \<le> 2 * P25519 - 1"
    using val v m31 lo hi unfolding alo_def [symmetric] blo_def [symmetric] P25519_eq by simp
qed

lemma uint_add_small:
  assumes "uint s < 2 ^ 32" and "uint t = k" and "k \<le> 18446744069414584320"
  shows "uint (s + t :: DWord) = uint s + k"
proof -
  define S where "S = uint s"
  have "S < 4294967296" using assms(1) by (simp add: S_def)
  then have "S + k < 2 ^ 64" using assms(3) by simp
  then have "uint (s + t) = uint s + uint t"
    unfolding S_def assms(2) [symmetric] by (rule uint_add_dw)
  then show ?thesis by (simp only: assms(2))
qed

lemma sub_v2_addend:
  fixes x y :: Word and C :: DWord
  assumes "4294967295 \<le> uint C" and "uint C \<le> 17179869180"
  shows "uint (C + ucast x - ucast y) = uint C + uint x - uint y"
proof -
  have 1: "uint (C + ucast x) = uint C + uint x"
    using assms uint_w_bounds [of x] by (subst uint_add_dw) (simp_all add: uint_ucast_up)
  have "uint (ucast y :: DWord) \<le> uint (C + ucast x)"
    unfolding 1 uint_ucast_up using assms uint_w_bounds [of y] uint_w_bounds [of x] by linarith
  then show ?thesis by (subst uint_sub_dw) (simp_all add: 1 uint_ucast_up)
qed

lemma sum_const_mid: "(\<Sum>j = 1..<7. 2 ^ (32 * (j - 1)) * (17179869180 :: int)) = 4 * (2 ^ 192 - 1)"
  by (simp add: eval_nat_numeral sum.atLeast_Suc_lessThan)

lemma mpi_val_head: "0 < length a \<Longrightarrow> mpi_val (take 7 a) = uint (a ! 0) + 2 ^ 32 * mpi_val (take 6 (drop 1 a))"
  by (cases a) simp_all

lemma gfp_sub_v2_val:
  assumes la: "length a = 8" and lb: "length b = 8" and lr: "length r = 8"
  shows "length (gfp_sub_v2 r a b) = 8"
    and "mpi_val (gfp_sub_v2 r a b)
          = mpi_val a - mpi_val b + (4 - (8589934588 + uint (a ! 7) - uint (b ! 7)) div 2 ^ 31) * P25519"
proof -
  define T where "T = 8589934588 + uint (a ! 7) - uint (b ! 7)"
  define hi where "hi = T div 2 ^ 31"
  define top :: DWord where "top = FOURXPHI + ucast (a ! 7) - ucast (b ! 7)"
  define msw :: Word where "msw = ucast top AND MSB0MASK"
  define s0 :: DWord where "s0 = 19 * ucast (ucast (drop_bit 31 top) :: Word)"
  define sum1 :: DWord where "sum1 = s0 + (FOURXPLO + ucast (a ! 0) - ucast (b ! 0))"
  obtain s r1 where f: "fold (gfp_sub_v2_step a b) [1..<7] (drop_bit 32 sum1, r[0 := ucast sum1]) = (s, r1)"
    by (cases "fold (gfp_sub_v2_step a b) [1..<7] (drop_bit 32 sum1, r[0 := ucast sum1])")
  have g: "gfp_sub_v2 r a b = r1[7 := msw + ucast s]"
    using f unfolding top_def msw_def s0_def sum1_def
    by (simp add: gfp_sub_v2_def Let_def LEN_eq WSIZE_eq)
  have Tb: "4294967293 \<le> T" "T \<le> 12884901883" and utop: "uint top = T"
    using sub_top [of "a ! 7" "b ! 7"] by (simp_all add: T_def top_def)
  have msw: "uint msw = T mod 2 ^ 31" by (simp only: msw_def uint_and_msb0 utop)
  have hi: "1 \<le> hi" "hi \<le> 5"
  proof -
    have "4294967293 div 2 ^ 31 \<le> T div 2 ^ 31" "T div 2 ^ 31 \<le> 12884901883 div 2 ^ 31"
      using Tb by (simp_all add: zdiv_mono1)
    then show "1 \<le> hi" "hi \<le> 5" by (simp_all add: hi_def)
  qed
  have hiw: "uint (ucast (drop_bit 31 top) :: Word) = hi"
    using hi by (simp add: uint_ucast_down uint_drop_bit_word utop hi_def)
  have s0: "uint s0 = 19 * hi"
    unfolding s0_def using hi by (subst uint_mult_dw) (simp_all add: uint_ucast_up hiw)
  have lo0: "uint (FOURXPLO + ucast (a ! 0) - ucast (b ! 0)) = 17179869108 + uint (a ! 0) - uint (b ! 0)"
    by (subst sub_v2_addend) (simp_all add: FOURXPLO_eq)
  have sum1: "uint sum1 = 19 * hi + 17179869108 + uint (a ! 0) - uint (b ! 0)"
  proof -
    have "17179869108 + uint (a ! 0) - uint (b ! 0) \<le> 18446744069414584320"
      using uint_w_bounds [of "a ! 0"] uint_w_bounds [of "b ! 0"] by linarith
    moreover have "uint s0 < 2 ^ 32" using s0 hi by simp
    ultimately have "uint sum1 = uint s0 + (17179869108 + uint (a ! 0) - uint (b ! 0))"
      unfolding sum1_def by (intro uint_add_small lo0)
    then show ?thesis by (simp add: s0)
  qed
  let ?x = "\<lambda>j. 17179869180 + uint (a ! j) - uint (b ! j)"
  have step: "\<exists>v. gfp_sub_v2_step a b j (s, r') = (drop_bit 32 v, r'[0 + j := ucast v]) \<and> uint v = uint s + ?x j"
    if "uint s < 2 ^ 32" for j s r'
  proof -
    let ?t = "FOURXPMI + ucast (a ! j) - ucast (b ! j) :: DWord"
    have t: "uint ?t = ?x j" by (subst sub_v2_addend) (simp_all add: FOURXPMI_eq)
    have "?x j \<le> 18446744069414584320"
      using uint_w_bounds [of "a ! j"] uint_w_bounds [of "b ! j"] by linarith
    then have "uint (s + ?t) = uint s + ?x j" by (intro uint_add_small that t)
    then show ?thesis by (intro exI [of _ "s + ?t"]) (simp add: gfp_sub_v2_step_def Let_def WSIZE_eq)
  qed
  have s1b: "uint (drop_bit 32 sum1) < 2 ^ 32"
    using uint_lt_dw [of sum1] by (simp add: uint_drop_bit_word)
  have "case fold (gfp_sub_v2_step a b) [1..<7] (drop_bit 32 sum1, r[0 := ucast sum1]) of (s, r') \<Rightarrow>
           length r' = length (r[0 := ucast sum1]) \<and> take (0 + 1) r' = take (0 + 1) (r[0 := ucast sum1]) \<and>
           drop (0 + 7) r' = drop (0 + 7) (r[0 := ucast sum1]) \<and> uint s < 2 ^ 32 \<and>
           mpi_val (take (7 - 1) (drop (0 + 1) r')) + 2 ^ (32 * (7 - 1)) * uint s
             = uint (drop_bit 32 sum1) + (\<Sum>j = 1..<7. 2 ^ (32 * (j - 1)) * ?x j)"
    by (rule uchain) (use step lr s1b in simp_all)
  moreover have "(\<Sum>j = 1..<7. 2 ^ (32 * (j - 1)) * ?x j)
        = (\<Sum>j = 1..<7. 2 ^ (32 * (j - 1)) * 17179869180) + (\<Sum>j = 1..<7. 2 ^ (32 * (j - 1)) * uint (a ! j))
            - (\<Sum>j = 1..<7. 2 ^ (32 * (j - 1)) * uint (b ! j))"
    by (simp only: sum_subtractf [symmetric] sum.distrib [symmetric] right_diff_distrib distrib_left)
  ultimately have l1: "length r1 = 8" and h1: "take 1 r1 = take 1 (r[0 := ucast sum1])" and
    v: "mpi_val (take 6 (drop 1 r1)) + 2 ^ 192 * uint s
          = uint sum1 div 2 ^ 32 + 4 * (2 ^ 192 - 1) + mpi_val (take 6 (drop 1 a)) - mpi_val (take 6 (drop 1 b))"
    using sum_mpi_val [of 7 a 1] sum_mpi_val [of 7 b 1] la lb lr f sum_const_mid
    by (simp_all add: uint_drop_bit_word)
  have r10: "r1 ! 0 = ucast sum1"
  proof -
    have "r1 ! 0 = take 1 r1 ! 0" by simp
    also have "\<dots> = (r[0 := ucast sum1]) ! 0" by (simp only: h1) simp
    finally show ?thesis using lr by simp
  qed
  define alo blo amid bmid where "alo = mpi_val (take 7 a)" and "blo = mpi_val (take 7 b)"
    and "amid = mpi_val (take 6 (drop 1 a))" and "bmid = mpi_val (take 6 (drop 1 b))"
  have lo: "0 \<le> alo" "alo < 2 ^ 224" "0 \<le> blo" "blo < 2 ^ 224"
    using mpi_val_take_lt [of 7 a] mpi_val_take_lt [of 7 b] la lb by (simp_all add: alo_def blo_def mpi_val_ge0)
  have hd: "alo = uint (a ! 0) + 2 ^ 32 * amid" "blo = uint (b ! 0) + 2 ^ 32 * bmid"
    using mpi_val_head [of a] mpi_val_head [of b] la lb by (simp_all add: alo_def blo_def amid_def bmid_def)
  have r1lo: "0 \<le> mpi_val (take 7 r1)" "mpi_val (take 7 r1) < 2 ^ 224"
    using mpi_val_take_lt [of 7 r1] l1 by (simp_all add: mpi_val_ge0)
  define Q R M where "Q = uint sum1 div 2 ^ 32" and "R = uint sum1 mod 2 ^ 32"
    and "M = mpi_val (take 6 (drop 1 r1))"
  have qr: "R + 4294967296 * Q = uint sum1" by (simp add: Q_def R_def)
  have r1v: "mpi_val (take 7 r1) = R + 4294967296 * M"
    using mpi_val_head [of r1] l1 by (simp add: r10 uint_ucast_down R_def M_def)
  have v1: "M + 2 ^ 192 * uint s = Q + 4 * (2 ^ 192 - 1) + amid - bmid"
    using v by (simp only: M_def Q_def amid_def bmid_def)
  have v': "mpi_val (take 7 r1) + 2 ^ 224 * uint s = 19 * hi - 76 + alo - blo + 4 * 2 ^ 224"
    using v1 qr sum1 unfolding hd r1v by simp
  have s2: "2 \<le> uint s" "uint s \<le> 5"
  proof -
    show "2 \<le> uint s"
    proof (rule ccontr)
      assume "\<not> 2 \<le> uint s"
      then have "uint s \<le> 1" by simp
      then have "2 ^ 224 * uint s \<le> (2 ^ 224 :: int) * 1" by (intro mult_left_mono) simp_all
      then show False using v' lo hi r1lo by simp
    qed
    show "uint s \<le> 5"
    proof (rule ccontr)
      assume "\<not> uint s \<le> 5"
      then have "6 \<le> uint s" by simp
      then have "2 ^ 224 * 6 \<le> (2 ^ 224 :: int) * uint s" by (intro mult_left_mono) simp_all
      then show False using v' lo hi r1lo by simp
    qed
  qed
  have m31: "0 \<le> T mod 2 ^ 31" "T mod 2 ^ 31 < 2 ^ 31" by simp_all
  have fin: "uint (msw + ucast s) = T mod 2 ^ 31 + uint s"
    using s2 m31 msw by (subst uint_add_w) (simp_all add: uint_ucast_down)
  show "length (gfp_sub_v2 r a b) = 8" by (simp add: g l1)
  have sp: "T mod 2 ^ 31 + 2 ^ 31 * hi = T"
    unfolding hi_def by simp
  have val: "mpi_val (gfp_sub_v2 r a b) = mpi_val (take 7 r1) + 2 ^ 224 * (T mod 2 ^ 31 + uint s)"
    by (simp add: g mpi_val_upd7 [OF l1] fin)
  have ab: "mpi_val a = alo + 2 ^ 224 * uint (a ! 7)" "mpi_val b = blo + 2 ^ 224 * uint (b ! 7)"
    using mpi_val_8 [OF la] mpi_val_8 [OF lb] by (simp_all add: alo_def blo_def)
  show "mpi_val (gfp_sub_v2 r a b)
          = mpi_val a - mpi_val b + (4 - (8589934588 + uint (a ! 7) - uint (b ! 7)) div 2 ^ 31) * P25519"
    unfolding T_def [symmetric] hi_def [symmetric]
    using val v' sp unfolding ab P25519_eq T_def by simp
qed

section \<open>Halving\<close>

lemma uint_and_1: "uint ((x :: Word) AND 1) = uint x mod 2"
  by (simp add: and_one_eq uint_mod_distrib)

lemma uint_push31: "uint (push_bit 31 (w :: Word)) = (uint w mod 2) * 2 ^ 31"
proof -
  have "uint (push_bit 31 w) = take_bit LENGTH(32) (push_bit 31 (uint w))"
    by (rule unsigned_push_bit_eq)
  also have "\<dots> = (2 ^ 31 * uint w) mod (2 ^ 31 * 2)"
    by (simp add: take_bit_eq_mod push_bit_eq_mult mult.commute)
  also have "\<dots> = 2 ^ 31 * (uint w mod 2)" by (rule mult_mod_right [symmetric])
  finally show ?thesis by (simp add: mult.commute)
qed

lemma shift_or_disjoint: "push_bit 31 (w :: Word) AND drop_bit 1 (t :: Word) = 0"
proof (rule bit_eqI)
  fix n
  show "bit (push_bit 31 w AND drop_bit 1 t) n = bit (0 :: Word) n"
  proof (cases "n < 31")
    case True then show ?thesis by (simp add: bit_simps)
  next
    case False
    then have "\<not> bit (drop_bit 1 t) n"
      using bit_imp_le_length [of t "n + 1"] by (auto simp: bit_simps)
    then show ?thesis by (simp add: bit_simps)
  qed
qed

lemma uint_shift_or:
  "uint (push_bit 31 (w :: Word) OR drop_bit 1 (t :: Word)) = (uint w mod 2) * 2 ^ 31 + uint t div 2"
proof -
  have e: "push_bit 31 w OR drop_bit 1 t = push_bit 31 w + drop_bit 1 t"
    by (rule disjunctive_add_eq_or [symmetric, OF shift_or_disjoint])
  have d: "uint (drop_bit 1 t) = uint t div 2" by (simp add: uint_drop_bit_word)
  have "uint t div 2 < 2 ^ 31" using uint_lt_w [of t] by simp
  moreover have "(uint w mod 2) * 2 ^ 31 \<le> 2 ^ 31"
  proof -
    have "uint w mod 2 \<le> 1" by simp
    then have "(uint w mod 2) * 2 ^ 31 \<le> 1 * 2 ^ 31" by (rule mult_right_mono) simp
    then show ?thesis by simp
  qed
  ultimately have "uint (push_bit 31 w) + uint (drop_bit 1 t) < 2 ^ 32"
    unfolding uint_push31 d by simp
  then have "uint (push_bit 31 w + drop_bit 1 t) = uint (push_bit 31 w) + uint (drop_bit 1 t)"
    by (rule uint_add_w)
  then show ?thesis by (simp only: e uint_push31 d)
qed

lemma hlv_mask:
  fixes a0 :: Word
  defines "msk \<equiv> 0 - (a0 AND 1)" and "o1 \<equiv> uint a0 mod 2"
  shows "uint (CONSTC AND msk) = 19 * o1" and "uint (MSB1MASK AND msk) = 2 ^ 31 * o1"
proof -
  have "o1 = 0 \<or> o1 = 1" unfolding o1_def by presburger
  then have "uint (CONSTC AND msk) = 19 * o1 \<and> uint (MSB1MASK AND msk) = 2 ^ 31 * o1"
  proof
    assume o: "o1 = 0"
    then have "uint (a0 AND 1) = 0" by (simp add: uint_and_1 o1_def)
    then have "a0 AND 1 = 0" by (simp add: word_uint_eq_iff)
    then have "msk = 0" by (simp add: msk_def)
    then show ?thesis by (simp add: o)
  next
    assume o: "o1 = 1"
    then have "uint (a0 AND 1) = uint (1 :: Word)" by (simp add: uint_and_1 o1_def)
    then have "a0 AND 1 = 1" by (simp only: word_uint_eq_iff)
    then have "msk = - 1" by (simp add: msk_def)
    then show ?thesis by (simp add: o MSB1MASK_eq)
  qed
  then show "uint (CONSTC AND msk) = 19 * o1" and "uint (MSB1MASK AND msk) = 2 ^ 31 * o1"
    by simp_all
qed

lemma hlv_step_arith:
  fixes E M td S Vk t' q ak :: int
  assumes ih: "2 * M + E * (2 * td) + E * 4294967296 * S = Vk"
      and sp: "t' + 4294967296 * q = S + ak"
  shows "2 * (M + E * ((t' mod 2) * 2147483648 + td)) + (E * 4294967296) * (2 * (t' div 2))
          + (E * 4294967296 * 4294967296) * q = Vk + E * 4294967296 * ak"
proof -
  define m d where "m = t' mod 2" and "d = t' div 2"
  have t: "t' = m + 2 * d" by (simp add: m_def d_def)
  have ak: "ak = m + 2 * d + 4294967296 * q - S" using sp t by simp
  have "2 * (M + E * (m * 2147483648 + td)) + (E * 4294967296) * (2 * d)
          + (E * 4294967296 * 4294967296) * q = Vk + E * 4294967296 * ak"
    unfolding ih [symmetric] ak by (simp add: algebra_simps)
  then show ?thesis by (simp only: m_def d_def)
qed

lemma even_div2: "(W :: int) mod 2 = 0 \<Longrightarrow> 2 * ((W mod 4294967296) div 2) = W mod 4294967296"
proof -
  assume "W mod 2 = 0"
  moreover have "(W mod 4294967296) mod 2 = W mod 2" by (rule mod_mod_cancel) simp
  ultimately have "(W mod 4294967296) mod 2 = 0" by simp
  then show ?thesis by presburger
qed

lemma sint_ucast_up_add:
  assumes "- (2 ^ 31) \<le> sint s \<and> sint s < 2 ^ 31"
  shows "sint (s + ucast (x :: Word) :: DWord) = sint s + uint x"
proof (rule sint_add_small [OF assms sint_ucast_up])
  show "- 4611686018427387904 \<le> uint x" "uint x \<le> 4611686018427387904"
    using uint_w_bounds [of x] by linarith+
qed

lemma gfp_hlv_val:
  assumes la: "length a = 8" and lr: "length r = 8"
  shows "length (gfp_hlv r a) = 8"
    and "2 * mpi_val (gfp_hlv r a) = mpi_val a + (mpi_val a mod 2) * P25519"
proof -
  define o1 where "o1 = uint (a ! 0) mod 2"
  define msk :: Word where "msk = 0 - (a ! 0 AND 1)"
  define sum0 :: DWord where "sum0 = ucast (a ! 0) - ucast (CONSTC AND msk)"
  define W where "W = uint (a ! 0) - 19 * o1"
  define V where "V k = W + (\<Sum>j = 1..<k. 2 ^ (32 * j) * uint (a ! j))" for k
  define P :: "nat \<Rightarrow> DWord \<times> Word \<times> Word list \<Rightarrow> bool"
    where "P k st = (case st of (sm, tmp, r') \<Rightarrow> length r' = 8 \<and>
        (- (2 ^ 31) \<le> sint sm \<and> sint sm < 2 ^ 31) \<and>
        2 * mpi_val (take (k - 1) r') + 2 ^ (32 * (k - 1)) * (2 * (uint tmp div 2))
          + 2 ^ (32 * (k - 1)) * 4294967296 * sint sm = V k)" for k st
  have o01: "o1 = 0 \<or> o1 = 1" unfolding o1_def by presburger
  have msk: "uint (CONSTC AND msk) = 19 * o1" "uint (MSB1MASK AND msk) = 2 ^ 31 * o1"
    using hlv_mask [of "a ! 0"] by (simp_all add: msk_def o1_def)
  have s0: "sint sum0 = W" unfolding sum0_def W_def by (simp only: sint_ucast_diff msk)
  have o1b: "0 \<le> o1" "o1 \<le> 1" using o01 by auto
  have Wb: "- 19 \<le> W" "W \<le> 4294967295"
    using uint_w_bounds [of "a ! 0"] o1b unfolding W_def by linarith+
  have We: "W mod 2 = 0" unfolding W_def o1_def by presburger
  obtain sm tmp r6 where f: "fold (gfp_hlv_step a) [1..<7] (signed_drop_bit 32 sum0, ucast sum0, r) = (sm, tmp, r6)"
    by (cases "fold (gfp_hlv_step a) [1..<7] (signed_drop_bit 32 sum0, ucast sum0, r)") auto
  have "P 7 (fold (gfp_hlv_step a) [1..<7] (signed_drop_bit 32 sum0, ucast sum0, r))"
  proof (rule fold_upt_from_inv)
    show "(1::nat) \<le> 7" by simp
  next
    have "(- 19) div 4294967296 \<le> W div 4294967296" "W div 4294967296 \<le> 4294967295 div 4294967296"
      using Wb by (simp_all add: zdiv_mono1)
    then have b: "- 1 \<le> W div 4294967296" "W div 4294967296 \<le> 0" by simp_all
    have "2 * ((W mod 4294967296) div 2) + 4294967296 * (W div 4294967296) = W"
      by (simp only: even_div2 [OF We]) simp
    then show "P 1 (signed_drop_bit 32 sum0, ucast sum0, r)"
      using b by (simp add: P_def lr V_def sint_signed_drop_bit_dw s0 sint_ucast_down)
  next
    fix k st assume k1: "1 \<le> k" and k7: "k < 7" and Pk: "P k st"
    obtain s t r' where st: "st = (s, t, r')" by (cases st) auto
    from Pk have l: "length r' = 8" and sb: "- (2 ^ 31) \<le> sint s \<and> sint s < 2 ^ 31"
      and ih: "2 * mpi_val (take (k - 1) r') + 2 ^ (32 * (k - 1)) * (2 * (uint t div 2))
          + 2 ^ (32 * (k - 1)) * 4294967296 * sint s = V k"
      by (simp_all add: P_def st)
    define s' where "s' = s + ucast (a ! k)"
    define w where "w = push_bit 31 (ucast s' :: Word) OR drop_bit 1 t"
    have stp: "gfp_hlv_step a k st = (signed_drop_bit 32 s', ucast s', r'[k - 1 := w])"
      by (simp add: gfp_hlv_step_def st Let_def WSIZE_eq s'_def w_def)
    have ss': "sint s' = sint s + uint (a ! k)" unfolding s'_def by (rule sint_ucast_up_add [OF sb])
    define t' where "t' = sint s' mod 4294967296"
    define q where "q = sint s' div 4294967296"
    have tq: "t' + 4294967296 * q = sint s + uint (a ! k)" unfolding t'_def q_def ss' [symmetric] by simp
    have ut': "uint (ucast s' :: Word) = t'" by (simp add: sint_ucast_down t'_def)
    have uw: "uint w = (t' mod 2) * 2147483648 + uint t div 2"
      unfolding w_def uint_shift_or ut' by simp
    have km: "k - 1 < length r'" using l k7 by simp
    have "take (Suc (k - 1)) (r'[k - 1 := w]) = take (k - 1) r' @ [w]"
      using km by (simp add: take_Suc_conv_app_nth)
    then have tk: "mpi_val (take k (r'[k - 1 := w])) = mpi_val (take (k - 1) r') + 2 ^ (32 * (k - 1)) * uint w"
      using k1 km by (simp add: mpi_val_append min_def)
    have pw: "(2 :: int) ^ (32 * k) = 2 ^ (32 * (k - 1)) * 4294967296"
    proof -
      have "32 * k = 32 * (k - 1) + 32" using k1 by simp
      then show ?thesis by (simp only: power_add) simp
    qed
    have Vs: "V (Suc k) = V k + 2 ^ (32 * (k - 1)) * 4294967296 * uint (a ! k)"
      using k1 by (simp add: V_def pw)
    have bq: "- (2 ^ 31) \<le> q \<and> q < 2 ^ 31"
    proof -
      have "- (2 ^ 63) \<le> sint s'" "sint s' < 2 ^ 63" using sint_ge [of s'] sint_lt [of s'] by simp_all
      then have "(- (2 ^ 63)) div 4294967296 \<le> q" "q \<le> (2 ^ 63 - 1) div 4294967296"
        unfolding q_def by (simp_all add: zdiv_mono1)
      then show ?thesis by simp
    qed
    have "2 * mpi_val (take (Suc k - 1) (r'[k - 1 := w])) + 2 ^ (32 * (Suc k - 1)) * (2 * (t' div 2))
          + 2 ^ (32 * (Suc k - 1)) * 4294967296 * q = V (Suc k)"
      using hlv_step_arith [OF ih tq] tk uw by (simp add: pw Vs)
    then show "P (Suc k) (gfp_hlv_step a k st)"
      unfolding stp P_def using l bq by (simp add: ut' sint_signed_drop_bit_dw q_def)
  qed
  with f have l6: "length r6 = 8" and sb: "- (2 ^ 31) \<le> sint sm \<and> sint sm < 2 ^ 31"
    and v6: "2 * mpi_val (take 6 r6) + 2 ^ 192 * (2 * (uint tmp div 2)) + 2 ^ 192 * 4294967296 * sint sm = V 7"
    by (simp_all add: P_def)
  define addend :: DWord where "addend = ucast (a ! 7) + ucast (MSB1MASK AND msk)"
  define sf where "sf = sm + addend"
  define w6 where "w6 = push_bit 31 (ucast sf :: Word) OR drop_bit 1 tmp"
  define w7 :: Word where "w7 = ucast (signed_drop_bit 1 sf)"
  have g: "gfp_hlv r a = r6[6 := w6, 7 := w7]"
    using f unfolding sum0_def msk_def sf_def w6_def w7_def addend_def
    by (simp add: gfp_hlv_def Let_def LEN_eq WSIZE_eq)
  show "length (gfp_hlv r a) = 8" by (simp add: g l6)
  define A7 where "A7 = uint (a ! 7) + 2147483648 * o1"
  have A7b: "0 \<le> A7" "A7 \<le> 6442450943" using uint_w_bounds [of "a ! 7"] o1b unfolding A7_def by linarith+
  have "uint (a ! 7) + 2147483648 * o1 < 2 ^ 64" using A7b unfolding A7_def by simp
  then have ua: "uint addend = A7"
    unfolding addend_def A7_def
    by (subst uint_add_dw) (simp_all add: uint_ucast_up msk)
  have sa: "sint addend = A7" using A7b by (subst sint_eq_uint_dw) (simp_all add: ua)
  have ssf: "sint sf = sint sm + A7"
    unfolding sf_def using A7b by (intro sint_add_small [OF sb sa]) simp_all
  define td M6 where "td = uint tmp div 2" and "M6 = mpi_val (take 6 r6)"
  have tdb: "0 \<le> td" "td \<le> 2147483647" using uint_w_bounds [of tmp] unfolding td_def by simp_all
  have M6b: "0 \<le> M6" "M6 < 2 ^ 192" using mpi_val_take_lt [of 6 r6] l6 by (simp_all add: M6_def mpi_val_ge0)
  have V7: "V 7 + 2 ^ 224 * uint (a ! 7) = mpi_val a - 19 * o1"
  proof -
    have "(\<Sum>j = 0..<7. 2 ^ (32 * (j - 0)) * uint (a ! j)) = mpi_val (take 7 a)"
      using sum_mpi_val [of 7 a 0] la by simp
    then have "uint (a ! 0) + (\<Sum>j = 1..<7. 2 ^ (32 * j) * uint (a ! j)) = mpi_val (take 7 a)"
      by (simp add: sum.atLeast_Suc_lessThan)
    then show ?thesis using mpi_val_8 [OF la] by (simp add: V_def W_def)
  qed
  define S where "S = sint sm"
  define F where "F = sint sf"
  have FS: "F = S + A7" by (simp add: F_def S_def ssf)
  have v6': "2 * M6 + 2 ^ 192 * (2 * td) + 2 ^ 224 * S = V 7" using v6 by (simp add: M6_def td_def S_def)
  have Ab: "0 \<le> mpi_val a" "mpi_val a < 2 ^ 256" using mpi_val_lt_256 [OF la] by (simp_all add: mpi_val_ge0)
  have tot: "2 * M6 + 2 ^ 192 * (2 * td) + 2 ^ 224 * F = mpi_val a + o1 * P25519"
    using v6' V7 FS unfolding A7_def P25519_eq by simp
  have Fb: "0 \<le> F" "F < 6442450944"
  proof -
    show "0 \<le> F"
    proof (rule ccontr)
      assume "\<not> 0 \<le> F"
      then have "F \<le> - 1" by simp
      then have "2 ^ 224 * F \<le> (2 ^ 224 :: int) * (- 1)" by (intro mult_left_mono) simp_all
      then show False using tot M6b tdb Ab o1b unfolding P25519_eq by simp
    qed
    show "F < 6442450944"
    proof (rule ccontr)
      assume "\<not> F < 6442450944"
      then have "6442450944 \<le> F" by simp
      then have "2 ^ 224 * 6442450944 \<le> (2 ^ 224 :: int) * F" by (intro mult_left_mono) simp_all
      then show False using tot M6b tdb Ab o1b unfolding P25519_eq by simp
    qed
  qed
  define Fm Fd where "Fm = F mod 2" and "Fd = F div 2"
  have Fmd: "Fm + 2 * Fd = F" by (simp add: Fm_def Fd_def)
  have uw6: "uint w6 = Fm * 2147483648 + td"
  proof -
    have "uint (ucast sf :: Word) mod 2 = F mod 2"
      unfolding sint_ucast_down F_def by (rule mod_mod_cancel) simp
    then show ?thesis unfolding w6_def uint_shift_or td_def Fm_def by simp
  qed
  have uw7: "uint w7 = Fd"
  proof -
    have "0 \<le> F div 2" "F div 2 < 4294967296" using Fb by simp_all
    then have "(F div 2) mod 4294967296 = F div 2" by simp
    then show ?thesis unfolding w7_def sint_ucast_down sint_signed_drop_bit_dw F_def Fd_def by simp
  qed
  have "take (Suc 6) (r6[6 := w6]) = take 6 (r6[6 := w6]) @ [(r6[6 := w6]) ! 6]"
    using l6 by (intro take_Suc_conv_app_nth) simp
  then have "take 7 (r6[6 := w6, 7 := w7]) = take 6 r6 @ [w6]"
    using l6 by simp
  then have "mpi_val (take 7 (r6[6 := w6, 7 := w7])) = M6 + 2 ^ 192 * uint w6"
    using l6 by (simp add: mpi_val_append M6_def)
  then have "mpi_val (gfp_hlv r a) = M6 + 2 ^ 192 * uint w6 + 2 ^ 224 * uint w7"
    using mpi_val_8 [of "r6[6 := w6, 7 := w7]"] l6 by (simp add: g)
  then have "2 * mpi_val (gfp_hlv r a) = mpi_val a + o1 * P25519"
    using tot Fmd unfolding uw6 uw7 by simp
  moreover have "mpi_val a mod 2 = o1"
  proof -
    have "mpi_val a = uint (a ! 0) + 2 * (2 ^ 31 * mpi_val (tl a))"
      using la by (cases a) simp_all
    then show ?thesis unfolding o1_def by (metis mod_mult_self2)
  qed
  ultimately show "2 * mpi_val (gfp_hlv r a) = mpi_val a + (mpi_val a mod 2) * P25519" by simp
qed

lemma P25519_odd: "odd P25519" by (simp add: P25519_eq)

lemma halve_cong:
  assumes "(2 * h) mod P25519 = (2 * x) mod P25519"
  shows "h mod P25519 = x mod P25519"
proof -
  have "P25519 dvd 2 * h - 2 * x" using assms by (simp only: mod_eq_dvd_iff)
  then have "P25519 dvd 2 * (h - x)" by (simp add: algebra_simps)
  moreover have "coprime P25519 2" using P25519_odd by simp
  ultimately have "P25519 dvd h - x" by (metis coprime_dvd_mult_right_iff)
  then show ?thesis by (simp only: mod_eq_dvd_iff)
qed

section \<open>Comparison\<close>

lemma uint_shl_or_bool:
  assumes "uint (w :: Word) < 2 ^ 31"
  shows "uint (push_bit 1 w OR of_bool c) = 2 * uint w + of_bool c"
proof -
  define v where "v = w + w"
  have "uint w + uint w < 2 ^ 32" using assms by simp
  then have "uint (w + w) = uint w + uint w" by (rule uint_add_w)
  then have d: "uint v = 2 * uint w" by (simp add: v_def)
  have p: "push_bit 1 w = v" by (simp add: push_bit_eq_mult v_def)
  have ev: "even v" by (simp add: v_def)
  show ?thesis
  proof (cases c)
    case False then show ?thesis unfolding p using d by simp
  next
    case True
    have "v OR 1 = v + 1" using ev by (simp add: or_one_eq)
    moreover have "uint (v + 1) = uint v + uint (1 :: Word)"
      using assms d by (intro uint_add_w) simp
    ultimately show ?thesis unfolding p using True d by simp
  qed
qed

lemma mpi_val_drop_step:
  "i < len \<Longrightarrow> len \<le> length a \<Longrightarrow>
     mpi_val (drop i (take len a)) = uint (a ! i) + 2 ^ 32 * mpi_val (drop (Suc i) (take len a))"
proof -
  assume i: "i < len" and l: "len \<le> length a"
  then have "drop i (take len a) = (take len a ! i) # drop (Suc i) (take len a)"
    by (intro Cons_nth_drop_Suc [symmetric]) simp
  then show ?thesis using i by simp
qed

lemma mpi_cmp_fold:
  assumes len: "len \<le> 32" and la: "len \<le> length a" and lb: "len \<le> length b"
  shows "case fold (mpi_cmp_step a b) (rev [0..<len]) (0, 0) of (lt, gt) \<Rightarrow>
           (gt > lt \<longleftrightarrow> mpi_val (take len a) > mpi_val (take len b)) \<and>
           (lt > gt \<longleftrightarrow> mpi_val (take len a) < mpi_val (take len b))"
proof -
  define P :: "nat \<Rightarrow> Word \<times> Word \<Rightarrow> bool" where "P i st = (case st of (lt, gt) \<Rightarrow>
      uint lt < 2 ^ (len - i) \<and> uint gt < 2 ^ (len - i) \<and>
      (uint gt > uint lt \<longleftrightarrow> mpi_val (drop i (take len a)) > mpi_val (drop i (take len b))) \<and>
      (uint lt > uint gt \<longleftrightarrow> mpi_val (drop i (take len a)) < mpi_val (drop i (take len b))))" for i st
  have "P 0 (fold (mpi_cmp_step a b) (rev [0..<len]) (0, 0))"
  proof (rule fold_rev_upt_inv)
    show "0 \<le> len" by simp
    show "P len (0, 0)" using la lb by (simp add: P_def)
  next
    fix i st assume il: "i < len" and Ps: "P (Suc i) st"
    obtain lt gt where st: "st = (lt, gt)" by (cases st)
    define A B where "A = mpi_val (drop (Suc i) (take len a))" and "B = mpi_val (drop (Suc i) (take len b))"
    define x y where "x = uint (a ! i)" and "y = uint (b ! i)"
    define L G where "L = uint lt" and "G = uint gt"
    from Ps have b: "L < 2 ^ (len - Suc i)" "G < 2 ^ (len - Suc i)"
      and c: "G > L \<longleftrightarrow> A > B" "L > G \<longleftrightarrow> A < B"
      by (simp_all add: P_def st A_def B_def L_def G_def)
    have "(2 :: int) ^ (len - Suc i) \<le> 2 ^ 31" using len il by (intro power_increasing) simp_all
    then have b31: "L < 2 ^ 31" "G < 2 ^ 31" using b by simp_all
    have "len - i = Suc (len - Suc i)" using il by simp
    then have pw: "(2 :: int) ^ (len - i) = 2 * 2 ^ (len - Suc i)"
      by (simp only: power_Suc)
    let ?lt = "push_bit 1 lt OR of_bool (a ! i < b ! i)"
    let ?gt = "push_bit 1 gt OR of_bool (a ! i > b ! i)"
    have "uint ?lt = 2 * uint lt + of_bool (a ! i < b ! i)"
      by (rule uint_shl_or_bool) (use b31 in \<open>simp add: L_def\<close>)
    then have ult: "uint ?lt = 2 * L + of_bool (x < y)"
      by (simp only: L_def x_def y_def word_less_def)
    have "uint ?gt = 2 * uint gt + of_bool (a ! i > b ! i)"
      by (rule uint_shl_or_bool) (use b31 in \<open>simp add: G_def\<close>)
    then have ugt: "uint ?gt = 2 * G + of_bool (x > y)"
      by (simp only: G_def x_def y_def word_less_def)
    have va: "mpi_val (drop i (take len a)) = x + 2 ^ 32 * A"
      and vb: "mpi_val (drop i (take len b)) = y + 2 ^ 32 * B"
      using mpi_val_drop_step [OF il la] mpi_val_drop_step [OF il lb] by (simp_all add: A_def B_def x_def y_def)
    have xy: "0 \<le> x" "x \<le> 4294967295" "0 \<le> y" "y \<le> 4294967295"
      using uint_w_bounds [of "a ! i"] uint_w_bounds [of "b ! i"] by (simp_all add: x_def y_def)
    have LG: "0 \<le> L" "0 \<le> G" by (simp_all add: L_def G_def)
    have 1: "uint ?lt < 2 ^ (len - i)" "uint ?gt < 2 ^ (len - i)"
      using b unfolding ult ugt pw by (auto split: if_splits)
    have 2: "(uint ?gt > uint ?lt \<longleftrightarrow> x + 2 ^ 32 * A > y + 2 ^ 32 * B)"
      unfolding ult ugt using c xy by (cases "A < B"; cases "B < A") (auto split: if_splits)
    have 3: "(uint ?lt > uint ?gt \<longleftrightarrow> x + 2 ^ 32 * A < y + 2 ^ 32 * B)"
      unfolding ult ugt using c xy by (cases "A < B"; cases "B < A") (auto split: if_splits)
    show "P i (mpi_cmp_step a b i st)"
      unfolding P_def st mpi_cmp_step_def using 1 2 3 by (simp add: va vb)
  qed
  then show ?thesis by (auto simp: P_def word_less_def split: prod.splits)
qed

lemma mpi_cmp_spec:
  assumes len: "len \<le> 32" and la: "len \<le> length a" and lb: "len \<le> length b"
  shows "mpi_cmp a b len = Inr (sgn (mpi_val (take len a) - mpi_val (take len b)))"
proof -
  obtain lt gt where f: "fold (mpi_cmp_step a b) (rev [0..<len]) (0, 0) = (lt, gt)"
    by (cases "fold (mpi_cmp_step a b) (rev [0..<len]) (0, 0)")
  from mpi_cmp_fold [OF len la lb] f
  have "gt > lt \<longleftrightarrow> mpi_val (take len a) > mpi_val (take len b)"
    "lt > gt \<longleftrightarrow> mpi_val (take len a) < mpi_val (take len b)" by simp_all
  then show ?thesis using len by (auto simp: mpi_cmp_def f WSIZE_eq sgn_if)
qed

section \<open>Multiplication\<close>

lemma uint_ucast_prod: "uint (ucast (x :: Word) * ucast (y :: Word) :: DWord) = uint x * uint y"
proof -
  define X Y where "X = uint x" and "Y = uint y"
  have b: "0 \<le> X" "X \<le> 4294967295" "0 \<le> Y" "Y \<le> 4294967295"
    using uint_w_bounds [of x] uint_w_bounds [of y] by (simp_all add: X_def Y_def)
  have "X * Y \<le> 4294967295 * 4294967295" using b by (intro mult_mono) simp_all
  then have "X * Y < 2 ^ 64" by simp
  then have "uint (ucast x :: DWord) * uint (ucast y :: DWord) < 2 ^ 64"
    by (simp only: uint_ucast_up X_def Y_def)
  then have "uint (ucast x * ucast y :: DWord) = uint (ucast x :: DWord) * uint (ucast y :: DWord)"
    by (rule uint_mult_dw)
  then show ?thesis by (simp only: uint_ucast_up)
qed

lemma prod_w_le: "uint (x :: Word) * uint (y :: Word) \<le> 18446744065119617025"
proof -
  have "uint x * uint y \<le> 4294967295 * 4294967295"
    using uint_w_bounds [of x] uint_w_bounds [of y] by (intro mult_mono) simp_all
  then show ?thesis by simp
qed

lemma sum_shift_mpi_val:
  assumes "i + n \<le> length t"
  shows "(\<Sum>j = 0..<n. 2 ^ (32 * (j - 0)) * uint (t ! (i + j))) = mpi_val (take n (drop i t))"
proof -
  have "(\<Sum>j = 0..<n. 2 ^ (32 * (j - 0)) * uint (t ! (i + j)))
      = (\<Sum>j = 0..<n. 2 ^ (32 * (j - 0)) * uint (drop i t ! j))"
    using assms by (intro sum.cong) simp_all
  also have "\<dots> = mpi_val (take (n - 0) (drop 0 (drop i t)))"
    using assms by (intro sum_mpi_val) simp_all
  finally show ?thesis by simp
qed

text \<open>The first, peeled pass of the multiplication: t[0..8] = a * b[0].\<close>
lemma mul_first_pass:
  fixes b :: "Word list"
  assumes la: "length a = 8" and lt: "length t = 16"
  defines "res \<equiv> fold (mul_first_step a b) [0..<8] (0, t)"
  shows "length ((snd res)[8 := ucast (fst res)]) = 16"
    and "mpi_val (take 9 ((snd res)[8 := ucast (fst res)])) = mpi_val a * uint (b ! 0)"
proof -
  let ?x = "\<lambda>j. uint (a ! j) * uint (b ! 0)"
  have step: "\<exists>v. mul_first_step a b j (s, r') = (drop_bit 32 v, r'[0 + j := ucast v]) \<and> uint v = uint s + ?x j"
    if "uint s < 2 ^ 32" for j s r'
  proof -
    let ?t = "ucast (a ! j) * ucast (b ! 0) :: DWord"
    have "?x j \<le> 18446744069414584320" using prod_w_le [of "a ! j" "b ! 0"] by linarith
    then have "uint (s + ?t) = uint s + ?x j" by (intro uint_add_small that uint_ucast_prod)
    then show ?thesis by (intro exI [of _ "s + ?t"]) (simp add: mul_first_step_def Let_def WSIZE_eq)
  qed
  obtain s r1 where f: "res = (s, r1)" by (cases res)
  have "case fold (mul_first_step a b) [0..<8] (0, t) of (s, r') \<Rightarrow>
           length r' = length t \<and> take (0 + 0) r' = take (0 + 0) t \<and>
           drop (0 + 8) r' = drop (0 + 8) t \<and> uint s < 2 ^ 32 \<and>
           mpi_val (take (8 - 0) (drop (0 + 0) r')) + 2 ^ (32 * (8 - 0)) * uint s
             = uint (0 :: DWord) + (\<Sum>j = 0..<8. 2 ^ (32 * (j - 0)) * ?x j)"
    by (rule uchain) (use step lt in simp_all)
  moreover have "(\<Sum>j = 0..<8. 2 ^ (32 * (j - 0)) * ?x j)
        = (\<Sum>j = 0..<8. 2 ^ (32 * (j - 0)) * uint (a ! j)) * uint (b ! 0)"
    by (simp only: sum_distrib_right mult.assoc)
  ultimately have l1: "length r1 = 16" and sb: "uint s < 2 ^ 32"
    and v: "mpi_val (take 8 r1) + 2 ^ 256 * uint s = mpi_val a * uint (b ! 0)"
    using sum_mpi_val [of 8 a 0] la lt f by (simp_all add: res_def)
  show "length ((snd res)[8 := ucast (fst res)]) = 16" by (simp add: f l1)
  have "take (Suc 8) (r1[8 := ucast s]) = take 8 (r1[8 := ucast s]) @ [(r1[8 := ucast s]) ! 8]"
    using l1 by (intro take_Suc_conv_app_nth) simp
  then have "take 9 (r1[8 := ucast s]) = take 8 r1 @ [ucast s]" using l1 by simp
  then have "mpi_val (take 9 (r1[8 := ucast s])) = mpi_val (take 8 r1) + 2 ^ 256 * uint (ucast s :: Word)"
    using l1 by (simp add: mpi_val_append)
  moreover have "uint (ucast s :: Word) = uint s" using sb by (simp add: uint_ucast_down)
  ultimately show "mpi_val (take 9 ((snd res)[8 := ucast (fst res)])) = mpi_val a * uint (b ! 0)"
    using v by (simp add: f)
qed

text \<open>One further pass: t[i..i+8] += a * b[i].\<close>
lemma mul_outer_pass:
  assumes la: "length a = 8" and lt: "length t = 16" and i: "1 \<le> i" "i < 8"
  shows "length (mul_outer_step a b i t) = 16"
    and "mpi_val (take (9 + i) (mul_outer_step a b i t))
           = mpi_val (take (8 + i) t) + 2 ^ (32 * i) * (mpi_val a * uint (b ! i))"
proof -
  let ?x = "\<lambda>j. uint (a ! j) * uint (b ! i) + uint (t ! (i + j))"
  have step: "\<exists>v. mul_inner_step a b i j (s, r') = (drop_bit 32 v, r'[i + j := ucast v]) \<and> uint v = uint s + ?x j"
    if sb: "uint s < 2 ^ 32" and j: "j < 8" and lr': "length r' = length t"
      and dr: "drop (i + j) r' = drop (i + j) t" for j s r'
  proof -
    have "r' ! (i + j) = drop (i + j) r' ! 0" using lr' lt i j by simp
    also have "\<dots> = t ! (i + j)" unfolding dr using lt i j by simp
    finally have rt: "r' ! (i + j) = t ! (i + j)" .
    let ?p = "ucast (a ! j) * ucast (b ! i) :: DWord"
    define X where "X = uint (a ! j) * uint (b ! i)"
    define T where "T = uint (t ! (i + j))"
    define S where "S = uint s"
    have bnd: "0 \<le> S" "S \<le> 4294967295" "0 \<le> T" "T \<le> 4294967295" "X \<le> 18446744065119617025" "0 \<le> X"
      using sb uint_w_bounds [of "t ! (i + j)"] prod_w_le [of "a ! j" "b ! i"]
      by (simp_all add: X_def T_def S_def)
    have "S + X < 2 ^ 64" using bnd by simp
    then have 1: "uint (s + ?p) = S + X"
      unfolding S_def X_def uint_ucast_prod [symmetric] by (rule uint_add_dw)
    have "(S + X) + T < 2 ^ 64" using bnd by simp
    then have "uint (s + ?p) + uint (ucast (t ! (i + j)) :: DWord) < 2 ^ 64"
      by (simp only: 1 uint_ucast_up T_def)
    then have "uint (s + ?p + ucast (t ! (i + j))) = uint (s + ?p) + uint (ucast (t ! (i + j)) :: DWord)"
      by (rule uint_add_dw)
    then have "uint (s + ?p + ucast (t ! (i + j))) = uint s + ?x j"
      by (simp only: 1 uint_ucast_up S_def X_def T_def add.assoc)
    then show ?thesis
      by (intro exI [of _ "s + ?p + ucast (t ! (i + j))"]) (simp add: mul_inner_step_def Let_def WSIZE_eq rt)
  qed
  obtain s r1 where f: "fold (mul_inner_step a b i) [0..<8] (0, t) = (s, r1)"
    by (cases "fold (mul_inner_step a b i) [0..<8] (0, t)")
  have "case fold (mul_inner_step a b i) [0..<8] (0, t) of (s, r') \<Rightarrow>
           length r' = length t \<and> take (i + 0) r' = take (i + 0) t \<and>
           drop (i + 8) r' = drop (i + 8) t \<and> uint s < 2 ^ 32 \<and>
           mpi_val (take (8 - 0) (drop (i + 0) r')) + 2 ^ (32 * (8 - 0)) * uint s
             = uint (0 :: DWord) + (\<Sum>j = 0..<8. 2 ^ (32 * (j - 0)) * ?x j)"
    by (rule uchain) (use step lt i in simp_all)
  moreover have "(\<Sum>j = 0..<8. 2 ^ (32 * (j - 0)) * ?x j)
        = (\<Sum>j = 0..<8. 2 ^ (32 * (j - 0)) * uint (a ! j)) * uint (b ! i)
          + (\<Sum>j = 0..<8. 2 ^ (32 * (j - 0)) * uint (t ! (i + j)))"
    by (simp only: sum_distrib_right sum.distrib [symmetric] distrib_left mult.assoc)
  ultimately have l1: "length r1 = 16" and sb: "uint s < 2 ^ 32" and tk: "take i r1 = take i t"
    and v: "mpi_val (take 8 (drop i r1)) + 2 ^ 256 * uint s
             = mpi_val a * uint (b ! i) + mpi_val (take 8 (drop i t))"
    using sum_mpi_val [of 8 a 0] sum_shift_mpi_val [of i 8 t] la lt i f by simp_all
  have m: "mul_outer_step a b i t = r1[i + 8 := ucast s]"
    using f by (simp add: mul_outer_step_def LEN_eq)
  show "length (mul_outer_step a b i t) = 16" by (simp add: m l1)
  let ?r = "r1[i + 8 := ucast s]"
  have us: "uint (ucast s :: Word) = uint s" using sb by (simp add: uint_ucast_down)
  have d9: "take 9 (drop i ?r) = take 8 (drop i r1) @ [ucast s]"
  proof -
    have "drop i ?r = (drop i r1)[8 := ucast s]" by (simp add: drop_update_swap)
    moreover have "take (Suc 8) ((drop i r1)[8 := ucast s])
        = take 8 ((drop i r1)[8 := ucast s]) @ [((drop i r1)[8 := ucast s]) ! 8]"
      using l1 i by (intro take_Suc_conv_app_nth) simp
    ultimately show ?thesis using l1 i by simp
  qed
  have "take (9 + i) ?r = take i ?r @ take 9 (drop i ?r)"
    by (simp add: take_add add.commute)
  also have "\<dots> = take i t @ (take 8 (drop i r1) @ [ucast s])" using tk by (simp add: d9)
  finally have e: "take (9 + i) ?r = take i t @ (take 8 (drop i r1) @ [ucast s])" .
  have l8: "length (take 8 (drop i r1)) = 8" "length (take i t) = i" using lt l1 i by simp_all
  have "mpi_val (take (9 + i) ?r)
      = mpi_val (take i t) + 2 ^ (32 * i) * (mpi_val (take 8 (drop i r1)) + 2 ^ 256 * uint s)"
    unfolding e mpi_val_append l8 by (simp add: us)
  moreover have "take (8 + i) t = take i t @ take 8 (drop i t)"
    by (simp add: take_add add.commute)
  then have "mpi_val (take (8 + i) t) = mpi_val (take i t) + 2 ^ (32 * i) * mpi_val (take 8 (drop i t))"
    using l8 by (simp add: mpi_val_append)
  ultimately show "mpi_val (take (9 + i) (mul_outer_step a b i t))
           = mpi_val (take (8 + i) t) + 2 ^ (32 * i) * (mpi_val a * uint (b ! i))"
    unfolding m v by (simp add: algebra_simps)
qed

text \<open>The 16-word product.\<close>
lemma mul_product:
  assumes la: "length a = 8" and lb: "length b = 8" and lt: "length t0 = 16"
  defines "res \<equiv> fold (mul_first_step a b) [0..<8] (0, t0)"
  defines "t \<equiv> fold (mul_outer_step a b) [1..<8] ((snd res)[8 := ucast (fst res)])"
  shows "length t = 16" and "mpi_val t = mpi_val a * mpi_val b"
proof -
  define P :: "nat \<Rightarrow> Word list \<Rightarrow> bool" where
    "P i t = (length t = 16 \<and> mpi_val (take (8 + i) t) = mpi_val a * mpi_val (take i b))" for i t
  have "P 8 t" unfolding t_def
  proof (rule fold_upt_from_inv)
    show "(1 :: nat) \<le> 8" by simp
    have "mpi_val (take 1 b) = uint (b ! 0)" using lb by (cases b) simp_all
    then show "P 1 ((snd res)[8 := ucast (fst res)])"
      using mul_first_pass [OF la lt, of b] by (simp add: P_def res_def)
  next
    fix i t' assume i: "1 \<le> i" "i < 8" and Pi: "P i t'"
    then have lt': "length t' = 16" and v: "mpi_val (take (8 + i) t') = mpi_val a * mpi_val (take i b)"
      by (simp_all add: P_def)
    have "mpi_val (take (Suc i) b) = mpi_val (take i b) + 2 ^ (32 * i) * uint (b ! i)"
      using i lb by (intro mpi_val_take_Suc) simp
    then show "P (Suc i) (mul_outer_step a b i t')"
      using mul_outer_pass [OF la lt' i, of b] v by (simp add: P_def algebra_simps)
  qed
  then have l: "length t = 16" and v: "mpi_val (take 16 t) = mpi_val a * mpi_val (take 8 b)"
    by (auto simp: P_def)
  show "length t = 16" by (rule l)
  show "mpi_val t = mpi_val a * mpi_val b" using v l lb by simp
qed

lemma nth_of_drop_eq:
  assumes "drop j r' = drop j t" and "length r' = length t" and "j + k < length t"
  shows "r' ! (j + k) = t ! (j + k)"
proof -
  have "drop j r' ! k = r' ! (j + k)" by (rule nth_drop) (use assms in simp)
  moreover have "drop j t ! k = t ! (j + k)" by (rule nth_drop) (use assms in simp)
  ultimately show ?thesis by (simp only: assms(1))
qed

text \<open>First reduction step: the upper half times 2c is added to the lower half.\<close>
lemma red_first_pass:
  assumes lt: "length t = 16"
  defines "res \<equiv> fold red_first_step [0..<7] (0, t)"
  defines "prodF \<equiv> fst res + (ucast (snd res ! 15) * push_bit 1 CONSTC + ucast (snd res ! 7)) :: DWord"
  shows "length (snd res) = 16"
    and "mpi_val (take 7 (snd res)) + 2 ^ 224 * uint prodF = 38 * mpi_val (drop 8 t) + mpi_val (take 8 t)"
proof -
  let ?x = "\<lambda>j. 38 * uint (t ! (8 + j)) + uint (t ! j)"
  have addend: "uint (ucast x * push_bit 1 CONSTC + ucast y :: DWord) = 38 * uint x + uint y"
    for x y :: Word
  proof -
    have "uint (ucast x * 38 :: DWord) = uint (ucast x :: DWord) * uint (38 :: DWord)"
      using uint_w_bounds [of x] by (intro uint_mult_dw) (simp add: uint_ucast_up)
    then have 1: "uint (ucast x * 38 :: DWord) = 38 * uint x" by (simp add: uint_ucast_up)
    have "uint (ucast x * 38 + ucast y :: DWord) = uint (ucast x * 38 :: DWord) + uint (ucast y :: DWord)"
      using uint_w_bounds [of x] uint_w_bounds [of y] by (intro uint_add_dw) (simp add: 1 uint_ucast_up)
    then show ?thesis by (simp add: 1 uint_ucast_up)
  qed
  have addend_le: "38 * uint x + uint y \<le> 18446744069414584320" for x y :: Word
    using uint_w_bounds [of x] uint_w_bounds [of y] by linarith
  have step: "\<exists>v. red_first_step j (s, r') = (drop_bit 32 v, r'[0 + j := ucast v]) \<and> uint v = uint s + ?x j"
    if sb: "uint s < 2 ^ 32" and j: "j < 7" and lr': "length r' = length t"
      and dr: "drop (0 + j) r' = drop (0 + j) t" for j s r'
  proof -
    have r8: "r' ! (j + 8) = t ! (j + 8)" and r0: "r' ! j = t ! j"
      using nth_of_drop_eq [of j r' t 8] nth_of_drop_eq [of j r' t 0] dr lr' lt j by simp_all
    let ?t = "ucast (t ! (j + 8)) * push_bit 1 CONSTC + ucast (t ! j) :: DWord"
    have "uint (s + ?t) = uint s + (38 * uint (t ! (j + 8)) + uint (t ! j))"
      by (intro uint_add_small sb addend addend_le)
    then show ?thesis
      by (intro exI [of _ "s + ?t"]) (simp add: red_first_step_def Let_def WSIZE_eq LEN_eq r8 r0 add.commute)
  qed
  obtain s r1 where f: "res = (s, r1)" by (cases res)
  have "case fold red_first_step [0..<7] (0, t) of (s, r') \<Rightarrow>
           length r' = length t \<and> take (0 + 0) r' = take (0 + 0) t \<and>
           drop (0 + 7) r' = drop (0 + 7) t \<and> uint s < 2 ^ 32 \<and>
           mpi_val (take (7 - 0) (drop (0 + 0) r')) + 2 ^ (32 * (7 - 0)) * uint s
             = uint (0 :: DWord) + (\<Sum>j = 0..<7. 2 ^ (32 * (j - 0)) * ?x j)"
    by (rule uchain) (use step lt in simp_all)
  moreover have "(\<Sum>j = 0..<7. 2 ^ (32 * (j - 0)) * ?x j)
        = 38 * (\<Sum>j = 0..<7. 2 ^ (32 * (j - 0)) * uint (t ! (8 + j)))
          + (\<Sum>j = 0..<7. 2 ^ (32 * (j - 0)) * uint (t ! j))"
    by (simp add: sum_distrib_left sum.distrib algebra_simps)
  ultimately have l1: "length r1 = 16" and sb: "uint s < 2 ^ 32" and dr: "drop 7 r1 = drop 7 t"
    and v: "mpi_val (take 7 r1) + 2 ^ 224 * uint s
             = 38 * mpi_val (take 7 (drop 8 t)) + mpi_val (take 7 t)"
    using sum_mpi_val [of 7 t 0] sum_shift_mpi_val [of 8 7 t] lt f by (simp_all add: res_def)
  show "length (snd res) = 16" by (simp add: f l1)
  have r15: "r1 ! 15 = t ! 15" and r7: "r1 ! 7 = t ! 7"
    using nth_of_drop_eq [of 7 r1 t 8] nth_of_drop_eq [of 7 r1 t 0] dr l1 lt by simp_all
  have pf: "uint prodF = uint s + (38 * uint (t ! 15) + uint (t ! 7))"
    unfolding prodF_def f fst_conv snd_conv r15 r7 by (intro uint_add_small sb addend addend_le)
  have hi: "mpi_val (drop 8 t) = mpi_val (take 7 (drop 8 t)) + 2 ^ 224 * uint (t ! 15)"
    using mpi_val_8 [of "drop 8 t"] lt by simp
  have lo: "mpi_val (take 8 t) = mpi_val (take 7 t) + 2 ^ 224 * uint (t ! 7)"
    using mpi_val_take_Suc [of 7 t] lt by simp
  show "mpi_val (take 7 (snd res)) + 2 ^ 224 * uint prodF = 38 * mpi_val (drop 8 t) + mpi_val (take 8 t)"
    unfolding hi lo pf using v by (simp add: f)
qed

text \<open>Second reduction step: the bits above 2^255 times c are added to the low words.\<close>
lemma red_second_pass:
  assumes lt: "length t = 16" and lr: "length r = 8" and pb: "uint prodF < 167503724544"
  defines "msw \<equiv> (ucast prodF :: Word) AND MSB0MASK"
  defines "res \<equiv> fold (red_second_step t) [0..<7] (CONSTC * drop_bit 31 prodF, r)"
  defines "r' \<equiv> (snd res)[7 := msw + ucast (fst res)]"
  shows "length r' = 8"
    and "mpi_val r' = mpi_val (take 7 t) + 2 ^ 224 * uint prodF - (uint prodF div 2 ^ 31) * P25519"
    and "mpi_val r' \<le> 2 * P25519 - 1"
proof -
  define hi where "hi = uint prodF div 2 ^ 31"
  have hib: "0 \<le> hi" "hi \<le> 77"
  proof -
    show "0 \<le> hi" by (simp add: hi_def pos_imp_zdiv_nonneg_iff)
    have "uint prodF div 2 ^ 31 \<le> 167503724543 div 2 ^ 31" using pb by (intro zdiv_mono1) simp_all
    then show "hi \<le> 77" by (simp add: hi_def)
  qed
  have s0: "uint (CONSTC * drop_bit 31 prodF :: DWord) = 19 * hi"
    using hib by (subst uint_mult_dw) (simp_all add: uint_drop_bit_word hi_def)
  have msw: "uint msw = uint prodF mod 2 ^ 31" by (simp only: msw_def uint_and_msb0)
  let ?x = "\<lambda>j. uint (t ! j)"
  have step: "\<exists>v. red_second_step t j (s, r') = (drop_bit 32 v, r'[0 + j := ucast v]) \<and> uint v = uint s + ?x j"
    if sb: "uint s < 2 ^ 32" for j s r'
  proof -
    have "uint (t ! j) \<le> 18446744069414584320" using uint_w_bounds [of "t ! j"] by linarith
    then have "uint (s + ucast (t ! j)) = uint s + uint (t ! j)"
      by (intro uint_add_small sb uint_ucast_up)
    then show ?thesis
      by (intro exI [of _ "s + ucast (t ! j)"]) (simp add: red_second_step_def Let_def WSIZE_eq)
  qed
  obtain s r1 where f: "res = (s, r1)" by (cases res)
  have "case fold (red_second_step t) [0..<7] (CONSTC * drop_bit 31 prodF, r) of (s, r') \<Rightarrow>
           length r' = length r \<and> take (0 + 0) r' = take (0 + 0) r \<and>
           drop (0 + 7) r' = drop (0 + 7) r \<and> uint s < 2 ^ 32 \<and>
           mpi_val (take (7 - 0) (drop (0 + 0) r')) + 2 ^ (32 * (7 - 0)) * uint s
             = uint (CONSTC * drop_bit 31 prodF :: DWord) + (\<Sum>j = 0..<7. 2 ^ (32 * (j - 0)) * ?x j)"
    by (rule uchain) (use step lr s0 hib in simp_all)
  then have l1: "length r1 = 8"
    and v: "mpi_val (take 7 r1) + 2 ^ 224 * uint s = 19 * hi + mpi_val (take 7 t)"
    using sum_mpi_val [of 7 t 0] lt lr f s0 by (simp_all add: res_def)
  define tlo where "tlo = mpi_val (take 7 t)"
  have tb: "0 \<le> tlo" "tlo < 2 ^ 224"
    using mpi_val_take_lt [of 7 t] lt by (simp_all add: tlo_def mpi_val_ge0)
  have r1lo: "0 \<le> mpi_val (take 7 r1)" "mpi_val (take 7 r1) < 2 ^ 224"
    using mpi_val_take_lt [of 7 r1] l1 by (simp_all add: mpi_val_ge0)
  have s1: "uint s \<le> 1"
  proof (rule ccontr)
    assume "\<not> uint s \<le> 1"
    then have "2 \<le> uint s" by simp
    then have "2 ^ 224 * 2 \<le> (2 ^ 224 :: int) * uint s" by (intro mult_left_mono) simp_all
    then show False using v tb hib r1lo unfolding tlo_def by simp
  qed
  define ml where "ml = uint prodF mod 2 ^ 31"
  have m31: "0 \<le> ml" "ml < 2 ^ 31" by (simp_all add: ml_def)
  have sp: "ml + 2 ^ 31 * hi = uint prodF" by (simp add: ml_def hi_def)
  have fin: "uint (msw + ucast s) = ml + uint s"
    using s1 m31 msw by (subst uint_add_w) (simp_all add: uint_ucast_down ml_def)
  have r': "r' = r1[7 := msw + ucast s]" by (simp add: r'_def f)
  show "length r' = 8" by (simp add: r' l1)
  have val: "mpi_val r' = mpi_val (take 7 r1) + 2 ^ 224 * (ml + uint s)"
    by (simp add: r' mpi_val_upd7 [OF l1] fin)
  show "mpi_val r' = mpi_val (take 7 t) + 2 ^ 224 * uint prodF - (uint prodF div 2 ^ 31) * P25519"
    unfolding hi_def [symmetric] using val v sp unfolding P25519_eq by simp
  show "mpi_val r' \<le> 2 * P25519 - 1"
    using val v m31 tb hib unfolding tlo_def [symmetric] P25519_eq by simp
qed

lemma gfp_mul_val:
  assumes la: "length a = 8" and lb: "length b = 8" and lr: "length r = 8"
  shows "length (gfp_mul r a b) = 8"
    and "mpi_val (gfp_mul r a b) mod P25519 = (mpi_val a * mpi_val b) mod P25519"
    and "mpi_val (gfp_mul r a b) \<le> 2 * P25519 - 1"
proof -
  define t0 :: "Word list" where "t0 = replicate 16 0"
  define res1 where "res1 = fold (mul_first_step a b) [0..<8] (0, t0)"
  define t where "t = fold (mul_outer_step a b) [1..<8] ((snd res1)[8 := ucast (fst res1)])"
  define res2 where "res2 = fold red_first_step [0..<7] (0, t)"
  define prodF :: DWord where
    "prodF = fst res2 + (ucast (snd res2 ! 15) * push_bit 1 CONSTC + ucast (snd res2 ! 7))"
  define msw where "msw = (ucast prodF :: Word) AND MSB0MASK"
  define res3 where "res3 = fold (red_second_step (snd res2)) [0..<7] (CONSTC * drop_bit 31 prodF, r)"
  have g: "gfp_mul r a b = (snd res3)[7 := msw + ucast (fst res3)]"
    unfolding res3_def msw_def prodF_def res2_def t_def res1_def t0_def
    by (simp add: gfp_mul_def Let_def LEN_eq WSIZE_eq split_beta)
  have lt0: "length t0 = 16" by (simp add: t0_def)
  have lt: "length t = 16" and tv: "mpi_val t = mpi_val a * mpi_val b"
    using mul_product [OF la lb lt0] by (simp_all add: t_def res1_def)
  have l2: "length (snd res2) = 16"
    and v2: "mpi_val (take 7 (snd res2)) + 2 ^ 224 * uint prodF = 38 * mpi_val (drop 8 t) + mpi_val (take 8 t)"
    using red_first_pass [OF lt] by (simp_all add: res2_def prodF_def)
  define H L where "H = mpi_val (drop 8 t)" and "L = mpi_val (take 8 t)"
  have HL: "0 \<le> H" "H < 2 ^ 256" "0 \<le> L" "L < 2 ^ 256"
    using mpi_val_lt [of "drop 8 t"] mpi_val_take_lt [of 8 t] lt by (simp_all add: H_def L_def mpi_val_ge0)
  have tHL: "mpi_val t = L + 2 ^ 256 * H" using mpi_val_take_drop [of t 8] lt by (simp add: H_def L_def)
  have pb: "uint prodF < 167503724544"
  proof (rule ccontr)
    assume "\<not> uint prodF < 167503724544"
    then have "167503724544 \<le> uint prodF" by simp
    then have "2 ^ 224 * 167503724544 \<le> (2 ^ 224 :: int) * uint prodF" by (intro mult_left_mono) simp_all
    then show False using v2 HL mpi_val_ge0 [of "take 7 (snd res2)"] unfolding H_def L_def by simp
  qed
  have 3: "length ((snd res3)[7 := msw + ucast (fst res3)]) = 8"
    "mpi_val ((snd res3)[7 := msw + ucast (fst res3)])
       = mpi_val (take 7 (snd res2)) + 2 ^ 224 * uint prodF - (uint prodF div 2 ^ 31) * P25519"
    "mpi_val ((snd res3)[7 := msw + ucast (fst res3)]) \<le> 2 * P25519 - 1"
    using red_second_pass [OF l2 lr pb] by (simp_all add: res3_def msw_def)
  show "length (gfp_mul r a b) = 8" unfolding g by (rule 3)
  show "mpi_val (gfp_mul r a b) \<le> 2 * P25519 - 1" unfolding g by (rule 3)
  have "mpi_val (gfp_mul r a b) = 38 * H + L - (uint prodF div 2 ^ 31) * P25519"
    unfolding g 3(2) using v2 by (simp add: H_def L_def)
  also have "\<dots> = mpi_val a * mpi_val b - (2 * H + uint prodF div 2 ^ 31) * P25519"
    unfolding tv [symmetric] tHL by (simp add: P25519_eq algebra_simps)
  finally show "mpi_val (gfp_mul r a b) mod P25519 = (mpi_val a * mpi_val b) mod P25519"
    by (simp only: mod_P_shift')
qed

section \<open>Inversion\<close>

lemma fold_upd_length: "length (fold (\<lambda>i r. r[i := g i]) js r) = length r"
  by (induction js arbitrary: r) simp_all

lemma fold_upd_nth:
  "k < length r \<Longrightarrow> fold (\<lambda>i r. r[i := g i]) js r ! k = (if k \<in> set js then g k else r ! k)"
proof (induction js arbitrary: r)
  case Nil then show ?case by simp
next
  case (Cons j js)
  have "fold (\<lambda>i r. r[i := g i]) (j # js) r ! k = fold (\<lambda>i r. r[i := g i]) js (r[j := g j]) ! k"
    by simp
  also have "\<dots> = (if k \<in> set js then g k else (r[j := g j]) ! k)"
    using Cons.prems by (intro Cons.IH) simp
  finally show ?case using Cons.prems by (auto simp: nth_list_update)
qed

lemma mpi_copy_full: "length r = 8 \<Longrightarrow> length a = 8 \<Longrightarrow> mpi_copy r a LEN = a"
proof (rule nth_equalityI)
  assume l: "length r = 8" "length a = 8"
  show "length (mpi_copy r a LEN) = length a" using l by (simp add: mpi_copy_def fold_upd_length)
  fix k assume "k < length (mpi_copy r a LEN)"
  then have k: "k < 8" using l by (simp add: mpi_copy_def fold_upd_length)
  then show "mpi_copy r a LEN ! k = a ! k"
    using l by (simp add: mpi_copy_def fold_upd_nth LEN_eq)
qed

lemma mpi_setw_full: "length r = 8 \<Longrightarrow> mpi_setw r w LEN = [w, 0, 0, 0, 0, 0, 0, 0]"
proof (rule nth_equalityI)
  assume l: "length r = 8"
  show "length (mpi_setw r w LEN) = length [w, 0, 0, 0, 0, 0, 0, 0]"
    using l by (simp add: mpi_setw_def fold_upd_length)
  fix k assume "k < length (mpi_setw r w LEN)"
  then have k: "k < 8" using l by (simp add: mpi_setw_def fold_upd_length)
  have "mpi_setw r w LEN ! k = (if k = 0 then w else 0)"
    using l k by (simp add: mpi_setw_def fold_upd_nth fold_upd_length LEN_eq nth_list_update)
  moreover have "[w, 0, 0, 0, 0, 0, 0, 0] ! k = (if k = 0 then w else 0)"
    using k by (cases k) (auto simp: nth_Cons' )
  ultimately show "mpi_setw r w LEN ! k = [w, 0, 0, 0, 0, 0, 0, 0] ! k" by simp
qed

lemma fold_or_zero:
  "fold (\<lambda>i (acc :: Word). acc OR g i) js acc0 = 0 \<longleftrightarrow> acc0 = 0 \<and> (\<forall>i \<in> set js. g i = 0)"
  by (induction js arbitrary: acc0) (auto simp: or_eq_0_iff)

lemma mpi_val_zero_all: "mpi_val xs = 0 \<longleftrightarrow> (\<forall>x \<in> set xs. x = 0)"
proof (induction xs)
  case Nil then show ?case by simp
next
  case (Cons x xs)
  have "uint x + 2 ^ 32 * mpi_val xs = 0 \<longleftrightarrow> uint x = 0 \<and> mpi_val xs = 0"
    using mpi_val_ge0 [of xs] uint_ge_0 [of x] by (auto simp: add_nonneg_eq_0_iff)
  then show ?case using Cons by (simp add: word_uint_eq_iff)
qed

text \<open>mpi_cmpw returns 0 exactly when the len-word number equals the word.\<close>
lemma mpi_cmpw_zero_iff:
  assumes len: "1 \<le> len" "len \<le> length a"
  shows "mpi_cmpw a b len = 0 \<longleftrightarrow> mpi_val (take len a) = uint b"
proof -
  define is0 where "is0 = fold (\<lambda>i is0. is0 OR a ! i) (rev [1..<len]) (0 :: Word)"
  define M where "M = mpi_val (take (len - 1) (drop 1 a))"
  have z: "is0 = 0 \<longleftrightarrow> (\<forall>i \<in> {1..<len}. a ! i = 0)" by (simp add: is0_def fold_or_zero)
  have "set (take (len - 1) (drop 1 a)) = (\<lambda>i. a ! i) ` {1..<len}"
  proof -
    have "take (len - 1) (drop 1 a) = map (\<lambda>i. a ! i) [1..<len]"
    proof (rule nth_equalityI)
      show "length (take (len - 1) (drop 1 a)) = length (map (\<lambda>i. a ! i) [1..<len])"
        using len by simp
      fix i assume "i < length (take (len - 1) (drop 1 a))"
      then have i: "i < len - 1" by simp
      then have "1 + i < len" by simp
      then have "[1..<len] ! i = 1 + i" by (rule nth_upt)
      moreover have "take (len - 1) (drop 1 a) ! i = a ! (1 + i)" using i len by simp
      ultimately show "take (len - 1) (drop 1 a) ! i = map (\<lambda>i. a ! i) [1..<len] ! i"
        using i by simp
    qed
    then show ?thesis by simp
  qed
  then have zM: "is0 = 0 \<longleftrightarrow> M = 0" by (auto simp: z M_def mpi_val_zero_all)
  have "take len a = a ! 0 # take (len - 1) (drop 1 a)"
    using len by (cases a; cases len) (simp_all add: drop_Suc)
  then have v: "mpi_val (take len a) = uint (a ! 0) + 2 ^ 32 * M" by (simp add: M_def)
  have Mb: "0 \<le> M" by (simp add: M_def mpi_val_ge0)
  have c: "mpi_cmpw a b len = (of_bool (b > a ! 0) OR of_bool (is0 \<noteq> 0)) - (of_bool (b < a ! 0) AND of_bool (is0 = 0))"
    by (simp add: mpi_cmpw_def Let_def is0_def)
  show ?thesis
  proof (cases "is0 = 0")
    case True
    then have "M = 0" using zM by simp
    moreover have "mpi_cmpw a b len = 0 \<longleftrightarrow> a ! 0 = b" using True unfolding c by auto
    ultimately show ?thesis by (simp add: v word_uint_eq_iff)
  next
    case False
    then have "1 \<le> M" using zM Mb by linarith
    then have "uint (a ! 0) + 4294967296 * M \<noteq> uint b"
      using uint_w_bounds [of "a ! 0"] uint_w_bounds [of b] by linarith
    moreover have "mpi_cmpw a b len \<noteq> 0" using False unfolding c by (cases "a ! 0 < b") simp_all
    ultimately show ?thesis by (simp add: v)
  qed
qed

text \<open>mpi_shr in place: the low len words are halved, the other words stay.\<close>
lemma mpi_shr_spec:
  assumes len: "1 \<le> len" "len \<le> length a"
  defines "r' \<equiv> snd (mpi_shr a a len)"
  shows "length r' = length a" and "drop len r' = drop len a"
    and "mpi_val (take len r') = mpi_val (take len a) div 2"
proof -
  define g where "g i = push_bit 31 (a ! (i + 1)) OR drop_bit 1 (a ! i)" for i
  define r1 where "r1 = fold (\<lambda>i r. r[i := g i]) [0..<len - 1] a"
  have r': "r' = r1[len - 1 := drop_bit 1 (a ! (len - 1))]"
    by (simp add: r'_def mpi_shr_def Let_def r1_def g_def WSIZE_eq)
  have l1: "length r1 = length a" by (simp add: r1_def fold_upd_length)
  show l: "length r' = length a" by (simp add: r' l1)
  have nth: "r' ! k = (if k < len - 1 then g k else if k = len - 1 then drop_bit 1 (a ! k) else a ! k)"
    if "k < length a" for k
    using that l1 by (simp add: r' r1_def fold_upd_nth nth_list_update)
  show "drop len r' = drop len a"
  proof (rule nth_equalityI)
    show "length (drop len r') = length (drop len a)" by (simp add: l)
    fix i assume "i < length (drop len r')"
    then have i: "len + i < length a" by (simp add: l)
    have "\<not> len + i < len - 1" "len + i \<noteq> len - 1" using len by arith+
    then have "r' ! (len + i) = a ! (len + i)" using nth [OF i] by simp
    then show "drop len r' ! i = drop len a ! i" using i l by simp
  qed
  define h where "h n = (\<Sum>k = 0..<n. 2 ^ (32 * (k - 0)) * uint (g k))" for n
  define A where "A n = (\<Sum>k = 0..<n. 2 ^ (32 * (k - 0)) * uint (a ! k))" for n
  have ug: "uint (g k) = (uint (a ! (k + 1)) mod 2) * 2 ^ 31 + uint (a ! k) div 2" for k
    unfolding g_def by (rule uint_shift_or)
  have hn: "2 * h n + uint (a ! 0) mod 2 = A n + 2 ^ (32 * n) * (uint (a ! n) mod 2)" for n
  proof (induction n)
    case 0 then show ?case by (simp add: h_def A_def)
  next
    case (Suc n)
    define m d m' where "m = uint (a ! n) mod 2" and "d = uint (a ! n) div 2" and "m' = uint (a ! Suc n) mod 2"
    have md: "uint (a ! n) = m + 2 * d" by (simp add: m_def d_def)
    have "h (Suc n) = h n + 2 ^ (32 * n) * (m' * 2 ^ 31 + d)"
      by (simp add: h_def ug m'_def d_def)
    moreover have "A (Suc n) = A n + 2 ^ (32 * n) * (m + 2 * d)" by (simp add: A_def md)
    moreover have "(2 :: int) ^ (32 * Suc n) = 2 ^ (32 * n) * 2 ^ 32" by (simp add: power_add)
    ultimately show ?case using Suc unfolding m_def [symmetric] m'_def [symmetric]
      by (simp add: algebra_simps)
  qed
  have "mpi_val (take len r') = (\<Sum>k = 0..<len. 2 ^ (32 * (k - 0)) * uint (r' ! k))"
    using sum_mpi_val [of len r' 0] l len by simp
  also have "\<dots> = (\<Sum>k = 0..<len - 1. 2 ^ (32 * (k - 0)) * uint (r' ! k))
        + 2 ^ (32 * (len - 1)) * uint (r' ! (len - 1))"
    using len by (cases len) simp_all
  also have "(\<Sum>k = 0..<len - 1. 2 ^ (32 * (k - 0)) * uint (r' ! k)) = h (len - 1)"
    unfolding h_def using len by (intro sum.cong) (simp_all add: nth)
  also have "uint (r' ! (len - 1)) = uint (a ! (len - 1)) div 2"
    using len by (simp add: nth uint_drop_bit_word)
  finally have R: "mpi_val (take len r') = h (len - 1) + 2 ^ (32 * (len - 1)) * (uint (a ! (len - 1)) div 2)" .
  define m d where "m = uint (a ! (len - 1)) mod 2" and "d = uint (a ! (len - 1)) div 2"
  have md: "uint (a ! (len - 1)) = m + 2 * d" by (simp add: m_def d_def)
  have "mpi_val (take len a) = A len" using sum_mpi_val [of len a 0] len by (simp add: A_def)
  also have "\<dots> = A (len - 1) + 2 ^ (32 * (len - 1)) * (m + 2 * d)"
    using len md by (cases len) (simp_all add: A_def)
  finally have "mpi_val (take len a) = 2 * mpi_val (take len r') + uint (a ! 0) mod 2"
    using hn [of "len - 1"] unfolding R m_def [symmetric] d_def [symmetric] by (simp add: algebra_simps)
  then show "mpi_val (take len r') = mpi_val (take len a) div 2" by simp
qed

lemma mpi_shr_length: "length (snd (mpi_shr r a len)) = length r"
  by (simp add: mpi_shr_def Let_def fold_upd_length)

lemma inv_halve_partial:
  assumes "inv_halve n0 u x0 = Some y" and "length u = 8" and "length x0 = 8" and "1 \<le> n0"
  shows "\<exists>u' x'. y = Inr (u', x') \<and> length u' = 8 \<and> length x' = 8 \<and> u' ! 0 AND 1 \<noteq> 0"
proof -
  define Q where "Q (n :: nat) (v :: Word list) (z :: Word list) w \<longleftrightarrow>
      (length v = 8 \<longrightarrow> length z = 8 \<longrightarrow> 1 \<le> n \<longrightarrow>
        (\<exists>u' x'. w = Inr (u', x') \<and> length u' = 8 \<and> length x' = 8 \<and> u' ! 0 AND 1 \<noteq> 0))"
    for n v z and w :: "fault + Word list \<times> Word list"
  have "(case ((n0, u), x0) of (p, xa) \<Rightarrow> (case p of (n, v) \<Rightarrow> Q n v) xa) y"
  proof (rule inv_halve.raw_induct [where P = Q])
    show "(case ((n0, u), x0) of (x, xa) \<Rightarrow> (case x of (x, xa) \<Rightarrow> inv_halve x xa) xa) = Some y"
      using assms(1) by simp
  next
    fix f :: "nat \<Rightarrow> Word list \<Rightarrow> Word list \<Rightarrow> (fault + Word list \<times> Word list) option"
    fix n v z w
    assume IH: "\<And>n v z w. f n v z = Some w \<Longrightarrow> Q n v z w"
      and b: "(if v ! 0 AND 1 = 0
          then if n = 0 then Some (Inl IndexOutOfRange)
               else f n (snd (mpi_shr v v n)) (gfp_hlv z z)
          else Some (Inr (v, z))) = Some w"
    show "Q n v z w" unfolding Q_def
    proof (intro impI)
      assume l: "length v = 8" "length z = 8" and n: "1 \<le> n"
      show "\<exists>u' x'. w = Inr (u', x') \<and> length u' = 8 \<and> length x' = 8 \<and> u' ! 0 AND 1 \<noteq> 0"
      proof (cases "v ! 0 AND 1 = 0")
        case False then show ?thesis using b l by auto
      next
        case True
        then have "f n (snd (mpi_shr v v n)) (gfp_hlv z z) = Some w" using b n by simp
        then have "Q n (snd (mpi_shr v v n)) (gfp_hlv z z) w" by (rule IH)
        then show ?thesis
          using l n gfp_hlv_val(1) [of z z] by (simp add: Q_def mpi_shr_length)
      qed
    qed
  qed
  then show ?thesis using assms(2-4) by (simp add: Q_def)
qed

lemma mpi_sub_length: "length (snd (mpi_sub r a b len)) = length r"
proof -
  have "length (snd (fold (mpi_sub_step a b) js st)) = length (snd st)" for js st
    by (induction js arbitrary: st) (simp_all add: mpi_sub_step_def Let_def split_beta)
  then show ?thesis by (simp add: mpi_sub_def split_beta)
qed

text \<open>The subtraction step keeps the lengths, and uvlen at least 1 when both numbers are odd.\<close>
lemma inv_sub_lengths:
  assumes l: "length (ux s) = 8" "length (vx s) = 8" "length (x1 s) = 8" "length (x2 s) = 8"
    and n: "1 \<le> uvlen s" "uvlen s \<le> 8"
    and odd: "ux s ! 0 AND 1 \<noteq> 0" "vx s ! 0 AND 1 \<noteq> 0"
  shows "\<exists>s'. inv_sub s = Inr s' \<and> length (ux s') = 8 \<and> length (vx s') = 8 \<and>
           length (x1 s') = 8 \<and> length (x2 s') = 8 \<and> 1 \<le> uvlen s' \<and> uvlen s' \<le> 8"
proof -
  obtain c where c: "mpi_cmp (ux s) (vx s) (uvlen s) = Inr c"
    using mpi_cmp_spec [of "uvlen s" "ux s" "vx s"] l n by simp
  define s1 where "s1 = (if c \<ge> 0
                  then s\<lparr>ux := snd (mpi_sub (ux s) (ux s) (vx s) (uvlen s)),
                         x1 := gfp_sub (x1 s) (x1 s) (x2 s)\<rparr>
                  else s\<lparr>vx := snd (mpi_sub (vx s) (vx s) (ux s) (uvlen s)),
                         x2 := gfp_sub (x2 s) (x2 s) (x1 s)\<rparr>)"
  have l1: "length (ux s1) = 8" "length (vx s1) = 8" "length (x1 s1) = 8" "length (x2 s1) = 8"
    "uvlen s1 = uvlen s"
    using l gfp_sub_val(1) [of "x1 s" "x2 s" "x1 s"] gfp_sub_val(1) [of "x2 s" "x1 s" "x2 s"]
    by (simp_all add: s1_def mpi_sub_length)
  have keep: "ux s1 ! 0 \<noteq> 0 \<or> vx s1 ! 0 \<noteq> 0"
  proof (cases "c \<ge> 0")
    case True
    then have "vx s1 = vx s" by (simp add: s1_def)
    then show ?thesis using odd by auto
  next
    case False
    then have "ux s1 = ux s" by (simp add: s1_def)
    then show ?thesis using odd by auto
  qed
  have e: "inv_sub s = (if ux s1 ! (uvlen s - 1) = 0 \<and> vx s1 ! (uvlen s - 1) = 0
                 then Inr (s1\<lparr>uvlen := uvlen s - 1\<rparr>) else Inr s1)"
    using n by (simp add: inv_sub_def c Let_def s1_def [symmetric] l1)
  show ?thesis
  proof (cases "ux s1 ! (uvlen s - 1) = 0 \<and> vx s1 ! (uvlen s - 1) = 0")
    case False then show ?thesis using e l1 n by auto
  next
    case True
    then have "uvlen s \<noteq> 1" using keep by auto
    then have "1 \<le> uvlen s - 1" "uvlen s - 1 \<le> 8" using n by arith+
    then show ?thesis using e l1 True by simp
  qed
qed

lemma inv_body_shape:
  assumes "inv_shape s" and "inv_body s = Some y"
  shows "\<exists>s'. y = Inr s' \<and> inv_shape s'"
proof -
  from assms(1) have l: "length (ux s) = 8" "length (vx s) = 8" "length (x1 s) = 8" "length (x2 s) = 8"
    and n: "1 \<le> uvlen s" "uvlen s \<le> 8" by (simp_all add: inv_shape_def)
  obtain y1 where h1: "inv_halve (uvlen s) (ux s) (x1 s) = Some y1"
    using assms(2) by (cases "inv_halve (uvlen s) (ux s) (x1 s)") (simp_all add: inv_body_def)
  from inv_halve_partial [OF h1 l(1) l(3) n(1)] obtain u z1 where
    y1: "y1 = Inr (u, z1)" and u: "length u = 8" "length z1 = 8" "u ! 0 AND 1 \<noteq> 0" by blast
  obtain y2 where h2: "inv_halve (uvlen s) (vx s) (x2 s) = Some y2"
    using assms(2) h1 y1 by (cases "inv_halve (uvlen s) (vx s) (x2 s)") (simp_all add: inv_body_def)
  from inv_halve_partial [OF h2 l(2) l(4) n(1)] obtain v z2 where
    y2: "y2 = Inr (v, z2)" and v: "length v = 8" "length z2 = 8" "v ! 0 AND 1 \<noteq> 0" by blast
  have y: "y = inv_sub (s\<lparr>ux := u, x1 := z1, vx := v, x2 := z2\<rparr>)"
    using assms(2) by (simp add: inv_body_def h1 y1 h2 y2)
  show ?thesis
    unfolding y inv_shape_def
    by (rule inv_sub_lengths) (use u v n in simp_all)
qed

lemma inv_loop_shape:
  assumes "inv_loop s = Some y" and "inv_shape s"
  shows "\<exists>s'. y = Inr s' \<and> inv_shape s'"
proof -
  have "inv_shape s \<longrightarrow> (\<exists>s'. y = Inr s' \<and> inv_shape s')"
  proof (rule inv_loop.raw_induct [where P = "\<lambda>s y. inv_shape s \<longrightarrow> (\<exists>s'. y = Inr s' \<and> inv_shape s')", OF _ assms(1)])
    fix f :: "inv_state \<Rightarrow> (fault + inv_state) option" and s y
    assume IH: "\<And>s y. f s = Some y \<Longrightarrow> inv_shape s \<longrightarrow> (\<exists>s'. y = Inr s' \<and> inv_shape s')"
      and b: "(if inv_cond s
          then case inv_body s of None \<Rightarrow> None | Some (Inl f) \<Rightarrow> Some (Inl f) | Some (Inr s') \<Rightarrow> f s'
          else Some (Inr s)) = Some y"
    show "inv_shape s \<longrightarrow> (\<exists>s'. y = Inr s' \<and> inv_shape s')"
    proof
      assume sh: "inv_shape s"
      show "\<exists>s'. y = Inr s' \<and> inv_shape s'"
      proof (cases "inv_cond s")
        case False then show ?thesis using b sh by auto
      next
        case True
        then obtain y1 where y1: "inv_body s = Some y1"
          using b by (cases "inv_body s") simp_all
        from inv_body_shape [OF sh y1] obtain s1 where s1: "y1 = Inr s1" "inv_shape s1" by blast
        then have "f s1 = Some y" using b True y1 by simp
        then show ?thesis using IH s1 by blast
      qed
    qed
  qed
  then show ?thesis using assms(2) by simp
qed

lemma P25519_pos: "0 < P25519" by (simp add: P25519_def)

text \<open>The first loop of gfp_inv subtracts p until the value is below p.\<close>
lemma inv_reduce_spec:
  assumes lv: "length v = 8" and pv: "mpi_val v = P25519"
  shows "length u = 8 \<Longrightarrow>
    \<exists>u'. inv_reduce u v = Some (Inr u') \<and> length u' = 8 \<and> mpi_val u' = mpi_val u mod P25519"
proof (induction "nat (mpi_val u)" arbitrary: u rule: less_induct)
  case less
  note lu = \<open>length u = 8\<close>
  have c: "mpi_cmp u v LEN = Inr (sgn (mpi_val u - mpi_val v))"
    using mpi_cmp_spec [of LEN u v] lu lv by (simp add: LEN_eq)
  show ?case
  proof (cases "mpi_val u < P25519")
    case True
    then have "inv_reduce u v = Some (Inr u)"
      by (subst inv_reduce.simps) (simp add: c pv sgn_if)
    moreover have "mpi_val u mod P25519 = mpi_val u"
      using True mpi_val_ge0 [of u] by simp
    ultimately show ?thesis using lu by simp
  next
    case False
    define w where "w = snd (mpi_sub u u v LEN)"
    have lw: "length w = 8" using lu by (simp add: w_def mpi_sub_length)
    have b: "fst (mpi_sub u u v LEN) = 0"
      using mpi_sub_spec(3) [of LEN u v u] lu lv False by (simp add: LEN_eq pv)
    have wv: "mpi_val w = mpi_val u - P25519"
      using mpi_sub_spec(4) [of LEN u v u] lu lv lw b by (simp add: LEN_eq pv w_def)
    have "nat (mpi_val w) < nat (mpi_val u)"
      using wv False P25519_pos by simp
    from less(1) [OF this lw] obtain u' where
      u': "inv_reduce w v = Some (Inr u')" "length u' = 8" "mpi_val u' = mpi_val w mod P25519"
      by blast
    have "inv_reduce u v = inv_reduce w v"
      using False by (subst inv_reduce.simps) (simp add: c pv w_def sgn_if)
    moreover have "mpi_val w mod P25519 = mpi_val u mod P25519"
      unfolding wv by simp
    ultimately show ?thesis using u' by simp
  qed
qed

lemma inv_init_spec:
  assumes la: "length a = 8" and lr: "length r = 8"
  shows "\<exists>u. inv_init r a = Some (Inr \<lparr>ux = u, vx = gfp_setp (replicate LEN 0),
            x1 = [1, 0, 0, 0, 0, 0, 0, 0], x2 = [0, 0, 0, 0, 0, 0, 0, 0], uvlen = LEN\<rparr>) \<and>
          length u = 8 \<and> mpi_val u = mpi_val a mod P25519"
proof -
  have c: "mpi_copy (replicate LEN 0) a LEN = a"
    using la by (intro mpi_copy_full) (simp_all add: LEN_eq)
  from inv_reduce_spec [OF length_setp mpi_val_setp la] obtain u where
    u: "inv_reduce a (gfp_setp (replicate LEN 0)) = Some (Inr u)" "length u = 8"
       "mpi_val u = mpi_val a mod P25519" by blast
  have "mpi_setw (replicate LEN 0) 1 LEN = [1, 0, 0, 0, 0, 0, 0, 0]"
    by (rule mpi_setw_full) (simp add: LEN_eq)
  moreover have "mpi_setw r 0 LEN = [0, 0, 0, 0, 0, 0, 0, 0]"
    using lr by (rule mpi_setw_full)
  ultimately show ?thesis using u
    by (simp add: inv_init_def Let_def c)
qed

lemma inv_init_shape:
  assumes la: "length a = 8" and lr: "length r = 8" and i: "inv_init r a = Some y"
  shows "\<exists>s. y = Inr s \<and> inv_shape s \<and> uvlen s = LEN \<and> x2 s = [0, 0, 0, 0, 0, 0, 0, 0]
     \<and> mpi_val (ux s) = mpi_val a mod P25519"
  using inv_init_spec [OF la lr] i by (auto simp add: inv_shape_def length_setp [unfolded LEN_eq] LEN_eq)

lemma mpi_cmpw_full:
  "length u = 8 \<Longrightarrow> mpi_cmpw u b LEN = 0 \<longleftrightarrow> mpi_val u = uint b"
  using mpi_cmpw_zero_iff [of LEN u b] by (simp add: LEN_eq)

text \<open>Inversion of an operand that is 0 modulo p.\<close>
lemma gfp_inv_zero_case:
  assumes la: "length a = 8" and lr: "length r = 8" and z: "mpi_val a mod P25519 = 0"
  shows "gfp_inv r a = Some (Inr (M25519_ERR_INVERS, [0, 0, 0, 0, 0, 0, 0, 0]))"
proof -
  from inv_init_spec [OF la lr] obtain u where
    u: "inv_init r a = Some (Inr \<lparr>ux = u, vx = gfp_setp (replicate LEN 0),
            x1 = [1, 0, 0, 0, 0, 0, 0, 0], x2 = [0, 0, 0, 0, 0, 0, 0, 0], uvlen = LEN\<rparr>)"
      "length u = 8" "mpi_val u = mpi_val a mod P25519" by blast
  have "mpi_cmpw u 0 LEN = 0" using u(2,3) z by (simp add: mpi_cmpw_full)
  then show ?thesis by (simp add: gfp_inv_def u(1))
qed

text \<open>Neither the assertion of mpi_cmp nor an index fails in a run of gfp_inv.\<close>
lemma gfp_inv_no_fault:
  assumes la: "length a = 8" and lr: "length r = 8"
  shows "gfp_inv r a \<noteq> Some (Inl f)"
proof
  assume g: "gfp_inv r a = Some (Inl f)"
  from inv_init_spec [OF la lr] obtain s where
    s: "inv_init r a = Some (Inr s)" and sh: "inv_shape s"
    by (auto simp add: inv_shape_def length_setp [unfolded LEN_eq] LEN_eq)
  show False
  proof (cases "mpi_cmpw (ux s) 0 LEN = 0")
    case True then show ?thesis using g s by (simp add: gfp_inv_def)
  next
    case False
    show ?thesis
    proof (cases "inv_loop s")
      case None then show ?thesis using g s False by (simp add: gfp_inv_def)
    next
      case (Some y)
      from inv_loop_shape [OF Some sh] obtain s' where "y = Inr s'" by blast
      then show ?thesis using g s False Some by (simp add: gfp_inv_def)
    qed
  qed
qed

lemma inv_reaches_shape:
  assumes la: "length a = 8" and lr: "length r = 8" and "inv_reaches r a s"
  shows "inv_shape s"
  using assms(3)
proof (induction rule: inv_reaches.induct)
  case (start s)
  then show ?case using inv_init_shape [OF la lr start(1)] by simp
next
  case (step s s')
  from inv_body_shape [OF step(4) step(3)] show ?case by simp
qed

text \<open>gfp_cmp compares the least non-negative residues.\<close>
lemma gfp_cmp_spec:
  assumes la: "length a = 8" and lb: "length b = 8"
  shows "gfp_cmp a b = Inr (sgn (mpi_val a mod P25519 - mpi_val b mod P25519))"
proof -
  have e: "gfp_cmp a b = mpi_cmp (gfp_fred (replicate LEN 0) a) (gfp_fred (replicate LEN 0) b) LEN"
    by (simp add: gfp_cmp_def gfp_fred_def Let_def split_beta)
  have l0: "length (replicate LEN (0 :: Word)) = 8" by (simp add: LEN_eq)
  note fa = gfp_fred_spec [OF la l0] and fb = gfp_fred_spec [OF lb l0]
  show ?thesis unfolding e
    using mpi_cmp_spec [of LEN "gfp_fred (replicate LEN 0) a" "gfp_fred (replicate LEN 0) b"] fa fb
    by (simp add: LEN_eq)
qed

section \<open>Primality of the modulus\<close>

lemma prime_2: "is_prime 2"
  unfolding is_prime_def
proof (intro conjI allI impI)
  fix m :: nat assume m: "m dvd 2"
  then have "m \<le> 2" by (simp add: dvd_imp_le)
  moreover have "m \<noteq> 0"
  proof
    assume "m = 0" with m show False by simp
  qed
  ultimately show "m = 1 \<or> m = 2" by arith
qed simp

lemma is_prime_gt1: "is_prime p \<Longrightarrow> 1 < p"
  by (simp add: is_prime_def)

lemma prime_coprime:
  assumes "is_prime p" and "\<not> p dvd a"
  shows "coprime p a"
proof -
  have "gcd p a dvd p" by simp
  then have "gcd p a = 1 \<or> gcd p a = p" using assms(1) by (simp add: is_prime_def)
  moreover have "gcd p a \<noteq> p" using assms(2) by (metis gcd_dvd2)
  ultimately show ?thesis by (simp add: coprime_iff_gcd_eq_1)
qed

lemma prime_dvd_multD: "is_prime p \<Longrightarrow> p dvd a * b \<Longrightarrow> p dvd a \<or> p dvd b"
  using prime_coprime coprime_dvd_mult_right_iff by blast

lemma prime_factor_ex: "1 < n \<Longrightarrow> \<exists>p. is_prime p \<and> p dvd n"
proof (induction n rule: less_induct)
  case (less n)
  show ?case
  proof (cases "is_prime n")
    case True then show ?thesis by auto
  next
    case False
    then obtain m where m: "m dvd n" "m \<noteq> 1" "m \<noteq> n"
      using less.prems by (auto simp add: is_prime_def)
    have "m \<noteq> 0"
    proof
      assume "m = 0" with m(1) less.prems show False by simp
    qed
    moreover have "m \<le> n" using m(1) less.prems by (simp add: dvd_imp_le)
    ultimately have "1 < m" "m < n" using m(2,3) by arith+
    from less.IH [OF this(2,1)] obtain p where "is_prime p" "p dvd m" by blast
    then show ?thesis using m(1) dvd_trans by blast
  qed
qed

lemma composite_factor:
  assumes "1 < n" and "\<not> is_prime n"
  shows "\<exists>p. is_prime p \<and> p dvd n \<and> p * p \<le> n"
proof -
  obtain m where m: "m dvd n" "m \<noteq> 1" "m \<noteq> n"
    using assms by (auto simp add: is_prime_def)
  then obtain k where k: "n = m * k" by (auto simp add: dvd_def)
  have "m \<noteq> 0"
  proof
    assume "m = 0" with k assms(1) show False by simp
  qed
  moreover have "k \<noteq> 0"
  proof
    assume "k = 0" with k assms(1) show False by simp
  qed
  moreover have "k \<noteq> 1"
  proof
    assume "k = 1" with k m(3) show False by simp
  qed
  ultimately have "m \<noteq> 0" "k \<noteq> 0" "k \<noteq> 1" by blast+
  then have mk: "1 < m" "1 < k" using m(2) by arith+
  define d where "d = min m k"
  have d1: "1 < d" using mk by (simp add: d_def)
  have dn: "d dvd n" using k by (auto simp add: d_def min_def)
  have "d * d \<le> m * k" by (rule mult_mono) (simp_all add: d_def)
  then have dd: "d * d \<le> n" by (simp add: k)
  from prime_factor_ex [OF d1] obtain p where p: "is_prime p" "p dvd d" by blast
  have pd: "p \<le> d" using p(2) d1 by (simp add: dvd_imp_le)
  have "p * p \<le> d * d" by (rule mult_mono [OF pd pd]) simp_all
  then show ?thesis using p dn dd dvd_trans by (meson order_trans)
qed

lemma prime_by_factors:
  assumes "1 < n" and f: "\<And>r. is_prime r \<Longrightarrow> r dvd n \<Longrightarrow> F dvd r - 1"
    and b: "n < (F + 1) * (F + 1)"
  shows "is_prime n"
proof (rule ccontr)
  assume "\<not> is_prime n"
  from composite_factor [OF assms(1) this] obtain r where
    r: "is_prime r" "r dvd n" "r * r \<le> n" by blast
  have "F dvd r - 1" by (rule f [OF r(1,2)])
  moreover have "0 < r - 1" using is_prime_gt1 [OF r(1)] by simp
  ultimately have "F \<le> r - 1" by (simp add: dvd_imp_le)
  then have fr: "F + 1 \<le> r" using is_prime_gt1 [OF r(1)] by arith
  have "(F + 1) * (F + 1) \<le> r * r" by (rule mult_mono [OF fr fr]) simp_all
  then show False using r(3) b by simp
qed

text \<open>Fermat's little theorem, from the binomial theorem.\<close>
lemma prime_dvd_choose:
  assumes "is_prime p" and "0 < k" and "k < p"
  shows "p dvd (p choose k)"
proof -
  have "k * (p choose k) = p * ((p - 1) choose (k - 1))"
    by (rule times_binomial_minus1_eq [OF assms(2)])
  then have "p dvd k * (p choose k)" by simp
  moreover have "\<not> p dvd k" using assms(2,3) by (auto dest: dvd_imp_le)
  ultimately show ?thesis using prime_dvd_multD [OF assms(1)] by blast
qed

lemma fermat_step:
  assumes "is_prime p"
  shows "(a + 1) ^ p mod p = (a ^ p + 1) mod p"
proof -
  have p: "1 < p" by (rule is_prime_gt1 [OF assms])
  have s: "{..p} = insert 0 (insert p {1..<p})" using p by auto
  have "(a + 1) ^ p = (\<Sum>k\<le>p. (p choose k) * a ^ k)"
    using binomial [of a 1 p] by simp
  also have "\<dots> = (a ^ p + 1) + (\<Sum>k\<in>{1..<p}. (p choose k) * a ^ k)"
    unfolding s using p by simp
  finally have e: "(a + 1) ^ p = (a ^ p + 1) + (\<Sum>k\<in>{1..<p}. (p choose k) * a ^ k)" .
  have "p dvd (\<Sum>k\<in>{1..<p}. (p choose k) * a ^ k)"
    by (intro dvd_sum dvd_mult2 prime_dvd_choose [OF assms]) auto
  then show ?thesis unfolding e by (metis dvd_def mod_mult_self2)
qed

lemma fermat: "is_prime p \<Longrightarrow> a ^ p mod p = a mod p"
proof (induction a)
  case 0
  then show ?case using is_prime_gt1 [of p] by (simp add: zero_power)
next
  case (Suc a)
  have "Suc a ^ p mod p = (a ^ p + 1) mod p"
    using fermat_step [OF Suc.prems, of a] by simp
  also have "\<dots> = (a ^ p mod p + 1) mod p" by (simp add: mod_simps)
  also have "\<dots> = (a mod p + 1) mod p" using Suc by simp
  also have "\<dots> = Suc a mod p" by (simp add: mod_simps)
  finally show ?case .
qed

lemma fermat_little:
  assumes "is_prime p" and "\<not> p dvd a"
  shows "a ^ (p - 1) mod p = 1"
proof -
  have p: "1 < p" by (rule is_prime_gt1 [OF assms(1)])
  have a: "0 < a" using assms(2) by (cases a) auto
  have e: "a ^ p = a * a ^ (p - 1)" using p by (cases p) simp_all
  have "1 \<le> a ^ (p - 1)" using a by simp
  then have le: "a \<le> a * a ^ (p - 1)" by simp
  have "(a * a ^ (p - 1)) mod p = a mod p" using fermat [OF assms(1), of a] by (simp add: e)
  then have "p dvd a * a ^ (p - 1) - a" using le by (simp add: mod_eq_dvd_iff_nat)
  then have "p dvd a * (a ^ (p - 1) - 1)" by (simp add: right_diff_distrib')
  then have "p dvd a ^ (p - 1) - 1" using prime_dvd_multD [OF assms(1)] assms(2) by blast
  then obtain c where "a ^ (p - 1) - 1 = p * c" by (auto simp add: dvd_def)
  then have "a ^ (p - 1) = p * c + 1" using \<open>1 \<le> a ^ (p - 1)\<close> by arith
  moreover have "(p * c + 1) mod p = 1 mod p" by (rule mod_mult_self4)
  moreover have "1 mod p = 1" using p by simp
  ultimately show ?thesis by (simp only:)
qed

lemma pow_mod_gcd:
  assumes m: "1 < (m :: nat)"
  shows "a ^ x mod m = 1 \<Longrightarrow> a ^ y mod m = 1 \<Longrightarrow> a ^ gcd x y mod m = 1"
proof (induction x y rule: gcd_nat_induct)
  case (base x)
  then show ?case by simp
next
  case (step x y)
  have "a ^ x = (a ^ y) ^ (x div y) * a ^ (x mod y)"
    by (simp add: power_mult [symmetric] power_add [symmetric])
  then have "a ^ x mod m = ((a ^ y mod m) ^ (x div y) mod m * (a ^ (x mod y) mod m)) mod m"
    by (simp add: mod_simps power_mod)
  then have "a ^ (x mod y) mod m = 1" using step.prems m by simp
  from step.IH [OF step.prems(2) this] show ?case by (simp add: gcd_red_nat [of x y] gcd.commute)
qed

lemma pw_1: "pw n a 1 a"
  by (simp add: pw_def)

lemma pw_chain: "pw n a e g \<Longrightarrow> pw n g f h \<Longrightarrow> k = e * f \<Longrightarrow> pw n a k h"
proof -
  assume 1: "pw n a e g" and 2: "pw n g f h" and k: "k = e * f"
  have "a ^ (e * f) mod n = (a ^ e mod n) ^ f mod n"
    by (simp add: power_mult power_mod)
  also have "\<dots> = (g mod n) ^ f mod n" using 1 by (simp add: pw_def)
  also have "\<dots> = h mod n" using 2 by (simp add: pw_def power_mod)
  finally show ?thesis by (simp add: pw_def k)
qed

lemma pw_sq: "pw n b e x \<Longrightarrow> pw n b (2 * e) (x * x)"
proof -
  assume "pw n b e x"
  then have "b ^ e mod n = x mod n" by (simp add: pw_def)
  then have "(b ^ e mod n) * (b ^ e mod n) mod n = (x mod n) * (x mod n) mod n" by simp
  then have "(b ^ e * b ^ e) mod n = (x * x) mod n" by (simp add: mod_mult_eq)
  then show ?thesis by (simp add: pw_def mult_2 power_add)
qed

lemma pw_mul: "pw n b e x \<Longrightarrow> pw n b (e + 1) (x * b)"
proof -
  assume "pw n b e x"
  then have "b ^ e mod n = x mod n" by (simp add: pw_def)
  then have "(b ^ e mod n) * b mod n = (x mod n) * b mod n" by simp
  then have "(b ^ e * b) mod n = (x * b) mod n" by (simp add: mod_mult_left_eq)
  then show ?thesis by (simp add: pw_def mult.commute)
qed

lemma pw_red: "(\<And>x. red x mod n = x mod n) \<Longrightarrow> pw n b e x \<Longrightarrow> pw n b e (red x)"
  by (simp add: pw_def)

text \<open>Square-and-multiply keeps the accumulator congruent to the power.\<close>
lemma mpow_pw:
  assumes red: "\<And>x. red x mod n = x mod n"
  shows "pw n b e acc \<Longrightarrow> pw n b (bits_val e bs) (mpow red b acc bs)"
proof (induction bs arbitrary: e acc)
  case Nil
  then show ?case by simp
next
  case (Cons c bs)
  show ?case
  proof (cases c)
    case False
    have "pw n b (2 * e) (red (acc * acc))"
      by (rule pw_red [OF red pw_sq [OF Cons.prems]])
    from Cons.IH [OF this] show ?thesis using False by simp
  next
    case True
    have "pw n b (2 * e) (red (acc * acc))"
      by (rule pw_red [OF red pw_sq [OF Cons.prems]])
    then have "pw n b (2 * e + 1) (red (acc * acc) * b)" by (rule pw_mul)
    then have "pw n b (2 * e + 1) (red (red (acc * acc) * b))" by (rule pw_red [OF red])
    from Cons.IH [OF this] show ?thesis using True by simp
  qed
qed

lemma mpow_step:
  assumes "\<And>x. red x mod n = x mod n" and "pw n b e acc"
    and "mpow red b acc bs = v" and "bits_val e bs = e'"
  shows "pw n b e' v"
  using mpow_pw [OF assms(1,2), of bs] assms(3,4) by simp

text \<open>The reduction subtracts a multiple of the modulus that is not above its argument.\<close>
lemma bred_mod:
  assumes mu: "mu * n \<le> 2 ^ (s1 + s2)"
  shows "bred n mu s1 s2 x mod n = x mod n"
proof -
  define q where "q = drop_bit s2 (drop_bit s1 x * mu)"
  have "q * 2 ^ s2 \<le> drop_bit s1 x * mu"
    by (simp add: q_def drop_bit_eq_div)
  then have "q * 2 ^ s2 * n \<le> drop_bit s1 x * mu * n" by simp
  also have "\<dots> = drop_bit s1 x * (mu * n)" by simp
  also have "\<dots> \<le> drop_bit s1 x * 2 ^ (s1 + s2)" using mu by simp
  also have "\<dots> = (drop_bit s1 x * 2 ^ s1) * 2 ^ s2" by (simp add: power_add)
  also have "\<dots> \<le> x * 2 ^ s2" by (simp add: drop_bit_eq_div)
  finally have "(q * n) * 2 ^ s2 \<le> x * 2 ^ s2" by (simp add: ac_simps)
  then have le: "q * n \<le> x" by simp
  have "bred n mu s1 s2 x = x - q * n" by (simp add: bred_def q_def)
  moreover have "(x - q * n + q * n) mod n = (x - q * n) mod n" by (rule mod_mult_self1)
  moreover have "x - q * n + q * n = x" using le by simp
  ultimately show ?thesis by simp
qed

lemma fold_red_mod:
  assumes n: "n + c = 2 ^ s"
  shows "fold_red c s x mod n = x mod n"
proof -
  define hi where "hi = drop_bit s x"
  define lo where "lo = take_bit s x"
  have "x = hi * 2 ^ s + lo"
    unfolding hi_def lo_def drop_bit_eq_div take_bit_eq_mod by (rule div_mult_mod_eq [symmetric])
  also have "\<dots> = hi * n + (c * hi + lo)" by (simp add: n [symmetric] algebra_simps)
  finally have "x mod n = (c * hi + lo) mod n" by simp
  then show ?thesis by (simp add: fold_red_def hi_def lo_def)
qed

lemma fold_red2_mod: "n + c = 2 ^ s \<Longrightarrow> fold_red2 c s x mod n = x mod n"
  by (simp add: fold_red2_def fold_red_mod)

lemma coprime_cert: "u * x = v * n + 1 \<Longrightarrow> coprime x (n :: nat)"
proof -
  assume e: "u * x = v * n + 1"
  show ?thesis
  proof (rule coprimeI)
    fix c assume "c dvd x" "c dvd n"
    then have "c dvd u * x" "c dvd v * n" by simp_all
    then have "c dvd u * x - v * n" by (rule dvd_diff_nat)
    then show "is_unit c" by (simp add: e)
  qed
qed

text \<open>Pocklington's criterion, one prime of the factored part at a time.\<close>
lemma pock_dvd:
  assumes n: "1 < n" and q: "is_prime q" and full: "pw n a e 1" and e: "e = q * k"
    and ne: "n = e + 1" and part: "pw n a k y" and y: "y = x + 1" and cop: "coprime x n"
    and r: "is_prime r" "r dvd n"
  shows "q dvd r - 1"
proof -
  have r1: "1 < r" by (rule is_prime_gt1 [OF r(1)])
  have e0: "0 < e" using n ne by simp
  have "a ^ e mod n = 1" using full n by (simp add: pw_def)
  then have "a ^ e mod n mod r = 1" using r1 by simp
  then have ar: "a ^ e mod r = 1" using r(2) by (simp add: mod_mod_cancel)
  have "\<not> r dvd a"
  proof
    assume "r dvd a"
    moreover have "a dvd a ^ e" using e0 by (simp add: dvd_power)
    ultimately have "r dvd a ^ e" by (rule dvd_trans)
    then show False using ar by (simp add: dvd_eq_mod_eq_0)
  qed
  then have fr: "a ^ (r - 1) mod r = 1" by (rule fermat_little [OF r(1)])
  define g where "g = gcd e (r - 1)"
  have ag: "a ^ g mod r = 1" unfolding g_def by (rule pow_mod_gcd [OF r1 ar fr])
  show ?thesis
  proof (rule ccontr)
    assume nq: "\<not> q dvd r - 1"
    have "\<not> q dvd g"
    proof
      assume "q dvd g"
      moreover have "g dvd r - 1" by (simp add: g_def)
      ultimately show False using nq dvd_trans by blast
    qed
    then have "coprime q g" by (rule prime_coprime [OF q])
    moreover have "g dvd q * k" using e by (simp add: g_def)
    ultimately have "g dvd k" by (simp add: coprime_dvd_mult_right_iff coprime_commute)
    then obtain j where j: "k = g * j" by (auto simp add: dvd_def)
    have "a ^ k mod r = (a ^ g mod r) ^ j mod r" by (simp add: j power_mult power_mod)
    then have ak: "a ^ k mod r = 1" using ag r1 by simp
    have "a ^ k mod n mod r = y mod n mod r" using part by (simp add: pw_def)
    then have "y mod r = 1" using r(2) ak by (simp add: mod_mod_cancel)
    then have "(x + 1) mod r = 1 mod r" using y r1 by simp
    then have "r dvd x" using mod_eq_dvd_iff_nat [of 1 "x + 1" r] by simp
    then have "r dvd 1" using cop r(2) by (meson coprime_common_divisor)
    then show False using r1 by simp
  qed
qed

lemma pw_one: "pw n a e v \<Longrightarrow> v = c * n + 1 \<Longrightarrow> pw n a e 1"
proof -
  assume "pw n a e v" and v: "v = c * n + 1"
  then have "a ^ e mod n = (c * n + 1) mod n" unfolding pw_def by (simp only:)
  also have "\<dots> = 1 mod n" by (rule mod_mult_self3)
  finally show ?thesis unfolding pw_def .
qed

lemma primes_coprime:
  assumes "is_prime p" and "is_prime q" and "p \<noteq> q"
  shows "coprime p q"
proof (rule prime_coprime [OF assms(1)])
  show "\<not> p dvd q"
  proof
    assume "p dvd q"
    then have "p = 1 \<or> p = q" using assms(2) by (simp add: is_prime_def)
    then show False using assms(3) is_prime_gt1 [OF assms(1)] by auto
  qed
qed

text \<open>The rewrite rules that evaluate arithmetic on numerals and \<open>mpow\<close>.\<close>
lemmas num_eval = arith_simps rel_simps simp_thms

lemma drop_bit_numeral_1: "drop_bit (numeral l) (1 :: nat) = 0"
  by simp

lemma drop_bit_1_numeral:
  "drop_bit 1 (numeral (Num.Bit0 k) :: nat) = numeral k"
  "drop_bit 1 (numeral (Num.Bit1 k) :: nat) = numeral k"
  "drop_bit 1 (1 :: nat) = 0"
  by (simp_all add: drop_bit_Suc numeral_Bit0_div_2 numeral_Bit1_div_2)

lemma take_bit_1_numeral:
  "take_bit 1 (numeral (Num.Bit0 k) :: nat) = 0"
  "take_bit 1 (numeral (Num.Bit1 k) :: nat) = 1"
  "take_bit 1 (1 :: nat) = 1"
  "take_bit (numeral l) (1 :: nat) = 1"
  by (simp_all add: take_bit_Suc)

lemmas mpow_eval = mpow.simps bred_def fold_red_def fold_red2_def take_bit_numeral_bit0
  take_bit_numeral_bit1 take_bit_0 take_bit_of_0 take_bit_1_numeral drop_bit_numeral_bit0 drop_bit_numeral_bit1 drop_bit_0
  drop_bit_of_0 drop_bit_numeral_1 drop_bit_1_numeral numeral_One id_apply pred_numeral_simps diff_nat_numeral
  nat_numeral nat_0 nat_1 diff_zero mult_1_left mult_1_right arith_special num_eval

text \<open>5 is prime.\<close>

lemma red_5: "bred 5 819 5 7 x mod 5 = x mod 5"
  by (rule bred_mod) simp

lemma pw_5_g_0: "pw 5 2 2 4"
proof (rule mpow_step [where red = "bred 5 819 5 7" and bs = "[False]", OF red_5 pw_1])
  show "mpow (bred 5 819 5 7) 2 2 [False] = 4"
    by (simp only: mpow_eval)
  show "bits_val 1 [False] = 2"
    by simp
qed

lemma pw_5_x2_0: "pw 5 4 2 16"
proof (rule mpow_step [where red = "bred 5 819 5 7" and bs = "[False]", OF red_5 pw_1])
  show "mpow (bred 5 819 5 7) 4 4 [False] = 16"
    by (simp only: mpow_eval)
  show "bits_val 1 [False] = 2"
    by simp
qed

lemma pw_5_a2: "pw 5 2 4 16"
  by (rule pw_chain [OF pw_5_g_0 pw_5_x2_0]) simp

lemma pw_5_full: "pw 5 2 4 1"
  by (rule pw_one [where c = 3, OF pw_5_a2]) simp

lemma cop_5_2: "coprime 3 (5 :: nat)"
  by (rule coprime_cert [where u = 2 and v = 1]) (simp only: num_eval)

lemma prime_5: "is_prime 5"
proof (rule prime_by_factors [where F = "2"])
  show "1 < (5 :: nat)" by simp
  show "(5 :: nat) < (2 + 1) * (2 + 1)" by simp
  fix r assume r: "is_prime r" "r dvd 5"
  have d0: "2 dvd r - 1"
    by (rule pock_dvd [where n = 5 and a = 2 and e = 4 and k = 2 and y = 4 and x = 3,
          OF _ prime_2 pw_5_full _ _ pw_5_g_0 _ cop_5_2 r]) simp_all
  show "2 dvd r - 1" by (rule d0)
qed

text \<open>11 is prime.\<close>

lemma red_11: "bred 11 1489 6 8 x mod 11 = x mod 11"
  by (rule bred_mod) simp

lemma pw_11_g_0: "pw 11 2 2 4"
proof (rule mpow_step [where red = "bred 11 1489 6 8" and bs = "[False]", OF red_11 pw_1])
  show "mpow (bred 11 1489 6 8) 2 2 [False] = 4"
    by (simp only: mpow_eval)
  show "bits_val 1 [False] = 2"
    by simp
qed

lemma pw_11_x5_0: "pw 11 4 5 12"
proof (rule mpow_step [where red = "bred 11 1489 6 8" and bs = "[False, True]", OF red_11 pw_1])
  show "mpow (bred 11 1489 6 8) 4 4 [False, True] = 12"
    by (simp only: mpow_eval)
  show "bits_val 1 [False, True] = 5"
    by simp
qed

lemma pw_11_a5: "pw 11 2 10 12"
  by (rule pw_chain [OF pw_11_g_0 pw_11_x5_0]) simp

lemma pw_11_full: "pw 11 2 10 1"
  by (rule pw_one [where c = 1, OF pw_11_a5]) simp

lemma cop_11_5: "coprime 3 (11 :: nat)"
  by (rule coprime_cert [where u = 4 and v = 1]) (simp only: num_eval)

lemma prime_11: "is_prime 11"
proof (rule prime_by_factors [where F = "5"])
  show "1 < (11 :: nat)" by simp
  show "(11 :: nat) < (5 + 1) * (5 + 1)" by simp
  fix r assume r: "is_prime r" "r dvd 11"
  have d0: "5 dvd r - 1"
    by (rule pock_dvd [where n = 11 and a = 2 and e = 10 and k = 2 and y = 4 and x = 3,
          OF _ prime_5 pw_11_full _ _ pw_11_g_0 _ cop_11_5 r]) simp_all
  show "5 dvd r - 1" by (rule d0)
qed

text \<open>3 is prime.\<close>

lemma red_3: "bred 3 341 4 6 x mod 3 = x mod 3"
  by (rule bred_mod) simp

lemma pw_3_x2_0: "pw 3 2 2 4"
proof (rule mpow_step [where red = "bred 3 341 4 6" and bs = "[False]", OF red_3 pw_1])
  show "mpow (bred 3 341 4 6) 2 2 [False] = 4"
    by (simp only: mpow_eval)
  show "bits_val 1 [False] = 2"
    by simp
qed

lemma pw_3_a2: "pw 3 2 2 4"
  by (rule pw_chain [OF pw_1 pw_3_x2_0]) simp

lemma pw_3_full: "pw 3 2 2 1"
  by (rule pw_one [where c = 1, OF pw_3_a2]) simp

lemma cop_3_2: "coprime 1 (3 :: nat)"
  by (rule coprime_cert [where u = 1 and v = 0]) (simp only: num_eval)

lemma prime_3: "is_prime 3"
proof (rule prime_by_factors [where F = "2"])
  show "1 < (3 :: nat)" by simp
  show "(3 :: nat) < (2 + 1) * (2 + 1)" by simp
  fix r assume r: "is_prime r" "r dvd 3"
  have d0: "2 dvd r - 1"
    by (rule pock_dvd [where n = 3 and a = 2 and e = 2 and k = 1 and y = 2 and x = 1,
          OF _ prime_2 pw_3_full _ _ pw_1 _ cop_3_2 r]) simp_all
  show "2 dvd r - 1" by (rule d0)
qed

text \<open>991 is prime.\<close>

lemma red_991: "bred 991 67718 12 14 x mod 991 = x mod 991"
  by (rule bred_mod) simp

lemma pw_991_g_0: "pw 991 2 30 1252"
proof (rule mpow_step [where red = "bred 991 67718 12 14" and bs = "[True, True, True, False]", OF red_991 pw_1])
  show "mpow (bred 991 67718 12 14) 2 2 [True, True, True, False] = 1252"
    by (simp only: mpow_eval)
  show "bits_val 1 [True, True, True, False] = 30"
    by simp
qed

lemma pw_991_x11_0: "pw 991 1252 11 1104"
proof (rule mpow_step [where red = "bred 991 67718 12 14" and bs = "[False, True, True]", OF red_991 pw_1])
  show "mpow (bred 991 67718 12 14) 1252 1252 [False, True, True] = 1104"
    by (simp only: mpow_eval)
  show "bits_val 1 [False, True, True] = 11"
    by simp
qed

lemma pw_991_a11: "pw 991 2 330 1104"
  by (rule pw_chain [OF pw_991_g_0 pw_991_x11_0]) simp

lemma pw_991_x11_3_0: "pw 991 1104 3 2974"
proof (rule mpow_step [where red = "bred 991 67718 12 14" and bs = "[True]", OF red_991 pw_1])
  show "mpow (bred 991 67718 12 14) 1104 1104 [True] = 2974"
    by (simp only: mpow_eval)
  show "bits_val 1 [True] = 3"
    by simp
qed

lemma pw_991_a11_3: "pw 991 2 990 2974"
  by (rule pw_chain [OF pw_991_a11 pw_991_x11_3_0]) simp

lemma pw_991_full: "pw 991 2 990 1"
  by (rule pw_one [where c = 3, OF pw_991_a11_3]) simp

lemma pw_991_x3_0: "pw 991 1252 3 4014"
proof (rule mpow_step [where red = "bred 991 67718 12 14" and bs = "[True]", OF red_991 pw_1])
  show "mpow (bred 991 67718 12 14) 1252 1252 [True] = 4014"
    by (simp only: mpow_eval)
  show "bits_val 1 [True] = 3"
    by simp
qed

lemma pw_991_a3: "pw 991 2 90 4014"
  by (rule pw_chain [OF pw_991_g_0 pw_991_x3_0]) simp

lemma cop_991_11: "coprime 4013 (991 :: nat)"
  by (rule coprime_cert [where u = 809 and v = 3276]) (simp only: num_eval)

lemma cop_991_3: "coprime 1103 (991 :: nat)"
  by (rule coprime_cert [where u = 292 and v = 325]) (simp only: num_eval)

lemma prime_991: "is_prime 991"
proof (rule prime_by_factors [where F = "11 * 3"])
  show "1 < (991 :: nat)" by simp
  show "(991 :: nat) < (11 * 3 + 1) * (11 * 3 + 1)" by simp
  fix r assume r: "is_prime r" "r dvd 991"
  have d0: "11 dvd r - 1"
    by (rule pock_dvd [where n = 991 and a = 2 and e = 990 and k = 90 and y = 4014 and x = 4013,
          OF _ prime_11 pw_991_full _ _ pw_991_a3 _ cop_991_11 r]) simp_all
  have d1: "3 dvd r - 1"
    by (rule pock_dvd [where n = 991 and a = 2 and e = 990 and k = 330 and y = 1104 and x = 1103,
          OF _ prime_3 pw_991_full _ _ pw_991_a11 _ cop_991_3 r]) simp_all
  have c1: "coprime (11) (3 :: nat)"
    using primes_coprime [OF prime_11 prime_3] by simp
  have e1: "11 * 3 dvd r - 1"
    by (rule divides_mult [OF d0 d1 c1])
  show "11 * 3 dvd r - 1" by (rule e1)
qed

text \<open>8574133 is prime.\<close>

lemma red_q24: "bred 8574133 2101016920 26 28 x mod 8574133 = x mod 8574133"
  by (rule bred_mod) simp

lemma pw_q24_g_0: "pw 8574133 2 2884 44748897"
proof (rule mpow_step [where red = "bred 8574133 2101016920 26 28" and bs = "[False, True, True, False, True, False, False, False, True, False, False]", OF red_q24 pw_1])
  show "mpow (bred 8574133 2101016920 26 28) 2 2 [False, True, True, False, True, False, False, False, True, False, False] = 44748897"
    by (simp only: mpow_eval)
  show "bits_val 1 [False, True, True, False, True, False, False, False, True, False, False] = 2884"
    by simp
qed

lemma pw_q24_x991_0: "pw 8574133 44748897 991 32801456"
proof (rule mpow_step [where red = "bred 8574133 2101016920 26 28" and bs = "[True, True, True, False, True, True, True, True, True]", OF red_q24 pw_1])
  show "mpow (bred 8574133 2101016920 26 28) 44748897 44748897 [True, True, True, False, True, True, True, True, True] = 32801456"
    by (simp only: mpow_eval)
  show "bits_val 1 [True, True, True, False, True, True, True, True, True] = 991"
    by simp
qed

lemma pw_q24_a991: "pw 8574133 2 2858044 32801456"
  by (rule pw_chain [OF pw_q24_g_0 pw_q24_x991_0]) simp

lemma pw_q24_x991_3_0: "pw 8574133 32801456 3 60018932"
proof (rule mpow_step [where red = "bred 8574133 2101016920 26 28" and bs = "[True]", OF red_q24 pw_1])
  show "mpow (bred 8574133 2101016920 26 28) 32801456 32801456 [True] = 60018932"
    by (simp only: mpow_eval)
  show "bits_val 1 [True] = 3"
    by simp
qed

lemma pw_q24_a991_3: "pw 8574133 2 8574132 60018932"
  by (rule pw_chain [OF pw_q24_a991 pw_q24_x991_3_0]) simp

lemma pw_q24_full: "pw 8574133 2 8574132 1"
  by (rule pw_one [where c = 7, OF pw_q24_a991_3]) simp

lemma pw_q24_x3_0: "pw 8574133 44748897 3 46306394"
proof (rule mpow_step [where red = "bred 8574133 2101016920 26 28" and bs = "[True]", OF red_q24 pw_1])
  show "mpow (bred 8574133 2101016920 26 28) 44748897 44748897 [True] = 46306394"
    by (simp only: mpow_eval)
  show "bits_val 1 [True] = 3"
    by simp
qed

lemma pw_q24_a3: "pw 8574133 2 8652 46306394"
  by (rule pw_chain [OF pw_q24_g_0 pw_q24_x3_0]) simp

lemma cop_q24_991: "coprime 46306393 (8574133 :: nat)"
  by (rule coprime_cert [where u = 1014251 and v = 5477674]) (simp only: num_eval)

lemma cop_q24_3: "coprime 32801455 (8574133 :: nat)"
  by (rule coprime_cert [where u = 498358 and v = 1906533]) (simp only: num_eval)

lemma prime_q24: "is_prime 8574133"
proof (rule prime_by_factors [where F = "991 * 3"])
  show "1 < (8574133 :: nat)" by simp
  show "(8574133 :: nat) < (991 * 3 + 1) * (991 * 3 + 1)" by simp
  fix r assume r: "is_prime r" "r dvd 8574133"
  have d0: "991 dvd r - 1"
    by (rule pock_dvd [where n = 8574133 and a = 2 and e = 8574132 and k = 8652 and y = 46306394 and x = 46306393,
          OF _ prime_991 pw_q24_full _ _ pw_q24_a3 _ cop_q24_991 r]) simp_all
  have d1: "3 dvd r - 1"
    by (rule pock_dvd [where n = 8574133 and a = 2 and e = 8574132 and k = 2858044 and y = 32801456 and x = 32801455,
          OF _ prime_3 pw_q24_full _ _ pw_q24_a991 _ cop_q24_3 r]) simp_all
  have c1: "coprime (991) (3 :: nat)"
    using primes_coprime [OF prime_991 prime_3] by simp
  have e1: "991 * 3 dvd r - 1"
    by (rule divides_mult [OF d0 d1 c1])
  show "991 * 3 dvd r - 1" by (rule e1)
qed

text \<open>7 is prime.\<close>

lemma red_7: "bred 7 585 5 7 x mod 7 = x mod 7"
  by (rule bred_mod) simp

lemma pw_7_g_0: "pw 7 3 3 27"
proof (rule mpow_step [where red = "bred 7 585 5 7" and bs = "[True]", OF red_7 pw_1])
  show "mpow (bred 7 585 5 7) 3 3 [True] = 27"
    by (simp only: mpow_eval)
  show "bits_val 1 [True] = 3"
    by simp
qed

lemma pw_7_x2_0: "pw 7 27 2 29"
proof (rule mpow_step [where red = "bred 7 585 5 7" and bs = "[False]", OF red_7 pw_1])
  show "mpow (bred 7 585 5 7) 27 27 [False] = 29"
    by (simp only: mpow_eval)
  show "bits_val 1 [False] = 2"
    by simp
qed

lemma pw_7_a2: "pw 7 3 6 29"
  by (rule pw_chain [OF pw_7_g_0 pw_7_x2_0]) simp

lemma pw_7_full: "pw 7 3 6 1"
  by (rule pw_one [where c = 4, OF pw_7_a2]) simp

lemma cop_7_2: "coprime 26 (7 :: nat)"
  by (rule coprime_cert [where u = 3 and v = 11]) (simp only: num_eval)

lemma prime_7: "is_prime 7"
proof (rule prime_by_factors [where F = "2"])
  show "1 < (7 :: nat)" by simp
  show "(7 :: nat) < (2 + 1) * (2 + 1)" by simp
  fix r assume r: "is_prime r" "r dvd 7"
  have d0: "2 dvd r - 1"
    by (rule pock_dvd [where n = 7 and a = 3 and e = 6 and k = 3 and y = 27 and x = 26,
          OF _ prime_2 pw_7_full _ _ pw_7_g_0 _ cop_7_2 r]) simp_all
  show "2 dvd r - 1" by (rule d0)
qed

text \<open>1919519569386763 is prime.\<close>

lemma red_q51: "bred 1919519569386763 169062383543243602 53 55 x mod 1919519569386763 = x mod 1919519569386763"
  by (rule bred_mod) simp

lemma pw_q51_g_0: "pw 1919519569386763 2 31981902 6942280772946251"
proof (rule mpow_step [where red = "bred 1919519569386763 169062383543243602 53 55" and bs = "[True, True, True, False, True, False, False, False, False, False, False, False, False, False, False, True, False, True, False, False, True, True, True, False]", OF red_q51 pw_1])
  show "mpow (bred 1919519569386763 169062383543243602 53 55) 2 2 [True, True, True, False, True, False, False, False, False, False, False, False, False, False, False, True, False, True, False, False, True, True, True, False] = 6942280772946251"
    by (simp only: mpow_eval)
  show "bits_val 1 [True, True, True, False, True, False, False, False, False, False, False, False, False, False, False, True, False, True, False, False, True, True, True, False] = 31981902"
    by simp
qed

lemma pw_q51_xq24_0: "pw 1919519569386763 6942280772946251 8574133 6883278066950069"
proof (rule mpow_step [where red = "bred 1919519569386763 169062383543243602 53 55" and bs = "[False, False, False, False, False, True, False, True, True, False, True, False, True, False, False, True, False, True, True, False, True, False, True]", OF red_q51 pw_1])
  show "mpow (bred 1919519569386763 169062383543243602 53 55) 6942280772946251 6942280772946251 [False, False, False, False, False, True, False, True, True, False, True, False, True, False, False, True, False, True, True, False, True, False, True] = 6883278066950069"
    by (simp only: mpow_eval)
  show "bits_val 1 [False, False, False, False, False, True, False, True, True, False, True, False, True, False, False, True, False, True, True, False, True, False, True] = 8574133"
    by simp
qed

lemma pw_q51_aq24: "pw 1919519569386763 2 274217081340966 6883278066950069"
  by (rule pw_chain [OF pw_q51_g_0 pw_q51_xq24_0]) simp

lemma pw_q51_xq24_7_0: "pw 1919519569386763 6883278066950069 7 3839039138773527"
proof (rule mpow_step [where red = "bred 1919519569386763 169062383543243602 53 55" and bs = "[True, True]", OF red_q51 pw_1])
  show "mpow (bred 1919519569386763 169062383543243602 53 55) 6883278066950069 6883278066950069 [True, True] = 3839039138773527"
    by (simp only: mpow_eval)
  show "bits_val 1 [True, True] = 7"
    by simp
qed

lemma pw_q51_aq24_7: "pw 1919519569386763 2 1919519569386762 3839039138773527"
  by (rule pw_chain [OF pw_q51_aq24 pw_q51_xq24_7_0]) simp

lemma pw_q51_full: "pw 1919519569386763 2 1919519569386762 1"
  by (rule pw_one [where c = 2, OF pw_q51_aq24_7]) simp

lemma pw_q51_x7_0: "pw 1919519569386763 6942280772946251 7 6818487363147730"
proof (rule mpow_step [where red = "bred 1919519569386763 169062383543243602 53 55" and bs = "[True, True]", OF red_q51 pw_1])
  show "mpow (bred 1919519569386763 169062383543243602 53 55) 6942280772946251 6942280772946251 [True, True] = 6818487363147730"
    by (simp only: mpow_eval)
  show "bits_val 1 [True, True] = 7"
    by simp
qed

lemma pw_q51_a7: "pw 1919519569386763 2 223873314 6818487363147730"
  by (rule pw_chain [OF pw_q51_g_0 pw_q51_x7_0]) simp

lemma cop_q51_q24: "coprime 6818487363147729 (1919519569386763 :: nat)"
  by (rule coprime_cert [where u = 1290547218147893 and v = 4584261624015692]) (simp only: num_eval)

lemma cop_q51_7: "coprime 6883278066950068 (1919519569386763 :: nat)"
  by (rule coprime_cert [where u = 681516913897206 and v = 2443877364158789]) (simp only: num_eval)

lemma prime_q51: "is_prime 1919519569386763"
proof (rule prime_by_factors [where F = "8574133 * 7"])
  show "1 < (1919519569386763 :: nat)" by simp
  show "(1919519569386763 :: nat) < (8574133 * 7 + 1) * (8574133 * 7 + 1)" by simp
  fix r assume r: "is_prime r" "r dvd 1919519569386763"
  have d0: "8574133 dvd r - 1"
    by (rule pock_dvd [where n = 1919519569386763 and a = 2 and e = 1919519569386762 and k = 223873314 and y = 6818487363147730 and x = 6818487363147729,
          OF _ prime_q24 pw_q51_full _ _ pw_q51_a7 _ cop_q51_q24 r]) simp_all
  have d1: "7 dvd r - 1"
    by (rule pock_dvd [where n = 1919519569386763 and a = 2 and e = 1919519569386762 and k = 274217081340966 and y = 6883278066950069 and x = 6883278066950068,
          OF _ prime_7 pw_q51_full _ _ pw_q51_aq24 _ cop_q51_7 r]) simp_all
  have c1: "coprime (8574133) (7 :: nat)"
    using primes_coprime [OF prime_q24 prime_7] by simp
  have e1: "8574133 * 7 dvd r - 1"
    by (rule divides_mult [OF d0 d1 c1])
  show "8574133 * 7 dvd r - 1" by (rule e1)
qed

text \<open>41 is prime.\<close>

lemma red_41: "bred 41 6393 8 10 x mod 41 = x mod 41"
  by (rule bred_mod) simp

lemma pw_41_g_0: "pw 41 6 4 25"
proof (rule mpow_step [where red = "bred 41 6393 8 10" and bs = "[False, False]", OF red_41 pw_1])
  show "mpow (bred 41 6393 8 10) 6 6 [False, False] = 25"
    by (simp only: mpow_eval)
  show "bits_val 1 [False, False] = 4"
    by simp
qed

lemma pw_41_x5_0: "pw 41 25 5 204"
proof (rule mpow_step [where red = "bred 41 6393 8 10" and bs = "[False, True]", OF red_41 pw_1])
  show "mpow (bred 41 6393 8 10) 25 25 [False, True] = 204"
    by (simp only: mpow_eval)
  show "bits_val 1 [False, True] = 5"
    by simp
qed

lemma pw_41_a5: "pw 41 6 20 204"
  by (rule pw_chain [OF pw_41_g_0 pw_41_x5_0]) simp

lemma pw_41_x5_2_0: "pw 41 204 2 165"
proof (rule mpow_step [where red = "bred 41 6393 8 10" and bs = "[False]", OF red_41 pw_1])
  show "mpow (bred 41 6393 8 10) 204 204 [False] = 165"
    by (simp only: mpow_eval)
  show "bits_val 1 [False] = 2"
    by simp
qed

lemma pw_41_a5_2: "pw 41 6 40 165"
  by (rule pw_chain [OF pw_41_a5 pw_41_x5_2_0]) simp

lemma pw_41_full: "pw 41 6 40 1"
  by (rule pw_one [where c = 4, OF pw_41_a5_2]) simp

lemma pw_41_x2_0: "pw 41 25 2 133"
proof (rule mpow_step [where red = "bred 41 6393 8 10" and bs = "[False]", OF red_41 pw_1])
  show "mpow (bred 41 6393 8 10) 25 25 [False] = 133"
    by (simp only: mpow_eval)
  show "bits_val 1 [False] = 2"
    by simp
qed

lemma pw_41_a2: "pw 41 6 8 133"
  by (rule pw_chain [OF pw_41_g_0 pw_41_x2_0]) simp

lemma cop_41_5: "coprime 132 (41 :: nat)"
  by (rule coprime_cert [where u = 32 and v = 103]) (simp only: num_eval)

lemma cop_41_2: "coprime 203 (41 :: nat)"
  by (rule coprime_cert [where u = 20 and v = 99]) (simp only: num_eval)

lemma prime_41: "is_prime 41"
proof (rule prime_by_factors [where F = "5 * 2"])
  show "1 < (41 :: nat)" by simp
  show "(41 :: nat) < (5 * 2 + 1) * (5 * 2 + 1)" by simp
  fix r assume r: "is_prime r" "r dvd 41"
  have d0: "5 dvd r - 1"
    by (rule pock_dvd [where n = 41 and a = 6 and e = 40 and k = 8 and y = 133 and x = 132,
          OF _ prime_5 pw_41_full _ _ pw_41_a2 _ cop_41_5 r]) simp_all
  have d1: "2 dvd r - 1"
    by (rule pock_dvd [where n = 41 and a = 6 and e = 40 and k = 20 and y = 204 and x = 203,
          OF _ prime_2 pw_41_full _ _ pw_41_a5 _ cop_41_2 r]) simp_all
  have c1: "coprime (5) (2 :: nat)"
    using primes_coprime [OF prime_5 prime_2] by simp
  have e1: "5 * 2 dvd r - 1"
    by (rule divides_mult [OF d0 d1 c1])
  show "5 * 2 dvd r - 1" by (rule e1)
qed

text \<open>83 is prime.\<close>

lemma red_83: "bred 83 12633 9 11 x mod 83 = x mod 83"
  by (rule bred_mod) simp

lemma pw_83_g_0: "pw 83 2 2 4"
proof (rule mpow_step [where red = "bred 83 12633 9 11" and bs = "[False]", OF red_83 pw_1])
  show "mpow (bred 83 12633 9 11) 2 2 [False] = 4"
    by (simp only: mpow_eval)
  show "bits_val 1 [False] = 2"
    by simp
qed

lemma pw_83_x41_0: "pw 83 4 41 416"
proof (rule mpow_step [where red = "bred 83 12633 9 11" and bs = "[False, True, False, False, True]", OF red_83 pw_1])
  show "mpow (bred 83 12633 9 11) 4 4 [False, True, False, False, True] = 416"
    by (simp only: mpow_eval)
  show "bits_val 1 [False, True, False, False, True] = 41"
    by simp
qed

lemma pw_83_a41: "pw 83 2 82 416"
  by (rule pw_chain [OF pw_83_g_0 pw_83_x41_0]) simp

lemma pw_83_full: "pw 83 2 82 1"
  by (rule pw_one [where c = 5, OF pw_83_a41]) simp

lemma cop_83_41: "coprime 3 (83 :: nat)"
  by (rule coprime_cert [where u = 28 and v = 1]) (simp only: num_eval)

lemma prime_83: "is_prime 83"
proof (rule prime_by_factors [where F = "41"])
  show "1 < (83 :: nat)" by simp
  show "(83 :: nat) < (41 + 1) * (41 + 1)" by simp
  fix r assume r: "is_prime r" "r dvd 83"
  have d0: "41 dvd r - 1"
    by (rule pock_dvd [where n = 83 and a = 2 and e = 82 and k = 2 and y = 4 and x = 3,
          OF _ prime_41 pw_83_full _ _ pw_83_g_0 _ cop_83_41 r]) simp_all
  show "41 dvd r - 1" by (rule d0)
qed

text \<open>9463 is prime.\<close>

lemma red_9463: "bred 9463 1815478 16 18 x mod 9463 = x mod 9463"
  by (rule bred_mod) simp

lemma pw_9463_g_0: "pw 9463 3 57 47967"
proof (rule mpow_step [where red = "bred 9463 1815478 16 18" and bs = "[True, True, False, False, True]", OF red_9463 pw_1])
  show "mpow (bred 9463 1815478 16 18) 3 3 [True, True, False, False, True] = 47967"
    by (simp only: mpow_eval)
  show "bits_val 1 [True, True, False, False, True] = 57"
    by simp
qed

lemma pw_9463_x83_0: "pw 9463 47967 83 28388"
proof (rule mpow_step [where red = "bred 9463 1815478 16 18" and bs = "[False, True, False, False, True, True]", OF red_9463 pw_1])
  show "mpow (bred 9463 1815478 16 18) 47967 47967 [False, True, False, False, True, True] = 28388"
    by (simp only: mpow_eval)
  show "bits_val 1 [False, True, False, False, True, True] = 83"
    by simp
qed

lemma pw_9463_a83: "pw 9463 3 4731 28388"
  by (rule pw_chain [OF pw_9463_g_0 pw_9463_x83_0]) simp

lemma pw_9463_x83_2_0: "pw 9463 28388 2 56779"
proof (rule mpow_step [where red = "bred 9463 1815478 16 18" and bs = "[False]", OF red_9463 pw_1])
  show "mpow (bred 9463 1815478 16 18) 28388 28388 [False] = 56779"
    by (simp only: mpow_eval)
  show "bits_val 1 [False] = 2"
    by simp
qed

lemma pw_9463_a83_2: "pw 9463 3 9462 56779"
  by (rule pw_chain [OF pw_9463_a83 pw_9463_x83_2_0]) simp

lemma pw_9463_full: "pw 9463 3 9462 1"
  by (rule pw_one [where c = 6, OF pw_9463_a83_2]) simp

lemma pw_9463_x2_0: "pw 9463 47967 2 65510"
proof (rule mpow_step [where red = "bred 9463 1815478 16 18" and bs = "[False]", OF red_9463 pw_1])
  show "mpow (bred 9463 1815478 16 18) 47967 47967 [False] = 65510"
    by (simp only: mpow_eval)
  show "bits_val 1 [False] = 2"
    by simp
qed

lemma pw_9463_a2: "pw 9463 3 114 65510"
  by (rule pw_chain [OF pw_9463_g_0 pw_9463_x2_0]) simp

lemma cop_9463_83: "coprime 65509 (9463 :: nat)"
  by (rule coprime_cert [where u = 6606 and v = 45731]) (simp only: num_eval)

lemma cop_9463_2: "coprime 28387 (9463 :: nat)"
  by (rule coprime_cert [where u = 4731 and v = 14192]) (simp only: num_eval)

lemma prime_9463: "is_prime 9463"
proof (rule prime_by_factors [where F = "83 * 2"])
  show "1 < (9463 :: nat)" by simp
  show "(9463 :: nat) < (83 * 2 + 1) * (83 * 2 + 1)" by simp
  fix r assume r: "is_prime r" "r dvd 9463"
  have d0: "83 dvd r - 1"
    by (rule pock_dvd [where n = 9463 and a = 3 and e = 9462 and k = 114 and y = 65510 and x = 65509,
          OF _ prime_83 pw_9463_full _ _ pw_9463_a2 _ cop_9463_83 r]) simp_all
  have d1: "2 dvd r - 1"
    by (rule pock_dvd [where n = 9463 and a = 3 and e = 9462 and k = 4731 and y = 28388 and x = 28387,
          OF _ prime_2 pw_9463_full _ _ pw_9463_a83 _ cop_9463_2 r]) simp_all
  have c1: "coprime (83) (2 :: nat)"
    using primes_coprime [OF prime_83 prime_2] by simp
  have e1: "83 * 2 dvd r - 1"
    by (rule divides_mult [OF d0 d1 c1])
  show "83 * 2 dvd r - 1" by (rule e1)
qed

text \<open>37853 is prime.\<close>

lemma red_37853: "bred 37853 7261720 18 20 x mod 37853 = x mod 37853"
  by (rule bred_mod) simp

lemma pw_37853_g_0: "pw 37853 2 4 16"
proof (rule mpow_step [where red = "bred 37853 7261720 18 20" and bs = "[False, False]", OF red_37853 pw_1])
  show "mpow (bred 37853 7261720 18 20) 2 2 [False, False] = 16"
    by (simp only: mpow_eval)
  show "bits_val 1 [False, False] = 4"
    by simp
qed

lemma pw_37853_x9463_0: "pw 37853 16 9463 37854"
proof (rule mpow_step [where red = "bred 37853 7261720 18 20" and bs = "[False, False, True, False, False, True, True, True, True, False, True, True, True]", OF red_37853 pw_1])
  show "mpow (bred 37853 7261720 18 20) 16 16 [False, False, True, False, False, True, True, True, True, False, True, True, True] = 37854"
    by (simp only: mpow_eval)
  show "bits_val 1 [False, False, True, False, False, True, True, True, True, False, True, True, True] = 9463"
    by simp
qed

lemma pw_37853_a9463: "pw 37853 2 37852 37854"
  by (rule pw_chain [OF pw_37853_g_0 pw_37853_x9463_0]) simp

lemma pw_37853_full: "pw 37853 2 37852 1"
  by (rule pw_one [where c = 1, OF pw_37853_a9463]) simp

lemma cop_37853_9463: "coprime 15 (37853 :: nat)"
  by (rule coprime_cert [where u = 32806 and v = 13]) (simp only: num_eval)

lemma prime_37853: "is_prime 37853"
proof (rule prime_by_factors [where F = "9463"])
  show "1 < (37853 :: nat)" by simp
  show "(37853 :: nat) < (9463 + 1) * (9463 + 1)" by simp
  fix r assume r: "is_prime r" "r dvd 37853"
  have d0: "9463 dvd r - 1"
    by (rule pock_dvd [where n = 37853 and a = 2 and e = 37852 and k = 4 and y = 16 and x = 15,
          OF _ prime_9463 pw_37853_full _ _ pw_37853_g_0 _ cop_37853_9463 r]) simp_all
  show "9463 dvd r - 1" by (rule d0)
qed

text \<open>75707 is prime.\<close>

lemma red_75707: "bred 75707 14523249 19 21 x mod 75707 = x mod 75707"
  by (rule bred_mod) simp

lemma pw_75707_g_0: "pw 75707 2 2 4"
proof (rule mpow_step [where red = "bred 75707 14523249 19 21" and bs = "[False]", OF red_75707 pw_1])
  show "mpow (bred 75707 14523249 19 21) 2 2 [False] = 4"
    by (simp only: mpow_eval)
  show "bits_val 1 [False] = 2"
    by simp
qed

lemma pw_75707_x37853_0: "pw 75707 4 37853 227122"
proof (rule mpow_step [where red = "bred 75707 14523249 19 21" and bs = "[False, False, True, False, False, True, True, True, True, False, True, True, True, False, True]", OF red_75707 pw_1])
  show "mpow (bred 75707 14523249 19 21) 4 4 [False, False, True, False, False, True, True, True, True, False, True, True, True, False, True] = 227122"
    by (simp only: mpow_eval)
  show "bits_val 1 [False, False, True, False, False, True, True, True, True, False, True, True, True, False, True] = 37853"
    by simp
qed

lemma pw_75707_a37853: "pw 75707 2 75706 227122"
  by (rule pw_chain [OF pw_75707_g_0 pw_75707_x37853_0]) simp

lemma pw_75707_full: "pw 75707 2 75706 1"
  by (rule pw_one [where c = 3, OF pw_75707_a37853]) simp

lemma cop_75707_37853: "coprime 3 (75707 :: nat)"
  by (rule coprime_cert [where u = 25236 and v = 1]) (simp only: num_eval)

lemma prime_75707: "is_prime 75707"
proof (rule prime_by_factors [where F = "37853"])
  show "1 < (75707 :: nat)" by simp
  show "(75707 :: nat) < (37853 + 1) * (37853 + 1)" by simp
  fix r assume r: "is_prime r" "r dvd 75707"
  have d0: "37853 dvd r - 1"
    by (rule pock_dvd [where n = 75707 and a = 2 and e = 75706 and k = 2 and y = 4 and x = 3,
          OF _ prime_37853 pw_75707_full _ _ pw_75707_g_0 _ cop_75707_37853 r]) simp_all
  show "37853 dvd r - 1" by (rule d0)
qed

text \<open>75445702479781427272750846543864801 is prime.\<close>

lemma red_q116: "bred 75445702479781427272750846543864801 5854697506633591353062686705279598738 118 120 x mod 75445702479781427272750846543864801 = x mod 75445702479781427272750846543864801"
  by (rule bred_mod) simp

lemma pw_q116_g_0: "pw 75445702479781427272750846543864801 2 7921838693 289379960442659647182984217469235536"
proof (rule mpow_step [where red = "bred 75445702479781427272750846543864801 5854697506633591353062686705279598738 118 120" and bs = "[True, True, False, True, True, False, False, False, False, False, True, False, True, True, False, True, True, False, True, False, True, False, True, False, False, True, True, False, False, True, False, True]", OF red_q116 pw_1])
  show "mpow (bred 75445702479781427272750846543864801 5854697506633591353062686705279598738 118 120) 2 2 [True, True, False, True, True, False, False, False, False, False, True, False, True, True, False, True, True, False, True, False, True, False, True, False, False, True, True, False, False, True, False, True] = 289379960442659647182984217469235536"
    by (simp only: mpow_eval)
  show "bits_val 1 [True, True, False, True, True, False, False, False, False, False, True, False, True, True, False, True, True, False, True, False, True, False, True, False, False, True, True, False, False, True, False, True] = 7921838693"
    by simp
qed

lemma pw_q116_g_1: "pw 75445702479781427272750846543864801 2 519165620632800 217520189510190067446006566844824353"
proof (rule mpow_step [where red = "bred 75445702479781427272750846543864801 5854697506633591353062686705279598738 118 120" and bs = "[True, False, True, True, True, True, False, False, True, True, True, False, False, False, False, False]", OF red_q116 pw_q116_g_0])
  show "mpow (bred 75445702479781427272750846543864801 5854697506633591353062686705279598738 118 120) 2 289379960442659647182984217469235536 [True, False, True, True, True, True, False, False, True, True, True, False, False, False, False, False] = 217520189510190067446006566844824353"
    by (simp only: mpow_eval)
  show "bits_val 7921838693 [True, False, True, True, True, True, False, False, True, True, True, False, False, False, False, False] = 519165620632800"
    by simp
qed

lemma pw_q116_xq51_0: "pw 75445702479781427272750846543864801 217520189510190067446006566844824353 7322386052 177487893794186448118108968347941758"
proof (rule mpow_step [where red = "bred 75445702479781427272750846543864801 5854697506633591353062686705279598738 118 120" and bs = "[True, False, True, True, False, True, False, False, False, True, True, True, False, False, True, False, True, False, True, True, True, True, True, False, True, False, False, False, False, True, False, False]", OF red_q116 pw_1])
  show "mpow (bred 75445702479781427272750846543864801 5854697506633591353062686705279598738 118 120) 217520189510190067446006566844824353 217520189510190067446006566844824353 [True, False, True, True, False, True, False, False, False, True, True, True, False, False, True, False, True, False, True, True, True, True, True, False, True, False, False, False, False, True, False, False] = 177487893794186448118108968347941758"
    by (simp only: mpow_eval)
  show "bits_val 1 [True, False, True, True, False, True, False, False, False, True, True, True, False, False, True, False, True, False, True, True, True, True, True, False, True, False, False, False, False, True, False, False] = 7322386052"
    by simp
qed

lemma pw_q116_xq51_1: "pw 75445702479781427272750846543864801 217520189510190067446006566844824353 1919519569386763 209673104254463689098780941989697240"
proof (rule mpow_step [where red = "bred 75445702479781427272750846543864801 5854697506633591353062686705279598738 118 120" and bs = "[True, False, True, False, False, True, True, True, False, True, False, False, False, False, True, False, True, True]", OF red_q116 pw_q116_xq51_0])
  show "mpow (bred 75445702479781427272750846543864801 5854697506633591353062686705279598738 118 120) 217520189510190067446006566844824353 177487893794186448118108968347941758 [True, False, True, False, False, True, True, True, False, True, False, False, False, False, True, False, True, True] = 209673104254463689098780941989697240"
    by (simp only: mpow_eval)
  show "bits_val 7322386052 [True, False, True, False, False, True, True, True, False, True, False, False, False, False, True, False, True, True] = 1919519569386763"
    by simp
qed

lemma pw_q116_aq51: "pw 75445702479781427272750846543864801 2 996548568557483816196003626400 209673104254463689098780941989697240"
  by (rule pw_chain [OF pw_q116_g_1 pw_q116_xq51_1]) simp

lemma pw_q116_xq51_75707_0: "pw 75445702479781427272750846543864801 209673104254463689098780941989697240 75707 377228512398907136363754232719324006"
proof (rule mpow_step [where red = "bred 75445702479781427272750846543864801 5854697506633591353062686705279598738 118 120" and bs = "[False, False, True, False, False, True, True, True, True, False, True, True, True, False, True, True]", OF red_q116 pw_1])
  show "mpow (bred 75445702479781427272750846543864801 5854697506633591353062686705279598738 118 120) 209673104254463689098780941989697240 209673104254463689098780941989697240 [False, False, True, False, False, True, True, True, True, False, True, True, True, False, True, True] = 377228512398907136363754232719324006"
    by (simp only: mpow_eval)
  show "bits_val 1 [False, False, True, False, False, True, True, True, True, False, True, True, True, False, True, True] = 75707"
    by simp
qed

lemma pw_q116_aq51_75707: "pw 75445702479781427272750846543864801 2 75445702479781427272750846543864800 377228512398907136363754232719324006"
  by (rule pw_chain [OF pw_q116_aq51 pw_q116_xq51_75707_0]) simp

lemma pw_q116_full: "pw 75445702479781427272750846543864801 2 75445702479781427272750846543864800 1"
  by (rule pw_one [where c = 5, OF pw_q116_aq51_75707]) simp

lemma pw_q116_x75707_0: "pw 75445702479781427272750846543864801 217520189510190067446006566844824353 75707 207638421214716187504849459479813061"
proof (rule mpow_step [where red = "bred 75445702479781427272750846543864801 5854697506633591353062686705279598738 118 120" and bs = "[False, False, True, False, False, True, True, True, True, False, True, True, True, False, True, True]", OF red_q116 pw_1])
  show "mpow (bred 75445702479781427272750846543864801 5854697506633591353062686705279598738 118 120) 217520189510190067446006566844824353 217520189510190067446006566844824353 [False, False, True, False, False, True, True, True, True, False, True, True, True, False, True, True] = 207638421214716187504849459479813061"
    by (simp only: mpow_eval)
  show "bits_val 1 [False, False, True, False, False, True, True, True, True, False, True, True, True, False, True, True] = 75707"
    by simp
qed

lemma pw_q116_a75707: "pw 75445702479781427272750846543864801 2 39304471641247389600 207638421214716187504849459479813061"
  by (rule pw_chain [OF pw_q116_g_1 pw_q116_x75707_0]) simp

lemma cop_q116_q51: "coprime 207638421214716187504849459479813060 (75445702479781427272750846543864801 :: nat)"
  by (rule coprime_cert [where u = 74602835786463724888147869570305675 and v = 205318719710951183116292337249540299]) (simp only: num_eval)

lemma cop_q116_75707: "coprime 209673104254463689098780941989697239 (75445702479781427272750846543864801 :: nat)"
  by (rule coprime_cert [where u = 8986369574106813140303762220009459 and v = 24974252245656828862389027610423700]) (simp only: num_eval)

lemma prime_q116: "is_prime 75445702479781427272750846543864801"
proof (rule prime_by_factors [where F = "1919519569386763 * 75707"])
  show "1 < (75445702479781427272750846543864801 :: nat)" by simp
  show "(75445702479781427272750846543864801 :: nat) < (1919519569386763 * 75707 + 1) * (1919519569386763 * 75707 + 1)" by simp
  fix r assume r: "is_prime r" "r dvd 75445702479781427272750846543864801"
  have d0: "1919519569386763 dvd r - 1"
    by (rule pock_dvd [where n = 75445702479781427272750846543864801 and a = 2 and e = 75445702479781427272750846543864800 and k = 39304471641247389600 and y = 207638421214716187504849459479813061 and x = 207638421214716187504849459479813060,
          OF _ prime_q51 pw_q116_full _ _ pw_q116_a75707 _ cop_q116_q51 r]) simp_all
  have d1: "75707 dvd r - 1"
    by (rule pock_dvd [where n = 75445702479781427272750846543864801 and a = 2 and e = 75445702479781427272750846543864800 and k = 996548568557483816196003626400 and y = 209673104254463689098780941989697240 and x = 209673104254463689098780941989697239,
          OF _ prime_75707 pw_q116_full _ _ pw_q116_aq51 _ cop_q116_75707 r]) simp_all
  have c1: "coprime (1919519569386763) (75707 :: nat)"
    using primes_coprime [OF prime_q51 prime_75707] by simp
  have e1: "1919519569386763 * 75707 dvd r - 1"
    by (rule divides_mult [OF d0 d1 c1])
  show "1919519569386763 * 75707 dvd r - 1" by (rule e1)
qed

text \<open>353 is prime.\<close>

lemma red_353: "bred 353 47527 11 13 x mod 353 = x mod 353"
  by (rule bred_mod) simp

lemma pw_353_g_0: "pw 353 3 16 489"
proof (rule mpow_step [where red = "bred 353 47527 11 13" and bs = "[False, False, False, False]", OF red_353 pw_1])
  show "mpow (bred 353 47527 11 13) 3 3 [False, False, False, False] = 489"
    by (simp only: mpow_eval)
  show "bits_val 1 [False, False, False, False] = 16"
    by simp
qed

lemma pw_353_x11_0: "pw 353 489 11 1411"
proof (rule mpow_step [where red = "bred 353 47527 11 13" and bs = "[False, True, True]", OF red_353 pw_1])
  show "mpow (bred 353 47527 11 13) 489 489 [False, True, True] = 1411"
    by (simp only: mpow_eval)
  show "bits_val 1 [False, True, True] = 11"
    by simp
qed

lemma pw_353_a11: "pw 353 3 176 1411"
  by (rule pw_chain [OF pw_353_g_0 pw_353_x11_0]) simp

lemma pw_353_x11_2_0: "pw 353 1411 2 354"
proof (rule mpow_step [where red = "bred 353 47527 11 13" and bs = "[False]", OF red_353 pw_1])
  show "mpow (bred 353 47527 11 13) 1411 1411 [False] = 354"
    by (simp only: mpow_eval)
  show "bits_val 1 [False] = 2"
    by simp
qed

lemma pw_353_a11_2: "pw 353 3 352 354"
  by (rule pw_chain [OF pw_353_a11 pw_353_x11_2_0]) simp

lemma pw_353_full: "pw 353 3 352 1"
  by (rule pw_one [where c = 1, OF pw_353_a11_2]) simp

lemma pw_353_x2_0: "pw 353 489 2 1905"
proof (rule mpow_step [where red = "bred 353 47527 11 13" and bs = "[False]", OF red_353 pw_1])
  show "mpow (bred 353 47527 11 13) 489 489 [False] = 1905"
    by (simp only: mpow_eval)
  show "bits_val 1 [False] = 2"
    by simp
qed

lemma pw_353_a2: "pw 353 3 32 1905"
  by (rule pw_chain [OF pw_353_g_0 pw_353_x2_0]) simp

lemma cop_353_11: "coprime 1904 (353 :: nat)"
  by (rule coprime_cert [where u = 160 and v = 863]) (simp only: num_eval)

lemma cop_353_2: "coprime 1410 (353 :: nat)"
  by (rule coprime_cert [where u = 176 and v = 703]) (simp only: num_eval)

lemma prime_353: "is_prime 353"
proof (rule prime_by_factors [where F = "11 * 2"])
  show "1 < (353 :: nat)" by simp
  show "(353 :: nat) < (11 * 2 + 1) * (11 * 2 + 1)" by simp
  fix r assume r: "is_prime r" "r dvd 353"
  have d0: "11 dvd r - 1"
    by (rule pock_dvd [where n = 353 and a = 3 and e = 352 and k = 32 and y = 1905 and x = 1904,
          OF _ prime_11 pw_353_full _ _ pw_353_a2 _ cop_353_11 r]) simp_all
  have d1: "2 dvd r - 1"
    by (rule pock_dvd [where n = 353 and a = 3 and e = 352 and k = 176 and y = 1411 and x = 1410,
          OF _ prime_2 pw_353_full _ _ pw_353_a11 _ cop_353_2 r]) simp_all
  have c1: "coprime (11) (2 :: nat)"
    using primes_coprime [OF prime_11 prime_2] by simp
  have e1: "11 * 2 dvd r - 1"
    by (rule divides_mult [OF d0 d1 c1])
  show "11 * 2 dvd r - 1" by (rule e1)
qed

text \<open>74058212732561358302231226437062788676166966415465897661863160754340907 is prime.\<close>

lemma red_q236: "bred 74058212732561358302231226437062788676166966415465897661863160754340907 10538157873149176384219032191244407276972634286171504052558741381434048512 238 240 x mod 74058212732561358302231226437062788676166966415465897661863160754340907 = x mod 74058212732561358302231226437062788676166966415465897661863160754340907"
  by (rule bred_mod) simp

lemma pw_q236_g_0: "pw 74058212732561358302231226437062788676166966415465897661863160754340907 2 4600386892 195961028535826489967126365420143414087461850785281310899732552308519088"
proof (rule mpow_step [where red = "bred 74058212732561358302231226437062788676166966415465897661863160754340907 10538157873149176384219032191244407276972634286171504052558741381434048512 238 240" and bs = "[False, False, False, True, False, False, True, False, False, False, True, True, False, True, False, False, False, True, False, True, False, True, False, True, False, True, False, False, True, True, False, False]", OF red_q236 pw_1])
  show "mpow (bred 74058212732561358302231226437062788676166966415465897661863160754340907 10538157873149176384219032191244407276972634286171504052558741381434048512 238 240) 2 2 [False, False, False, True, False, False, True, False, False, False, True, True, False, True, False, False, False, True, False, True, False, True, False, True, False, True, False, False, True, True, False, False] = 195961028535826489967126365420143414087461850785281310899732552308519088"
    by (simp only: mpow_eval)
  show "bits_val 1 [False, False, False, True, False, False, True, False, False, False, True, True, False, True, False, False, False, True, False, True, False, True, False, True, False, True, False, False, True, True, False, False] = 4600386892"
    by simp
qed

lemma pw_q236_g_1: "pw 74058212732561358302231226437062788676166966415465897661863160754340907 2 19758511253661849713 322548422711140238142279941941536097007538781826877474808879070261284743"
proof (rule mpow_step [where red = "bred 74058212732561358302231226437062788676166966415465897661863160754340907 10538157873149176384219032191244407276972634286171504052558741381434048512 238 240" and bs = "[True, True, False, True, False, True, False, True, False, False, False, True, False, False, True, False, True, False, False, True, True, False, False, False, False, True, True, True, False, False, False, True]", OF red_q236 pw_q236_g_0])
  show "mpow (bred 74058212732561358302231226437062788676166966415465897661863160754340907 10538157873149176384219032191244407276972634286171504052558741381434048512 238 240) 2 195961028535826489967126365420143414087461850785281310899732552308519088 [True, True, False, True, False, True, False, True, False, False, False, True, False, False, True, False, True, False, False, True, True, False, False, False, False, True, True, True, False, False, False, True] = 322548422711140238142279941941536097007538781826877474808879070261284743"
    by (simp only: mpow_eval)
  show "bits_val 4600386892 [True, True, False, True, False, True, False, True, False, False, False, True, False, False, True, False, True, False, False, True, True, False, False, False, False, True, True, True, False, False, False, True] = 19758511253661849713"
    by simp
qed

lemma pw_q236_g_2: "pw 74058212732561358302231226437062788676166966415465897661863160754340907 2 84862159652125604762004375653 373348211911714232876371861419547492039331255017999117830442108314864545"
proof (rule mpow_step [where red = "bred 74058212732561358302231226437062788676166966415465897661863160754340907 10538157873149176384219032191244407276972634286171504052558741381434048512 238 240" and bs = "[False, True, True, False, True, False, True, True, False, True, True, False, True, True, True, False, False, True, False, False, True, False, False, False, False, True, True, False, False, True, False, True]", OF red_q236 pw_q236_g_1])
  show "mpow (bred 74058212732561358302231226437062788676166966415465897661863160754340907 10538157873149176384219032191244407276972634286171504052558741381434048512 238 240) 2 322548422711140238142279941941536097007538781826877474808879070261284743 [False, True, True, False, True, False, True, True, False, True, True, False, True, True, True, False, False, True, False, False, True, False, False, False, False, True, True, False, False, True, False, True] = 373348211911714232876371861419547492039331255017999117830442108314864545"
    by (simp only: mpow_eval)
  show "bits_val 19758511253661849713 [False, True, True, False, True, False, True, True, False, True, True, False, True, True, True, False, False, True, False, False, True, False, False, False, False, True, True, False, False, True, False, True] = 84862159652125604762004375653"
    by simp
qed

lemma pw_q236_g_3: "pw 74058212732561358302231226437062788676166966415465897661863160754340907 2 2780763247480851816841359381413802 321918933768896938220294945008842038033900503113320862312427006727990466"
proof (rule mpow_step [where red = "bred 74058212732561358302231226437062788676166966415465897661863160754340907 10538157873149176384219032191244407276972634286171504052558741381434048512 238 240" and bs = "[False, True, True, True, True, True, True, True, False, True, False, True, False, True, False]", OF red_q236 pw_q236_g_2])
  show "mpow (bred 74058212732561358302231226437062788676166966415465897661863160754340907 10538157873149176384219032191244407276972634286171504052558741381434048512 238 240) 2 373348211911714232876371861419547492039331255017999117830442108314864545 [False, True, True, True, True, True, True, True, False, True, False, True, False, True, False] = 321918933768896938220294945008842038033900503113320862312427006727990466"
    by (simp only: mpow_eval)
  show "bits_val 84862159652125604762004375653 [False, True, True, True, True, True, True, True, False, True, False, True, False, True, False] = 2780763247480851816841359381413802"
    by simp
qed

lemma pw_q236_xq116_0: "pw 74058212732561358302231226437062788676166966415465897661863160754340907 321918933768896938220294945008842038033900503113320862312427006727990466 7800902798 220778867929966623488086482581441771807794211237168881100181830619337405"
proof (rule mpow_step [where red = "bred 74058212732561358302231226437062788676166966415465897661863160754340907 10538157873149176384219032191244407276972634286171504052558741381434048512 238 240" and bs = "[True, True, False, True, False, False, False, False, True, True, True, True, True, False, False, False, False, True, False, True, False, True, False, False, True, False, False, False, True, True, True, False]", OF red_q236 pw_1])
  show "mpow (bred 74058212732561358302231226437062788676166966415465897661863160754340907 10538157873149176384219032191244407276972634286171504052558741381434048512 238 240) 321918933768896938220294945008842038033900503113320862312427006727990466 321918933768896938220294945008842038033900503113320862312427006727990466 [True, True, False, True, False, False, False, False, True, True, True, True, True, False, False, False, False, True, False, True, False, True, False, False, True, False, False, False, True, True, True, False] = 220778867929966623488086482581441771807794211237168881100181830619337405"
    by (simp only: mpow_eval)
  show "bits_val 1 [True, True, False, True, False, False, False, False, True, True, True, True, True, False, False, False, False, True, False, True, False, True, False, False, True, False, False, False, True, True, True, False] = 7800902798"
    by simp
qed

lemma pw_q236_xq116_1: "pw 74058212732561358302231226437062788676166966415465897661863160754340907 321918933768896938220294945008842038033900503113320862312427006727990466 33504622400829043759 135927264699827660880276776745905859210954471662366704110021320290936625"
proof (rule mpow_step [where red = "bred 74058212732561358302231226437062788676166966415465897661863160754340907 10538157873149176384219032191244407276972634286171504052558741381434048512 238 240" and bs = "[True, True, True, True, False, True, True, True, False, False, False, False, False, False, True, False, True, False, True, True, False, True, False, False, False, False, True, False, True, True, True, True]", OF red_q236 pw_q236_xq116_0])
  show "mpow (bred 74058212732561358302231226437062788676166966415465897661863160754340907 10538157873149176384219032191244407276972634286171504052558741381434048512 238 240) 321918933768896938220294945008842038033900503113320862312427006727990466 220778867929966623488086482581441771807794211237168881100181830619337405 [True, True, True, True, False, True, True, True, False, False, False, False, False, False, True, False, True, False, True, True, False, True, False, False, False, False, True, False, True, True, True, True] = 135927264699827660880276776745905859210954471662366704110021320290936625"
    by (simp only: mpow_eval)
  show "bits_val 7800902798 [True, True, True, True, False, True, True, True, False, False, False, False, False, False, True, False, True, False, True, True, False, True, False, False, False, False, True, False, True, True, True, True] = 33504622400829043759"
    by simp
qed

lemma pw_q236_xq116_2: "pw 74058212732561358302231226437062788676166966415465897661863160754340907 321918933768896938220294945008842038033900503113320862312427006727990466 143901257476389746232511227691 228726470975771179912533644456864738280904272247837552985050942361025777"
proof (rule mpow_step [where red = "bred 74058212732561358302231226437062788676166966415465897661863160754340907 10538157873149176384219032191244407276972634286171504052558741381434048512 238 240" and bs = "[False, False, True, False, False, True, True, False, True, True, True, True, False, False, False, False, True, True, True, False, False, True, True, True, False, False, True, False, True, False, True, True]", OF red_q236 pw_q236_xq116_1])
  show "mpow (bred 74058212732561358302231226437062788676166966415465897661863160754340907 10538157873149176384219032191244407276972634286171504052558741381434048512 238 240) 321918933768896938220294945008842038033900503113320862312427006727990466 135927264699827660880276776745905859210954471662366704110021320290936625 [False, False, True, False, False, True, True, False, True, True, True, True, False, False, False, False, True, True, True, False, False, True, True, True, False, False, True, False, True, False, True, True] = 228726470975771179912533644456864738280904272247837552985050942361025777"
    by (simp only: mpow_eval)
  show "bits_val 33504622400829043759 [False, False, True, False, False, True, True, False, True, True, True, True, False, False, False, False, True, True, True, False, False, True, True, True, False, False, True, False, True, False, True, True] = 143901257476389746232511227691"
    by simp
qed

lemma pw_q236_xq116_3: "pw 74058212732561358302231226437062788676166966415465897661863160754340907 321918933768896938220294945008842038033900503113320862312427006727990466 75445702479781427272750846543864801 304795767817111651994613210294415343183555924555592899836284139265202704"
proof (rule mpow_step [where red = "bred 74058212732561358302231226437062788676166966415465897661863160754340907 10538157873149176384219032191244407276972634286171504052558741381434048512 238 240" and bs = "[False, True, True, False, False, True, False, False, False, True, True, True, True, True, False, False, False, False, True]", OF red_q236 pw_q236_xq116_2])
  show "mpow (bred 74058212732561358302231226437062788676166966415465897661863160754340907 10538157873149176384219032191244407276972634286171504052558741381434048512 238 240) 321918933768896938220294945008842038033900503113320862312427006727990466 228726470975771179912533644456864738280904272247837552985050942361025777 [False, True, True, False, False, True, False, False, False, True, True, True, True, True, False, False, False, False, True] = 304795767817111651994613210294415343183555924555592899836284139265202704"
    by (simp only: mpow_eval)
  show "bits_val 143901257476389746232511227691 [False, True, True, False, False, True, False, False, False, True, True, True, True, True, False, False, False, False, True] = 75445702479781427272750846543864801"
    by simp
qed

lemma pw_q236_aq116: "pw 74058212732561358302231226437062788676166966415465897661863160754340907 2 209796636636151156663544550813209033076960244803019540118592523383402 304795767817111651994613210294415343183555924555592899836284139265202704"
  by (rule pw_chain [OF pw_q236_g_3 pw_q236_xq116_3]) simp

lemma pw_q236_xq116_353_0: "pw 74058212732561358302231226437062788676166966415465897661863160754340907 304795767817111651994613210294415343183555924555592899836284139265202704 353 370291063662806791511156132185313943380834832077329488309315803771704536"
proof (rule mpow_step [where red = "bred 74058212732561358302231226437062788676166966415465897661863160754340907 10538157873149176384219032191244407276972634286171504052558741381434048512 238 240" and bs = "[False, True, True, False, False, False, False, True]", OF red_q236 pw_1])
  show "mpow (bred 74058212732561358302231226437062788676166966415465897661863160754340907 10538157873149176384219032191244407276972634286171504052558741381434048512 238 240) 304795767817111651994613210294415343183555924555592899836284139265202704 304795767817111651994613210294415343183555924555592899836284139265202704 [False, True, True, False, False, False, False, True] = 370291063662806791511156132185313943380834832077329488309315803771704536"
    by (simp only: mpow_eval)
  show "bits_val 1 [False, True, True, False, False, False, False, True] = 353"
    by simp
qed

lemma pw_q236_aq116_353: "pw 74058212732561358302231226437062788676166966415465897661863160754340907 2 74058212732561358302231226437062788676166966415465897661863160754340906 370291063662806791511156132185313943380834832077329488309315803771704536"
  by (rule pw_chain [OF pw_q236_aq116 pw_q236_xq116_353_0]) simp

lemma pw_q236_full: "pw 74058212732561358302231226437062788676166966415465897661863160754340907 2 74058212732561358302231226437062788676166966415465897661863160754340906 1"
  by (rule pw_one [where c = 5, OF pw_q236_aq116_353]) simp

lemma pw_q236_x353_0: "pw 74058212732561358302231226437062788676166966415465897661863160754340907 321918933768896938220294945008842038033900503113320862312427006727990466 353 143549022442910037027967824360134573445758241834853412356002499341289267"
proof (rule mpow_step [where red = "bred 74058212732561358302231226437062788676166966415465897661863160754340907 10538157873149176384219032191244407276972634286171504052558741381434048512 238 240" and bs = "[False, True, True, False, False, False, False, True]", OF red_q236 pw_1])
  show "mpow (bred 74058212732561358302231226437062788676166966415465897661863160754340907 10538157873149176384219032191244407276972634286171504052558741381434048512 238 240) 321918933768896938220294945008842038033900503113320862312427006727990466 321918933768896938220294945008842038033900503113320862312427006727990466 [False, True, True, False, False, False, False, True] = 143549022442910037027967824360134573445758241834853412356002499341289267"
    by (simp only: mpow_eval)
  show "bits_val 1 [False, True, True, False, False, False, False, True] = 353"
    by simp
qed

lemma pw_q236_a353: "pw 74058212732561358302231226437062788676166966415465897661863160754340907 2 981609426360740691344999861639072106 143549022442910037027967824360134573445758241834853412356002499341289267"
  by (rule pw_chain [OF pw_q236_g_3 pw_q236_x353_0]) simp

lemma cop_q236_q116: "coprime 143549022442910037027967824360134573445758241834853412356002499341289266 (74058212732561358302231226437062788676166966415465897661863160754340907 :: nat)"
  by (rule coprime_cert [where u = 70463328703800545008217672123162676565183935400628861884889913886334520 and v = 136580962195658683469611413900812535587668186987855916800302518265776717]) (simp only: num_eval)

lemma cop_q236_353: "coprime 304795767817111651994613210294415343183555924555592899836284139265202703 (74058212732561358302231226437062788676166966415465897661863160754340907 :: nat)"
  by (rule coprime_cert [where u = 37940283535957283147790493383286696582099159842122763948555891970476459 and v = 156147946660568419498255056808603842433286581057371655210195553548941068]) (simp only: num_eval)

lemma prime_q236: "is_prime 74058212732561358302231226437062788676166966415465897661863160754340907"
proof (rule prime_by_factors [where F = "75445702479781427272750846543864801 * 353"])
  show "1 < (74058212732561358302231226437062788676166966415465897661863160754340907 :: nat)" by simp
  show "(74058212732561358302231226437062788676166966415465897661863160754340907 :: nat) < (75445702479781427272750846543864801 * 353 + 1) * (75445702479781427272750846543864801 * 353 + 1)" by simp
  fix r assume r: "is_prime r" "r dvd 74058212732561358302231226437062788676166966415465897661863160754340907"
  have d0: "75445702479781427272750846543864801 dvd r - 1"
    by (rule pock_dvd [where n = 74058212732561358302231226437062788676166966415465897661863160754340907 and a = 2 and e = 74058212732561358302231226437062788676166966415465897661863160754340906 and k = 981609426360740691344999861639072106 and y = 143549022442910037027967824360134573445758241834853412356002499341289267 and x = 143549022442910037027967824360134573445758241834853412356002499341289266,
          OF _ prime_q116 pw_q236_full _ _ pw_q236_a353 _ cop_q236_q116 r]) simp_all
  have d1: "353 dvd r - 1"
    by (rule pock_dvd [where n = 74058212732561358302231226437062788676166966415465897661863160754340907 and a = 2 and e = 74058212732561358302231226437062788676166966415465897661863160754340906 and k = 209796636636151156663544550813209033076960244803019540118592523383402 and y = 304795767817111651994613210294415343183555924555592899836284139265202704 and x = 304795767817111651994613210294415343183555924555592899836284139265202703,
          OF _ prime_353 pw_q236_full _ _ pw_q236_aq116 _ cop_q236_353 r]) simp_all
  have c1: "coprime (75445702479781427272750846543864801) (353 :: nat)"
    using primes_coprime [OF prime_q116 prime_353] by simp
  have e1: "75445702479781427272750846543864801 * 353 dvd r - 1"
    by (rule divides_mult [OF d0 d1 c1])
  show "75445702479781427272750846543864801 * 353 dvd r - 1" by (rule e1)
qed

text \<open>57896044618658097711785492504343953926634992332820282019728792003956564819949 is prime.\<close>

lemma red_p: "fold_red2 19 255 x mod 57896044618658097711785492504343953926634992332820282019728792003956564819949 = x mod 57896044618658097711785492504343953926634992332820282019728792003956564819949"
  by (rule fold_red2_mod) simp

lemma pw_p_g_0: "pw 57896044618658097711785492504343953926634992332820282019728792003956564819949 2 781764 427094198651976259540344842774561673889945192655078505504941250475370961481"
proof (rule mpow_step [where red = "fold_red2 19 255" and bs = "[False, True, True, True, True, True, False, True, True, False, True, True, True, False, False, False, True, False, False]", OF red_p pw_1])
  show "mpow (fold_red2 19 255) 2 2 [False, True, True, True, True, True, False, True, True, False, True, True, True, False, False, False, True, False, False] = 427094198651976259540344842774561673889945192655078505504941250475370961481"
    by (simp only: mpow_eval)
  show "bits_val 1 [False, True, True, True, True, True, False, True, True, False, True, True, True, False, False, False, True, False, False] = 781764"
    by simp
qed

lemma pw_p_xq236_0: "pw 57896044618658097711785492504343953926634992332820282019728792003956564819949 427094198651976259540344842774561673889945192655078505504941250475370961481 5760817366 27143910601110349143206876423926992600671392057274617250910455765128494361521"
proof (rule mpow_step [where red = "fold_red2 19 255" and bs = "[False, True, False, True, False, True, True, True, False, True, False, True, True, True, True, True, False, False, False, True, True, False, False, False, True, True, False, True, False, True, True, False]", OF red_p pw_1])
  show "mpow (fold_red2 19 255) 427094198651976259540344842774561673889945192655078505504941250475370961481 427094198651976259540344842774561673889945192655078505504941250475370961481 [False, True, False, True, False, True, True, True, False, True, False, True, True, True, True, True, False, False, False, True, True, False, False, False, True, True, False, True, False, True, True, False] = 27143910601110349143206876423926992600671392057274617250910455765128494361521"
    by (simp only: mpow_eval)
  show "bits_val 1 [False, True, False, True, False, True, True, True, False, True, False, True, True, True, True, True, False, False, False, True, True, False, False, False, True, True, False, True, False, True, True, False] = 5760817366"
    by simp
qed

lemma pw_p_xq236_1: "pw 57896044618658097711785492504343953926634992332820282019728792003956564819949 427094198651976259540344842774561673889945192655078505504941250475370961481 24742522185511313894 30492838542768468573451822991558255628888822711841750278965777210605666241093"
proof (rule mpow_step [where red = "fold_red2 19 255" and bs = "[False, False, False, True, False, False, True, False, True, False, False, True, True, True, True, True, True, False, True, False, False, False, False, True, True, True, True, False, False, True, True, False]", OF red_p pw_p_xq236_0])
  show "mpow (fold_red2 19 255) 427094198651976259540344842774561673889945192655078505504941250475370961481 27143910601110349143206876423926992600671392057274617250910455765128494361521 [False, False, False, True, False, False, True, False, True, False, False, True, True, True, True, True, True, False, True, False, False, False, False, True, True, True, True, False, False, True, True, False] = 30492838542768468573451822991558255628888822711841750278965777210605666241093"
    by (simp only: mpow_eval)
  show "bits_val 5760817366 [False, False, False, True, False, False, True, False, True, False, False, True, True, True, True, True, True, False, True, False, False, False, False, True, True, True, True, False, False, True, True, False] = 24742522185511313894"
    by simp
qed

lemma pw_p_xq236_2: "pw 57896044618658097711785492504343953926634992332820282019728792003956564819949 427094198651976259540344842774561673889945192655078505504941250475370961481 106268323607325538214202676597 39079945980709552727829154126448901845503137050084226364366802750329737593555"
proof (rule mpow_step [where red = "fold_red2 19 255" and bs = "[False, True, False, True, True, False, False, False, False, True, False, True, True, False, False, True, True, False, False, True, False, True, False, True, False, True, True, True, False, True, False, True]", OF red_p pw_p_xq236_1])
  show "mpow (fold_red2 19 255) 427094198651976259540344842774561673889945192655078505504941250475370961481 30492838542768468573451822991558255628888822711841750278965777210605666241093 [False, True, False, True, True, False, False, False, False, True, False, True, True, False, False, True, True, False, False, True, False, True, False, True, False, True, True, True, False, True, False, True] = 39079945980709552727829154126448901845503137050084226364366802750329737593555"
    by (simp only: mpow_eval)
  show "bits_val 24742522185511313894 [False, True, False, True, True, False, False, False, False, True, False, True, True, False, False, True, True, False, False, True, False, True, False, True, False, True, True, True, False, True, False, True] = 106268323607325538214202676597"
    by simp
qed

lemma pw_p_xq236_3: "pw 57896044618658097711785492504343953926634992332820282019728792003956564819949 427094198651976259540344842774561673889945192655078505504941250475370961481 456418974494207932655598738701671839705 1488494668328016750261131181279409465032430910088781867619461241790932999746"
proof (rule mpow_step [where red = "fold_red2 19 255" and bs = "[False, True, True, True, False, False, False, False, True, True, False, False, True, False, False, True, True, False, True, True, False, True, True, True, True, True, False, True, True, False, False, True]", OF red_p pw_p_xq236_2])
  show "mpow (fold_red2 19 255) 427094198651976259540344842774561673889945192655078505504941250475370961481 39079945980709552727829154126448901845503137050084226364366802750329737593555 [False, True, True, True, False, False, False, False, True, True, False, False, True, False, False, True, True, False, True, True, False, True, True, True, True, True, False, True, True, False, False, True] = 1488494668328016750261131181279409465032430910088781867619461241790932999746"
    by (simp only: mpow_eval)
  show "bits_val 106268323607325538214202676597 [False, True, True, True, False, False, False, False, True, True, False, False, True, False, False, True, True, False, True, True, False, True, True, True, True, True, False, True, True, False, False, True] = 456418974494207932655598738701671839705"
    by simp
qed

lemma pw_p_xq236_4: "pw 57896044618658097711785492504343953926634992332820282019728792003956564819949 427094198651976259540344842774561673889945192655078505504941250475370961481 1960304568726481212179567014022530052060134672591 43212696407549048340183088799881863943380797803870698773975049607352091859437"
proof (rule mpow_step [where red = "fold_red2 19 255" and bs = "[True, False, True, True, False, False, True, True, False, False, True, False, False, False, True, False, True, False, False, False, True, False, False, False, True, True, False, False, True, True, True, True]", OF red_p pw_p_xq236_3])
  show "mpow (fold_red2 19 255) 427094198651976259540344842774561673889945192655078505504941250475370961481 1488494668328016750261131181279409465032430910088781867619461241790932999746 [True, False, True, True, False, False, True, True, False, False, True, False, False, False, True, False, True, False, False, False, True, False, False, False, True, True, False, False, True, True, True, True] = 43212696407549048340183088799881863943380797803870698773975049607352091859437"
    by (simp only: mpow_eval)
  show "bits_val 456418974494207932655598738701671839705 [True, False, True, True, False, False, True, True, False, False, True, False, False, False, True, False, True, False, False, False, True, False, False, False, True, True, False, False, True, True, True, True] = 1960304568726481212179567014022530052060134672591"
    by simp
qed

lemma pw_p_xq236_5: "pw 57896044618658097711785492504343953926634992332820282019728792003956564819949 427094198651976259540344842774561673889945192655078505504941250475370961481 8419444012879621175469677204667139980775455844134955630336 44423846786210531268020608428341574670565282455433269933391855555936280677756"
proof (rule mpow_step [where red = "fold_red2 19 255" and bs = "[False, False, True, True, True, False, False, False, False, False, True, True, False, True, False, True, True, False, True, True, True, True, True, True, False, False, False, False, False, False, False, False]", OF red_p pw_p_xq236_4])
  show "mpow (fold_red2 19 255) 427094198651976259540344842774561673889945192655078505504941250475370961481 43212696407549048340183088799881863943380797803870698773975049607352091859437 [False, False, True, True, True, False, False, False, False, False, True, True, False, True, False, True, True, False, True, True, True, True, True, True, False, False, False, False, False, False, False, False] = 44423846786210531268020608428341574670565282455433269933391855555936280677756"
    by (simp only: mpow_eval)
  show "bits_val 1960304568726481212179567014022530052060134672591 [False, False, True, True, True, False, False, False, False, False, True, True, False, True, False, True, True, False, True, True, True, True, True, True, False, False, False, False, False, False, False, False] = 8419444012879621175469677204667139980775455844134955630336"
    by simp
qed

lemma pw_p_xq236_6: "pw 57896044618658097711785492504343953926634992332820282019728792003956564819949 427094198651976259540344842774561673889945192655078505504941250475370961481 36161236685820975733511341033722064783284651570051707842706621462080 22772710635225984970476670226846727287526824665216155064187402118027739720589"
proof (rule mpow_step [where red = "fold_red2 19 255" and bs = "[True, False, False, True, False, False, False, True, False, False, True, True, False, False, False, True, True, True, True, True, False, True, True, False, False, True, False, False, False, False, False, False]", OF red_p pw_p_xq236_5])
  show "mpow (fold_red2 19 255) 427094198651976259540344842774561673889945192655078505504941250475370961481 44423846786210531268020608428341574670565282455433269933391855555936280677756 [True, False, False, True, False, False, False, True, False, False, True, True, False, False, False, True, True, True, True, True, False, True, True, False, False, True, False, False, False, False, False, False] = 22772710635225984970476670226846727287526824665216155064187402118027739720589"
    by (simp only: mpow_eval)
  show "bits_val 8419444012879621175469677204667139980775455844134955630336 [True, False, False, True, False, False, False, True, False, False, True, True, False, False, False, True, True, True, True, True, False, True, True, False, False, True, False, False, False, False, False, False] = 36161236685820975733511341033722064783284651570051707842706621462080"
    by simp
qed

lemma pw_p_xq236_7: "pw 57896044618658097711785492504343953926634992332820282019728792003956564819949 427094198651976259540344842774561673889945192655078505504941250475370961481 74058212732561358302231226437062788676166966415465897661863160754340907 57896044618658097711785492504343953926634992332820282019728792003956564819950"
proof (rule mpow_step [where red = "fold_red2 19 255" and bs = "[True, False, False, False, False, True, False, True, False, True, True]", OF red_p pw_p_xq236_6])
  show "mpow (fold_red2 19 255) 427094198651976259540344842774561673889945192655078505504941250475370961481 22772710635225984970476670226846727287526824665216155064187402118027739720589 [True, False, False, False, False, True, False, True, False, True, True] = 57896044618658097711785492504343953926634992332820282019728792003956564819950"
    by (simp only: mpow_eval)
  show "bits_val 36161236685820975733511341033722064783284651570051707842706621462080 [True, False, False, False, False, True, False, True, False, True, True] = 74058212732561358302231226437062788676166966415465897661863160754340907"
    by simp
qed

lemma pw_p_aq236: "pw 57896044618658097711785492504343953926634992332820282019728792003956564819949 2 57896044618658097711785492504343953926634992332820282019728792003956564819948 57896044618658097711785492504343953926634992332820282019728792003956564819950"
  by (rule pw_chain [OF pw_p_g_0 pw_p_xq236_7]) simp

lemma pw_p_full: "pw 57896044618658097711785492504343953926634992332820282019728792003956564819949 2 57896044618658097711785492504343953926634992332820282019728792003956564819948 1"
  by (rule pw_one [where c = 1, OF pw_p_aq236]) simp

lemma cop_p_q236: "coprime 427094198651976259540344842774561673889945192655078505504941250475370961480 (57896044618658097711785492504343953926634992332820282019728792003956564819949 :: nat)"
  by (rule coprime_cert [where u = 55540832096118778044507775605005710249233119951144946814680141076505643269084 and v = 409719996120619553712206717513598108624848060785013849502386565616653579131]) (simp only: num_eval)

lemma prime_p: "is_prime 57896044618658097711785492504343953926634992332820282019728792003956564819949"
proof (rule prime_by_factors [where F = "74058212732561358302231226437062788676166966415465897661863160754340907"])
  show "1 < (57896044618658097711785492504343953926634992332820282019728792003956564819949 :: nat)" by simp
  show "(57896044618658097711785492504343953926634992332820282019728792003956564819949 :: nat) < (74058212732561358302231226437062788676166966415465897661863160754340907 + 1) * (74058212732561358302231226437062788676166966415465897661863160754340907 + 1)" by simp
  fix r assume r: "is_prime r" "r dvd 57896044618658097711785492504343953926634992332820282019728792003956564819949"
  have d0: "74058212732561358302231226437062788676166966415465897661863160754340907 dvd r - 1"
    by (rule pock_dvd [where n = 57896044618658097711785492504343953926634992332820282019728792003956564819949 and a = 2 and e = 57896044618658097711785492504343953926634992332820282019728792003956564819948 and k = 781764 and y = 427094198651976259540344842774561673889945192655078505504941250475370961481 and x = 427094198651976259540344842774561673889945192655078505504941250475370961480,
          OF _ prime_q236 pw_p_full _ _ pw_p_g_0 _ cop_p_q236 r]) simp_all
  show "74058212732561358302231226437062788676166966415465897661863160754340907 dvd r - 1" by (rule d0)
qed

lemma prime_P25519: "is_prime (nat P25519)"
  using prime_p by (simp add: P25519_eq)

section \<open>Correctness of the inversion\<close>

lemma mpi_val_upper_zero:
  "mpi_val (drop n u) = 0 \<Longrightarrow> mpi_val u = mpi_val (take n u)"
  using mpi_val_take_drop [of u n] by simp

lemma lsb_zero_iff_even:
  assumes "0 < length u"
  shows "u ! 0 AND 1 = 0 \<longleftrightarrow> even (mpi_val u)"
proof -
  obtain w ws where u: "u = w # ws" using assms by (cases u) auto
  have "w AND 1 = 0 \<longleftrightarrow> uint (w AND 1) = 0" by (simp add: uint_0_iff)
  also have "\<dots> \<longleftrightarrow> uint w mod 2 = 0" by (simp only: uint_and_1)
  also have "\<dots> \<longleftrightarrow> even (uint w)" by (simp add: even_iff_mod_2_eq_zero)
  also have "\<dots> \<longleftrightarrow> even (mpi_val u)" by (simp add: u)
  finally show ?thesis by (simp add: u)
qed

text \<open>The halving loops of gfp_inv end, with an odd number.\<close>
lemma inv_halve_spec:
  assumes n: "1 \<le> n" "n \<le> 8"
  shows "length u = 8 \<Longrightarrow> length x = 8 \<Longrightarrow> mpi_val (drop n u) = 0 \<Longrightarrow> 0 < mpi_val u \<Longrightarrow>
    (mpi_val x * A) mod P25519 = mpi_val u mod P25519 \<Longrightarrow>
    \<exists>u' x'. inv_halve n u x = Some (Inr (u', x')) \<and> length u' = 8 \<and> length x' = 8 \<and>
       mpi_val (drop n u') = 0 \<and> 0 < mpi_val u' \<and> odd (mpi_val u') \<and>
       mpi_val u' dvd mpi_val u \<and> (odd (mpi_val u) \<longrightarrow> mpi_val u' = mpi_val u) \<and>
       (mpi_val x' * A) mod P25519 = mpi_val u' mod P25519"
proof (induction "nat (mpi_val u)" arbitrary: u x rule: less_induct)
  case less
  note lu = \<open>length u = 8\<close> and lx = \<open>length x = 8\<close> and up = \<open>mpi_val (drop n u) = 0\<close>
    and pos = \<open>0 < mpi_val u\<close> and cg = \<open>(mpi_val x * A) mod P25519 = mpi_val u mod P25519\<close>
  have l0: "0 < length u" using lu by simp
  show ?case
  proof (cases "even (mpi_val u)")
    case False
    then have "u ! 0 AND 1 \<noteq> 0" using lsb_zero_iff_even [OF l0] by simp
    then have "inv_halve n u x = Some (Inr (u, x))" by (subst inv_halve.simps) simp
    then show ?thesis using lu lx up pos cg False by simp
  next
    case True
    define u1 where "u1 = snd (mpi_shr u u n)"
    define y where "y = gfp_hlv x x"
    have z: "u ! 0 AND 1 = 0" using lsb_zero_iff_even [OF l0] True by simp
    have e: "inv_halve n u x = inv_halve n u1 y"
      using n by (subst inv_halve.simps) (simp add: z u1_def y_def)
    have nl: "n \<le> length u" using n lu by simp
    note shr = mpi_shr_spec [OF n(1) nl, folded u1_def]
    have lu1: "length u1 = 8" using shr(1) lu by simp
    have up1: "mpi_val (drop n u1) = 0" using shr(2) up by simp
    have v1: "mpi_val u1 = mpi_val u div 2"
      using mpi_val_upper_zero [OF up] mpi_val_upper_zero [OF up1] shr(3) by simp
    have two: "2 * mpi_val u1 = mpi_val u" using True v1 by simp
    have pos1: "0 < mpi_val u1" using pos two by linarith
    note hl = gfp_hlv_val [OF lx lx, folded y_def]
    have "(2 * (mpi_val y * A)) mod P25519 = ((mpi_val x + (mpi_val x mod 2) * P25519) * A) mod P25519"
      using hl(2) by (simp add: mult.assoc [symmetric])
    also have "\<dots> = (mpi_val x * A + ((mpi_val x mod 2) * A) * P25519) mod P25519"
      by (simp add: algebra_simps)
    also have "\<dots> = (mpi_val x * A) mod P25519" by (rule mod_P_shift)
    also have "\<dots> = (2 * mpi_val u1) mod P25519" using cg two by simp
    finally have cg1: "(mpi_val y * A) mod P25519 = mpi_val u1 mod P25519" by (rule halve_cong)
    have "nat (mpi_val u1) < nat (mpi_val u)" using pos pos1 two by linarith
    from less.hyps [OF this lu1 hl(1) up1 pos1 cg1] obtain u' x' where
      r: "inv_halve n u1 y = Some (Inr (u', x'))" "length u' = 8" "length x' = 8"
         "mpi_val (drop n u') = 0" "0 < mpi_val u'" "odd (mpi_val u')"
         "mpi_val u' dvd mpi_val u1" "(mpi_val x' * A) mod P25519 = mpi_val u' mod P25519"
      by blast
    have "mpi_val u' dvd mpi_val u" using r(7) two by (metis dvd_mult)
    then show ?thesis using r True by (simp add: e)
  qed
qed

lemma drop_pred_zero:
  assumes n: "1 \<le> n" "n \<le> length u" and up: "mpi_val (drop n u) = 0" and top: "u ! (n - 1) = 0"
  shows "mpi_val (drop (n - 1) u) = 0"
proof -
  have "drop (n - 1) u = u ! (n - 1) # drop (Suc (n - 1)) u"
    using n by (intro Cons_nth_drop_Suc [symmetric]) simp
  then have "drop (n - 1) u = u ! (n - 1) # drop n u" using n by simp
  then show ?thesis using up top by simp
qed

lemma one_word_positive:
  assumes "1 \<le> length u" and "mpi_val (drop 1 u) = 0" and "0 < mpi_val u"
  shows "u ! 0 \<noteq> 0"
proof
  assume z: "u ! 0 = 0"
  obtain w ws where u: "u = w # ws" using assms(1) by (cases u) auto
  then show False using assms(2,3) z by simp
qed

text \<open>The end of an iteration: the top words are tested and uvlen is decremented.\<close>
lemma inv_dec_ok:
  assumes ok: "inv_ok A s1"
  shows "\<exists>s'. (if ux s1 ! (uvlen s1 - 1) = 0 \<and> vx s1 ! (uvlen s1 - 1) = 0
                then Inr (s1\<lparr>uvlen := uvlen s1 - 1\<rparr>) else Inr s1) = (Inr s' :: fault + inv_state) \<and>
          inv_ok A s' \<and> mpi_val (ux s') = mpi_val (ux s1) \<and> mpi_val (vx s') = mpi_val (vx s1)"
proof (cases "ux s1 ! (uvlen s1 - 1) = 0 \<and> vx s1 ! (uvlen s1 - 1) = 0")
  case False
  then show ?thesis using ok by auto
next
  case True
  from ok have l: "length (ux s1) = 8" "length (vx s1) = 8" and n: "1 \<le> uvlen s1" "uvlen s1 \<le> 8"
    and up: "mpi_val (drop (uvlen s1) (ux s1)) = 0" "mpi_val (drop (uvlen s1) (vx s1)) = 0"
    and pos: "0 < mpi_val (ux s1)"
    by (simp_all add: inv_ok_def inv_shape_def)
  have "uvlen s1 \<noteq> 1"
  proof
    assume "uvlen s1 = 1"
    then show False using one_word_positive [of "ux s1"] l up pos True by simp
  qed
  then have n2: "1 \<le> uvlen s1 - 1" "uvlen s1 - 1 \<le> 8" using n by arith+
  have "mpi_val (drop (uvlen s1 - 1) (ux s1)) = 0" "mpi_val (drop (uvlen s1 - 1) (vx s1)) = 0"
    using drop_pred_zero [of "uvlen s1" "ux s1"] drop_pred_zero [of "uvlen s1" "vx s1"] n l up True
    by simp_all
  then have "inv_ok A (s1\<lparr>uvlen := uvlen s1 - 1\<rparr>)"
    using ok n2 by (simp add: inv_ok_def inv_shape_def)
  then show ?thesis using True by simp
qed

lemma gfp_sub_cong:
  assumes l: "length a = 8" "length b = 8"
    and ca: "(mpi_val a * A) mod P25519 = U mod P25519"
    and cb: "(mpi_val b * A) mod P25519 = V mod P25519"
  shows "(mpi_val (gfp_sub a a b) * A) mod P25519 = (U - V) mod P25519"
proof -
  define k where "k = 4 - (8589934588 + uint (a ! 7) - uint (b ! 7)) div 2 ^ 31"
  have h: "mpi_val (gfp_sub a a b) = mpi_val a - mpi_val b + k * P25519"
    using gfp_sub_val(2) [OF l(1) l(2) l(1)] by (simp add: k_def)
  have "mpi_val (gfp_sub a a b) * A = (mpi_val a * A - mpi_val b * A) + (k * A) * P25519"
    by (simp add: h algebra_simps)
  then have "(mpi_val (gfp_sub a a b) * A) mod P25519 = (mpi_val a * A - mpi_val b * A) mod P25519"
    by (simp only: mod_P_shift)
  also have "\<dots> = (U - V) mod P25519" by (rule mod_diff_cong [OF ca cb])
  finally show ?thesis .
qed

text \<open>The subtraction step on two different odd coprime numbers.\<close>
lemma inv_sub_spec:
  assumes ok: "inv_ok A s" and ne: "mpi_val (ux s) \<noteq> mpi_val (vx s)"
  shows "\<exists>s'. inv_sub s = Inr s' \<and> inv_ok A s' \<and>
           mpi_val (ux s') + mpi_val (vx s') < mpi_val (ux s) + mpi_val (vx s)"
proof -
  define n where "n = uvlen s"
  define U where "U = mpi_val (ux s)"
  define V where "V = mpi_val (vx s)"
  from ok have l: "length (ux s) = 8" "length (vx s) = 8" "length (x1 s) = 8" "length (x2 s) = 8"
    and n: "1 \<le> n" "n \<le> 8"
    and up: "mpi_val (drop n (ux s)) = 0" "mpi_val (drop n (vx s)) = 0"
    and pos: "0 < U" "0 < V" and cop: "coprime U V"
    and cg: "(mpi_val (x1 s) * A) mod P25519 = U mod P25519"
            "(mpi_val (x2 s) * A) mod P25519 = V mod P25519"
    by (simp_all add: inv_ok_def inv_shape_def n_def U_def V_def)
  have tu: "mpi_val (take n (ux s)) = U" using mpi_val_upper_zero [OF up(1)] by (simp add: U_def)
  have tv: "mpi_val (take n (vx s)) = V" using mpi_val_upper_zero [OF up(2)] by (simp add: V_def)
  have ne': "U \<noteq> V" using ne by (simp add: U_def V_def)
  have c: "mpi_cmp (ux s) (vx s) (uvlen s) = Inr (sgn (U - V))"
    using mpi_cmp_spec [of n "ux s" "vx s"] n l unfolding tu tv by (simp add: n_def)
  define s1 where "s1 = (if U > V
                  then s\<lparr>ux := snd (mpi_sub (ux s) (ux s) (vx s) n),
                         x1 := gfp_sub (x1 s) (x1 s) (x2 s)\<rparr>
                  else s\<lparr>vx := snd (mpi_sub (vx s) (vx s) (ux s) n),
                         x2 := gfp_sub (x2 s) (x2 s) (x1 s)\<rparr>)"
  have n1: "uvlen s1 = n" by (simp add: s1_def n_def)
  have t: "(if sgn (U - V) \<ge> 0
                  then s\<lparr>ux := snd (mpi_sub (ux s) (ux s) (vx s) (uvlen s)),
                         x1 := gfp_sub (x1 s) (x1 s) (x2 s)\<rparr>
                  else s\<lparr>vx := snd (mpi_sub (vx s) (vx s) (ux s) (uvlen s)),
                         x2 := gfp_sub (x2 s) (x2 s) (x1 s)\<rparr>) = s1"
    using ne' by (simp add: s1_def n_def sgn_if)
  have "inv_sub s = (let s = s1
         in if uvlen s = 0 then Inl IndexOutOfRange
            else if ux s ! (uvlen s - 1) = 0 \<and> vx s ! (uvlen s - 1) = 0
                 then Inr (s\<lparr>uvlen := uvlen s - 1\<rparr>)
                 else Inr s)"
    by (simp only: inv_sub_def c sum.case t)
  then have e: "inv_sub s = (if ux s1 ! (uvlen s1 - 1) = 0 \<and> vx s1 ! (uvlen s1 - 1) = 0
                 then Inr (s1\<lparr>uvlen := uvlen s1 - 1\<rparr>) else Inr s1)"
    using n by (simp add: Let_def n1)
  have ok1: "inv_ok A s1 \<and> mpi_val (ux s1) + mpi_val (vx s1) < U + V"
  proof (cases "U > V")
    case True
    define w where "w = snd (mpi_sub (ux s) (ux s) (vx s) n)"
    have s1: "s1 = s\<lparr>ux := w, x1 := gfp_sub (x1 s) (x1 s) (x2 s)\<rparr>"
      using True by (simp add: s1_def w_def)
    have nl: "n \<le> length (ux s)" "n \<le> length (vx s)" using n l by simp_all
    note sb = mpi_sub_spec [OF nl(1) nl(2) nl(1), folded w_def]
    have b0: "fst (mpi_sub (ux s) (ux s) (vx s) n) = 0" using sb(3) True by (simp add: tu tv)
    have lw: "length w = 8" using sb(1) l by simp
    have upw: "mpi_val (drop n w) = 0" using sb(2) up by simp
    have vw: "mpi_val w = U - V"
      using mpi_val_upper_zero [OF upw] sb(4) b0 by (simp add: tu tv)
    have "gcd (U - V) V = gcd U V" by (rule gcd_diff1)
    then have cw: "coprime (U - V) V" using cop by (simp add: coprime_iff_gcd_eq_1)
    note g = gfp_sub_val(1) [OF l(3) l(4) l(3)] gfp_sub_cong [OF l(3) l(4) cg(1) cg(2)]
    have "inv_ok A s1"
      using ok lw upw vw cw g True pos
      by (simp add: inv_ok_def inv_shape_def s1 n_def [symmetric] U_def [symmetric] V_def [symmetric])
    moreover have "mpi_val (ux s1) + mpi_val (vx s1) < U + V"
      using vw pos by (simp add: s1 V_def [symmetric])
    ultimately show ?thesis by simp
  next
    case False
    then have lt: "U < V" using ne by (simp add: U_def V_def)
    define w where "w = snd (mpi_sub (vx s) (vx s) (ux s) n)"
    have s1: "s1 = s\<lparr>vx := w, x2 := gfp_sub (x2 s) (x2 s) (x1 s)\<rparr>"
      using False by (simp add: s1_def w_def)
    have nl: "n \<le> length (ux s)" "n \<le> length (vx s)" using n l by simp_all
    note sb = mpi_sub_spec [OF nl(2) nl(1) nl(2), folded w_def]
    have b0: "fst (mpi_sub (vx s) (vx s) (ux s) n) = 0" using sb(3) lt by (simp add: tu tv)
    have lw: "length w = 8" using sb(1) l by simp
    have upw: "mpi_val (drop n w) = 0" using sb(2) up by simp
    have vw: "mpi_val w = V - U"
      using mpi_val_upper_zero [OF upw] sb(4) b0 by (simp add: tu tv)
    have "gcd (V - U) U = gcd V U" by (rule gcd_diff1)
    then have cw: "coprime U (V - U)" using cop by (simp add: coprime_iff_gcd_eq_1 gcd.commute)
    note g = gfp_sub_val(1) [OF l(4) l(3) l(4)] gfp_sub_cong [OF l(4) l(3) cg(2) cg(1)]
    have "inv_ok A s1"
      using ok lw upw vw cw g lt pos
      by (simp add: inv_ok_def inv_shape_def s1 n_def [symmetric] U_def [symmetric] V_def [symmetric])
    moreover have "mpi_val (ux s1) + mpi_val (vx s1) < U + V"
      using vw pos by (simp add: s1 U_def [symmetric])
    ultimately show ?thesis by simp
  qed
  from inv_dec_ok [of A s1] ok1 obtain s' where
    "(if ux s1 ! (uvlen s1 - 1) = 0 \<and> vx s1 ! (uvlen s1 - 1) = 0
        then Inr (s1\<lparr>uvlen := uvlen s1 - 1\<rparr>) else Inr s1) = (Inr s' :: fault + inv_state)"
    "inv_ok A s'" "mpi_val (ux s') = mpi_val (ux s1)" "mpi_val (vx s') = mpi_val (vx s1)"
    by blast
  then show ?thesis using e ok1 by (auto simp add: U_def V_def)
qed

lemma inv_cond_iff:
  assumes ok: "inv_ok A s"
  shows "inv_cond s \<longleftrightarrow> mpi_val (ux s) \<noteq> 1 \<and> mpi_val (vx s) \<noteq> 1"
proof -
  from ok have l: "length (ux s) = 8" "length (vx s) = 8" and n: "1 \<le> uvlen s" "uvlen s \<le> 8"
    and up: "mpi_val (drop (uvlen s) (ux s)) = 0" "mpi_val (drop (uvlen s) (vx s)) = 0"
    by (simp_all add: inv_ok_def inv_shape_def)
  have "mpi_cmpw (ux s) 1 (uvlen s) = 0 \<longleftrightarrow> mpi_val (ux s) = 1"
    using mpi_cmpw_zero_iff [of "uvlen s" "ux s" 1] n l mpi_val_upper_zero [OF up(1)] by simp
  moreover have "mpi_cmpw (vx s) 1 (uvlen s) = 0 \<longleftrightarrow> mpi_val (vx s) = 1"
    using mpi_cmpw_zero_iff [of "uvlen s" "vx s" 1] n l mpi_val_upper_zero [OF up(2)] by simp
  ultimately show ?thesis by (simp add: inv_cond_def)
qed

text \<open>One iteration of the main loop keeps the invariant and makes the sum smaller.\<close>
lemma inv_body_spec:
  assumes ok: "inv_ok A s" and c: "inv_cond s"
  shows "\<exists>s'. inv_body s = Some (Inr s') \<and> inv_ok A s' \<and>
           mpi_val (ux s') + mpi_val (vx s') < mpi_val (ux s) + mpi_val (vx s)"
proof -
  define U where "U = mpi_val (ux s)"
  define V where "V = mpi_val (vx s)"
  from ok have l: "length (ux s) = 8" "length (vx s) = 8" "length (x1 s) = 8" "length (x2 s) = 8"
    and n: "1 \<le> uvlen s" "uvlen s \<le> 8"
    and up: "mpi_val (drop (uvlen s) (ux s)) = 0" "mpi_val (drop (uvlen s) (vx s)) = 0"
    and pos: "0 < U" "0 < V" and cop: "coprime U V"
    and cg: "(mpi_val (x1 s) * A) mod P25519 = mpi_val (ux s) mod P25519"
            "(mpi_val (x2 s) * A) mod P25519 = mpi_val (vx s) mod P25519"
    by (simp_all add: inv_ok_def inv_shape_def U_def V_def)
  have ne1: "U \<noteq> 1" "V \<noteq> 1" using c inv_cond_iff [OF ok] by (simp_all add: U_def V_def)
  from inv_halve_spec [OF n l(1) l(3) up(1) pos(1) [unfolded U_def] cg(1)] obtain u y1 where
    h1: "inv_halve (uvlen s) (ux s) (x1 s) = Some (Inr (u, y1))" "length u = 8" "length y1 = 8"
        "mpi_val (drop (uvlen s) u) = 0" "0 < mpi_val u" "odd (mpi_val u)" "mpi_val u dvd U"
        "odd U \<longrightarrow> mpi_val u = U" "(mpi_val y1 * A) mod P25519 = mpi_val u mod P25519"
    unfolding U_def by blast
  from inv_halve_spec [OF n l(2) l(4) up(2) pos(2) [unfolded V_def] cg(2)] obtain v y2 where
    h2: "inv_halve (uvlen s) (vx s) (x2 s) = Some (Inr (v, y2))" "length v = 8" "length y2 = 8"
        "mpi_val (drop (uvlen s) v) = 0" "0 < mpi_val v" "odd (mpi_val v)" "mpi_val v dvd V"
        "odd V \<longrightarrow> mpi_val v = V" "(mpi_val y2 * A) mod P25519 = mpi_val v mod P25519"
    unfolding V_def by blast
  define t where "t = s\<lparr>ux := u, x1 := y1, vx := v, x2 := y2\<rparr>"
  have b: "inv_body s = Some (inv_sub t)" by (simp add: inv_body_def h1(1) h2(1) t_def)
  have cuv: "coprime (mpi_val u) (mpi_val v)"
    by (rule coprime_divisors [OF h1(7) h2(7) cop])
  have okt: "inv_ok A t"
    using n h1 h2 cuv by (simp add: inv_ok_def inv_shape_def t_def)
  have ne: "mpi_val (ux t) \<noteq> mpi_val (vx t)"
  proof
    assume "mpi_val (ux t) = mpi_val (vx t)"
    then have e: "mpi_val u = mpi_val v" by (simp add: t_def)
    then have "is_unit (mpi_val u)" using cuv by simp
    then have u1: "mpi_val u = 1" using h1(5) by simp
    then have "even U" "even V" using h1(8) h2(8) e ne1 by auto
    then have "is_unit (2 :: int)" using cop by (meson coprime_common_divisor)
    then show False by simp
  qed
  from inv_sub_spec [OF okt ne] obtain s' where
    s': "inv_sub t = Inr s'" "inv_ok A s'"
        "mpi_val (ux s') + mpi_val (vx s') < mpi_val u + mpi_val v"
    by (auto simp add: t_def)
  have "mpi_val u \<le> U" "mpi_val v \<le> V"
    using h1(7) h2(7) pos by (simp_all add: zdvd_imp_le)
  then show ?thesis using b s' by (simp add: U_def V_def)
qed

text \<open>The main loop ends, with ux = 1 or vx = 1.\<close>
lemma inv_loop_spec:
  "inv_ok A s \<Longrightarrow> \<exists>s'. inv_loop s = Some (Inr s') \<and> inv_ok A s' \<and> \<not> inv_cond s'"
proof (induction "nat (mpi_val (ux s) + mpi_val (vx s))" arbitrary: s rule: less_induct)
  case less
  note ok = \<open>inv_ok A s\<close>
  show ?case
  proof (cases "inv_cond s")
    case False
    then have "inv_loop s = Some (Inr s)" by (subst inv_loop.simps) simp
    then show ?thesis using ok False by simp
  next
    case True
    from inv_body_spec [OF ok True] obtain s1 where
      s1: "inv_body s = Some (Inr s1)" "inv_ok A s1"
          "mpi_val (ux s1) + mpi_val (vx s1) < mpi_val (ux s) + mpi_val (vx s)" by blast
    have "0 < mpi_val (ux s1)" "0 < mpi_val (vx s1)" using s1(2) by (simp_all add: inv_ok_def)
    then have "nat (mpi_val (ux s1) + mpi_val (vx s1)) < nat (mpi_val (ux s) + mpi_val (vx s))"
      using s1(3) by linarith
    from less.hyps [OF this s1(2)] obtain s' where
      "inv_loop s1 = Some (Inr s')" "inv_ok A s'" "\<not> inv_cond s'" by blast
    moreover have "inv_loop s = inv_loop s1"
      using True s1(1) by (subst inv_loop.simps) simp
    ultimately show ?thesis by simp
  qed
qed

lemma coprime_P25519:
  assumes pr: "is_prime (nat P25519)" and u: "0 < u" "u < P25519"
  shows "coprime u P25519"
proof -
  have "\<not> nat P25519 dvd nat u"
  proof
    assume "nat P25519 dvd nat u"
    then have "nat P25519 \<le> nat u" using u(1) by (intro dvd_imp_le) simp_all
    then show False using u by simp
  qed
  then have "coprime (nat P25519) (nat u)" by (rule prime_coprime [OF pr])
  then have "coprime (int (nat P25519)) (int (nat u))" by (simp only: coprime_int_iff)
  then show ?thesis using u by (simp add: coprime_commute)
qed

text \<open>Inversion of an operand that is not 0 modulo p.\<close>
lemma gfp_inv_nonzero_case:
  assumes pr: "is_prime (nat P25519)"
    and la: "length a = 8" and lr: "length r = 8" and nz: "mpi_val a mod P25519 \<noteq> 0"
  shows "\<exists>r'. gfp_inv r a = Some (Inr (M25519_NO_ERROR, r')) \<and> length r' = 8 \<and>
           (mpi_val r' * mpi_val a) mod P25519 = 1"
proof -
  from inv_init_spec [OF la lr] obtain u where
    i: "inv_init r a = Some (Inr \<lparr>ux = u, vx = gfp_setp (replicate LEN 0),
            x1 = [1, 0, 0, 0, 0, 0, 0, 0], x2 = [0, 0, 0, 0, 0, 0, 0, 0], uvlen = LEN\<rparr>)"
      and u: "length u = 8" "mpi_val u = mpi_val a mod P25519" by blast
  define p0 where "p0 = gfp_setp (replicate LEN 0)"
  have p0: "length p0 = 8" "mpi_val p0 = P25519" by (simp_all add: p0_def length_setp mpi_val_setp)
  define s0 where "s0 = \<lparr>ux = u, vx = p0,
            x1 = [1, 0, 0, 0, 0, 0, 0, 0], x2 = [0, 0, 0, 0, 0, 0, 0, 0], uvlen = LEN\<rparr>"
  have up: "0 < mpi_val u" "mpi_val u < P25519"
    using nz P25519_pos pos_mod_sign [of P25519 "mpi_val a"] pos_mod_bound [of P25519 "mpi_val a"]
    unfolding u(2) by linarith+
  have cop: "coprime (mpi_val u) P25519" by (rule coprime_P25519 [OF pr up])
  have ok0: "inv_ok (mpi_val a) s0"
    using u cop up P25519_pos
    by (simp add: inv_ok_def inv_shape_def s0_def p0 LEN_eq)
  have nz0: "mpi_cmpw (ux s0) 0 LEN \<noteq> 0" using up(1) u(1) by (simp add: mpi_cmpw_full s0_def)
  from inv_loop_spec [OF ok0] obtain s' where
    s': "inv_loop s0 = Some (Inr s')" "inv_ok (mpi_val a) s'" "\<not> inv_cond s'" by blast
  from s'(2) have l: "length (ux s') = 8" "length (x1 s') = 8" "length (x2 s') = 8"
    and cg: "(mpi_val (x1 s') * mpi_val a) mod P25519 = mpi_val (ux s') mod P25519"
            "(mpi_val (x2 s') * mpi_val a) mod P25519 = mpi_val (vx s') mod P25519"
    by (simp_all add: inv_ok_def inv_shape_def)
  have one: "mpi_val (ux s') = 1 \<or> mpi_val (vx s') = 1"
    using s'(3) inv_cond_iff [OF s'(2)] by blast
  define r' where "r' = (if mpi_cmpw (ux s') 1 LEN = 0 then mpi_copy (x2 s') (x1 s') LEN else x2 s')"
  have g: "gfp_inv r a = Some (Inr (M25519_NO_ERROR, r'))"
    using nz0 by (simp add: gfp_inv_def i p0_def [symmetric] s0_def [symmetric] s'(1) r'_def)
  have P1: "1 mod P25519 = 1" by (simp add: P25519_eq)
  have t: "mpi_cmpw (ux s') 1 LEN = 0 \<longleftrightarrow> mpi_val (ux s') = 1"
    using l(1) by (simp add: mpi_cmpw_full)
  have "length r' = 8 \<and> (mpi_val r' * mpi_val a) mod P25519 = 1"
  proof (cases "mpi_val (ux s') = 1")
    case True
    then have "r' = x1 s'" using t l by (simp add: r'_def mpi_copy_full)
    then show ?thesis using l cg(1) True P1 by simp
  next
    case False
    then have "r' = x2 s'" using t by (simp add: r'_def)
    moreover have "mpi_val (vx s') = 1" using one False by simp
    ultimately show ?thesis using l cg(2) P1 by simp
  qed
  then show ?thesis using g by simp
qed

section \<open>Claims\<close>

text \<open>
  C3. For every 8-word input \<open>a\<close>, that is every value in [0, 2^256 - 1], also above
  \<open>2p\<close>, \<open>gfp_fred\<close> writes an 8-word \<open>r\<close> whose value lies in [0, p - 1] and is
  congruent to the value of \<open>a\<close> modulo \<open>p\<close>.
\<close>

theorem gfp_fred_canonical:
  "length a = 8 \<Longrightarrow> length r = 8 \<Longrightarrow>
     length (gfp_fred r a) = 8 \<and> 0 \<le> mpi_val (gfp_fred r a) \<and> mpi_val (gfp_fred r a) \<le> P25519 - 1 \<and>
     mpi_val (gfp_fred r a) mod P25519 = mpi_val a mod P25519"
proof -
  assume la: "length a = 8" and lr: "length r = 8"
  have v: "mpi_val (gfp_fred r a) = mpi_val a mod P25519" by (rule gfp_fred_spec [OF la lr])
  have "0 < P25519" by (simp add: P25519_eq)
  then have "0 \<le> mpi_val a mod P25519" "mpi_val a mod P25519 < P25519" by simp_all
  then show ?thesis using gfp_fred_spec(1) [OF la lr] by (simp add: v)
qed

theorem gfp_fred_canonical_witness:
  "length (replicate 8 (0xFFFFFFFF :: Word)) = 8 \<and> length (replicate 8 (0 :: Word)) = 8 \<and>
   length (gfp_fred (replicate 8 0) (replicate 8 0xFFFFFFFF)) = 8 \<and>
   0 \<le> mpi_val (gfp_fred (replicate 8 0) (replicate 8 0xFFFFFFFF)) \<and>
   mpi_val (gfp_fred (replicate 8 0) (replicate 8 0xFFFFFFFF)) \<le> P25519 - 1 \<and>
   mpi_val (gfp_fred (replicate 8 0) (replicate 8 0xFFFFFFFF)) mod P25519
     = mpi_val (replicate 8 0xFFFFFFFF) mod P25519"
  using gfp_fred_canonical [of "replicate 8 0xFFFFFFFF" "replicate 8 0"] by simp

text \<open>
  C6. \<open>mpi_cmpw\<close> is documented as a three-way comparison of \<open>a\<close> with \<open>[b, 0, ..., 0]\<close>:
  1 when \<open>a\<close> is greater, -1 when it is less. On the one-word array \<open>[5]\<close> and the word 3
  the source returns -1 although 5 > 3, and on \<open>[3]\<close> and 5 it returns 1.
\<close>

theorem mpi_cmpw_sign_swapped:
  "mpi_cmpw [5] 3 1 = - 1 \<and> mpi_cmpw [3] 5 1 = 1 \<and> mpi_val [5] > mpi_val [3]"
  by (simp add: mpi_cmpw_def)

text \<open>
  C2. For all 8-word \<open>a\<close> and \<open>b\<close>, \<open>gfp_add\<close> writes an 8-word \<open>r\<close> whose value is
  congruent to the sum of the values of \<open>a\<close> and \<open>b\<close> modulo \<open>p\<close> and lies in
  [0, 2p - 1]; and the full reduction of \<open>gfp_add\<close> of \<open>p - 1\<close> and 1 is the zero array.
\<close>

theorem gfp_add_correct:
  "length a = 8 \<Longrightarrow> length b = 8 \<Longrightarrow> length r = 8 \<Longrightarrow> length r' = 8 \<Longrightarrow>
     length (gfp_add r a b) = 8 \<and>
     mpi_val (gfp_add r a b) mod P25519 = (mpi_val a + mpi_val b) mod P25519 \<and>
     0 \<le> mpi_val (gfp_add r a b) \<and> mpi_val (gfp_add r a b) \<le> 2 * P25519 - 1 \<and>
     gfp_fred r' (gfp_add r
        [0xFFFFFFEC, 0xFFFFFFFF, 0xFFFFFFFF, 0xFFFFFFFF, 0xFFFFFFFF, 0xFFFFFFFF, 0xFFFFFFFF, 0x7FFFFFFF]
        [1, 0, 0, 0, 0, 0, 0, 0])
       = [0, 0, 0, 0, 0, 0, 0, 0]"
proof -
  assume la: "length a = 8" and lb: "length b = 8" and lr: "length r = 8" and lr': "length r' = 8"
  have cong: "mpi_val (gfp_add r x y) mod P25519 = (mpi_val x + mpi_val y) mod P25519"
    if "length x = 8" "length y = 8" for x y
    by (simp only: gfp_add_val(2) [OF that lr] mod_P_shift')
  let ?a = "[0xFFFFFFEC, 0xFFFFFFFF, 0xFFFFFFFF, 0xFFFFFFFF, 0xFFFFFFFF, 0xFFFFFFFF, 0xFFFFFFFF, 0x7FFFFFFF] :: Word list"
  let ?b = "[1, 0, 0, 0, 0, 0, 0, 0] :: Word list"
  have "mpi_val (gfp_add r ?a ?b) mod P25519 = (mpi_val ?a + mpi_val ?b) mod P25519"
    by (rule cong) simp_all
  also have "\<dots> = 0" by (simp add: P25519_eq)
  finally have "mpi_val (gfp_fred r' (gfp_add r ?a ?b)) = 0"
    using gfp_fred_spec(2) [of "gfp_add r ?a ?b" r'] gfp_add_val(1) [of ?a ?b r] lr lr' by simp
  moreover have "length (gfp_fred r' (gfp_add r ?a ?b)) = 8"
    using gfp_fred_spec(1) [of "gfp_add r ?a ?b" r'] gfp_add_val(1) [of ?a ?b r] lr lr' by simp
  ultimately have "gfp_fred r' (gfp_add r ?a ?b) = replicate 8 0"
    by (simp only: mpi_val_zero_iff)
  then have s1: "gfp_fred r' (gfp_add r ?a ?b) = [0, 0, 0, 0, 0, 0, 0, 0]"
    by (simp add: eval_nat_numeral)
  show ?thesis
    using gfp_add_val [OF la lb lr] cong [OF la lb] s1 mpi_val_ge0 [of "gfp_add r a b"] by simp
qed

theorem gfp_add_correct_witness:
  "length (replicate 8 (0xFFFFFFFF :: Word)) = 8 \<and> length (replicate 8 (0 :: Word)) = 8 \<and>
   mpi_val (gfp_add (replicate 8 0) (replicate 8 0xFFFFFFFF) (replicate 8 0xFFFFFFFF)) mod P25519
     = (mpi_val (replicate 8 0xFFFFFFFF) + mpi_val (replicate 8 0xFFFFFFFF)) mod P25519 \<and>
   mpi_val (gfp_add (replicate 8 0) (replicate 8 0xFFFFFFFF) (replicate 8 0xFFFFFFFF)) \<le> 2 * P25519 - 1"
  using gfp_add_correct [of "replicate 8 0xFFFFFFFF" "replicate 8 0xFFFFFFFF" "replicate 8 0" "replicate 8 0"]
  by simp

text \<open>
  C8. For all 8-word \<open>a\<close> and \<open>b\<close>, the formulation \<open>gfp_sub\<close> with a signed sum and an
  arithmetic shift and the formulation \<open>gfp_sub_v2\<close> with an unsigned sum and the
  pre-biased constants write the same eight words, and their value is congruent to the
  difference of the values of \<open>a\<close> and \<open>b\<close> modulo \<open>p\<close> and lies in [0, 2p - 1].
\<close>

theorem gfp_sub_v2_same:
  "length a = 8 \<Longrightarrow> length b = 8 \<Longrightarrow> length r = 8 \<Longrightarrow>
     gfp_sub_v2 r a b = gfp_sub r a b \<and> length (gfp_sub r a b) = 8 \<and>
     mpi_val (gfp_sub r a b) mod P25519 = (mpi_val a - mpi_val b) mod P25519 \<and>
     0 \<le> mpi_val (gfp_sub r a b) \<and> mpi_val (gfp_sub r a b) \<le> 2 * P25519 - 1"
proof -
  assume la: "length a = 8" and lb: "length b = 8" and lr: "length r = 8"
  have "mpi_val (gfp_sub_v2 r a b) = mpi_val (gfp_sub r a b)"
    by (simp only: gfp_sub_v2_val(2) [OF la lb lr] gfp_sub_val(2) [OF la lb lr])
  moreover have "length (gfp_sub_v2 r a b) = length (gfp_sub r a b)"
    by (simp only: gfp_sub_v2_val(1) [OF la lb lr] gfp_sub_val(1) [OF la lb lr])
  ultimately have "gfp_sub_v2 r a b = gfp_sub r a b" by (rule mpi_val_inj [rotated])
  moreover have "mpi_val (gfp_sub r a b) mod P25519 = (mpi_val a - mpi_val b) mod P25519"
    by (simp only: gfp_sub_val(2) [OF la lb lr] mod_P_shift)
  ultimately show ?thesis using gfp_sub_val [OF la lb lr] by simp
qed

theorem gfp_sub_v2_same_witness:
  "length (replicate 8 (0 :: Word)) = 8 \<and> length (replicate 8 (0xFFFFFFFF :: Word)) = 8 \<and>
   gfp_sub_v2 (replicate 8 0) (replicate 8 0) (replicate 8 0xFFFFFFFF)
     = gfp_sub (replicate 8 0) (replicate 8 0) (replicate 8 0xFFFFFFFF) \<and>
   mpi_val (gfp_sub (replicate 8 0) (replicate 8 0) (replicate 8 0xFFFFFFFF)) mod P25519
     = (mpi_val (replicate 8 0) - mpi_val (replicate 8 0xFFFFFFFF)) mod P25519"
  using gfp_sub_v2_same [of "replicate 8 0" "replicate 8 0xFFFFFFFF" "replicate 8 0"] by simp

text \<open>
  C5. For every 8-word \<open>a\<close>, \<open>gfp_hlv\<close> writes an 8-word \<open>r\<close> with value in [0, 2p - 1]:
  the value of \<open>a\<close> divided by 2 when that is even, and \<open>(a + p) / 2\<close> (so also congruent
  to it modulo \<open>p\<close>) when it is odd. Hence halving \<open>gfp_add(a, a)\<close> gives a value
  congruent to that of \<open>a\<close> modulo \<open>p\<close>.
\<close>

theorem gfp_hlv_correct:
  "length a = 8 \<Longrightarrow> length r = 8 \<Longrightarrow> length r' = 8 \<Longrightarrow>
     length (gfp_hlv r a) = 8 \<and> 0 \<le> mpi_val (gfp_hlv r a) \<and> mpi_val (gfp_hlv r a) \<le> 2 * P25519 - 1 \<and>
     (even (mpi_val a) \<longrightarrow> mpi_val (gfp_hlv r a) = mpi_val a div 2) \<and>
     (odd (mpi_val a) \<longrightarrow> mpi_val (gfp_hlv r a) = (mpi_val a + P25519) div 2 \<and>
        mpi_val (gfp_hlv r a) mod P25519 = ((mpi_val a + P25519) div 2) mod P25519) \<and>
     mpi_val (gfp_hlv r (gfp_add r' a a)) mod P25519 = mpi_val a mod P25519"
proof -
  assume la: "length a = 8" and lr: "length r = 8" and lr': "length r' = 8"
  have h: "2 * mpi_val (gfp_hlv r a) = mpi_val a + (mpi_val a mod 2) * P25519"
    by (rule gfp_hlv_val(2) [OF la lr])
  have b: "0 \<le> mpi_val a" "mpi_val a < 2 ^ 256" using mpi_val_lt_256 [OF la] by (simp_all add: mpi_val_ge0)
  have m: "0 \<le> mpi_val a mod 2" "mpi_val a mod 2 \<le> 1" by simp_all
  have e: "even (mpi_val a) \<longrightarrow> mpi_val (gfp_hlv r a) = mpi_val a div 2"
    using h by (auto simp: even_iff_mod_2_eq_zero)
  have o: "odd (mpi_val a) \<longrightarrow> mpi_val (gfp_hlv r a) = (mpi_val a + P25519) div 2"
  proof
    assume "odd (mpi_val a)"
    then have "mpi_val a mod 2 = 1" by (simp add: odd_iff_mod_2_eq_one)
    then have "2 * mpi_val (gfp_hlv r a) = mpi_val a + P25519" using h by simp
    then show "mpi_val (gfp_hlv r a) = (mpi_val a + P25519) div 2" by simp
  qed
  have hi: "mpi_val (gfp_hlv r a) \<le> 2 * P25519 - 1"
  proof -
    have "(mpi_val a mod 2) * P25519 \<le> 1 * P25519"
      using m by (intro mult_right_mono) (simp_all add: P25519_eq)
    then have "2 * mpi_val (gfp_hlv r a) \<le> 2 ^ 256 + P25519" using h b by simp
    then show ?thesis by (simp add: P25519_eq)
  qed
  let ?x = "gfp_add r' a a"
  have lx: "length ?x = 8" by (rule gfp_add_val(1) [OF la la lr'])
  have "2 * mpi_val (gfp_hlv r ?x) = mpi_val ?x + (mpi_val ?x mod 2) * P25519"
    by (rule gfp_hlv_val(2) [OF lx lr])
  then have "(2 * mpi_val (gfp_hlv r ?x)) mod P25519 = mpi_val ?x mod P25519"
    by (simp only: mod_P_shift)
  also have "\<dots> = (mpi_val a + mpi_val a) mod P25519"
    by (simp only: gfp_add_val(2) [OF la la lr'] mod_P_shift')
  also have "\<dots> = (2 * mpi_val a) mod P25519" by simp
  finally have "mpi_val (gfp_hlv r ?x) mod P25519 = mpi_val a mod P25519" by (rule halve_cong)
  then show ?thesis
    using gfp_hlv_val(1) [OF la lr] e o hi mpi_val_ge0 [of "gfp_hlv r a"] by simp
qed

theorem gfp_hlv_correct_witness:
  "length ([3, 0, 0, 0, 0, 0, 0, 0] :: Word list) = 8 \<and> length (replicate 8 (0 :: Word)) = 8 \<and>
   odd (mpi_val [3, 0, 0, 0, 0, 0, 0, 0]) \<and>
   mpi_val (gfp_hlv (replicate 8 0) [3, 0, 0, 0, 0, 0, 0, 0]) = (3 + P25519) div 2 \<and>
   mpi_val (gfp_hlv (replicate 8 0) (gfp_add (replicate 8 0) [3, 0, 0, 0, 0, 0, 0, 0] [3, 0, 0, 0, 0, 0, 0, 0]))
     mod P25519 = 3"
  using gfp_hlv_correct [of "[3, 0, 0, 0, 0, 0, 0, 0]" "replicate 8 0" "replicate 8 0"]
  by (simp add: P25519_eq)

text \<open>
  C1. For all 8-word \<open>a\<close> and \<open>b\<close>, \<open>gfp_mul\<close> writes an 8-word \<open>r\<close> whose value is
  congruent to the product of the values of \<open>a\<close> and \<open>b\<close> modulo \<open>p = 2^255 - 19\<close> and
  lies in [0, 2p - 1].
\<close>

theorem gfp_mul_correct:
  "length a = 8 \<Longrightarrow> length b = 8 \<Longrightarrow> length r = 8 \<Longrightarrow>
     length (gfp_mul r a b) = 8 \<and>
     mpi_val (gfp_mul r a b) mod P25519 = (mpi_val a * mpi_val b) mod P25519 \<and>
     0 \<le> mpi_val (gfp_mul r a b) \<and> mpi_val (gfp_mul r a b) \<le> 2 * P25519 - 1 \<and>
     P25519 = 2 ^ 255 - 19"
  using gfp_mul_val [of a b r] mpi_val_ge0 [of "gfp_mul r a b"] by (simp add: P25519_def)

theorem gfp_mul_correct_witness:
  "length (replicate 8 (0xFFFFFFFF :: Word)) = 8 \<and> length (replicate 8 (0 :: Word)) = 8 \<and>
   mpi_val (gfp_mul (replicate 8 0) (replicate 8 0xFFFFFFFF) (replicate 8 0xFFFFFFFF)) mod P25519
     = (mpi_val (replicate 8 0xFFFFFFFF) * mpi_val (replicate 8 0xFFFFFFFF)) mod P25519 \<and>
   mpi_val (gfp_mul (replicate 8 0) (replicate 8 0xFFFFFFFF) (replicate 8 0xFFFFFFFF)) \<le> 2 * P25519 - 1"
  using gfp_mul_correct [of "replicate 8 0xFFFFFFFF" "replicate 8 0xFFFFFFFF" "replicate 8 0"]
  by simp

text \<open>
  C7. Called with \<open>a = [0, ..., 0]\<close>, \<open>gfp_inv\<close> is said to return the error code of an
  inversion of zero and to leave the 8 words of \<open>r\<close> as they were before the call. The
  code is returned, but \<open>r\<close> is not left alone: \<open>x2\<close> is \<open>r\<close> itself, and
  \<open>mpi_setw(x2, 0, LEN)\<close> runs before the test for zero. With \<open>r = [1, 2, 3, 4, 5, 6, 7, 8]\<close>
  before the call, \<open>r\<close> is \<open>[0, 0, 0, 0, 0, 0, 0, 0]\<close> after it.
\<close>

theorem gfp_inv_zero_overwrites:
  "gfp_inv [1, 2, 3, 4, 5, 6, 7, 8] [0, 0, 0, 0, 0, 0, 0, 0]
     = Some (Inr (M25519_ERR_INVERS, [0, 0, 0, 0, 0, 0, 0, 0])) \<and>
   [0, 0, 0, 0, 0, 0, 0, 0] \<noteq> [1, 2, 3, 4, 5, 6, 7, 8 :: Word]"
  using gfp_inv_zero_case [of "[0, 0, 0, 0, 0, 0, 0, 0]" "[1, 2, 3, 4, 5, 6, 7, 8]"] by simp

text \<open>
  C7, amended. Called with \<open>a = [0, ..., 0]\<close> and any 8-word \<open>r\<close>, \<open>gfp_inv\<close> returns the
  error code of an inversion of zero and leaves \<open>[0, ..., 0]\<close> in \<open>r\<close>.
\<close>

theorem gfp_inv_zero_clears:
  "length r = 8 \<Longrightarrow>
     gfp_inv r (replicate 8 0) = Some (Inr (M25519_ERR_INVERS, replicate 8 0)) \<and>
     M25519_ERR_INVERS = 2"
  using gfp_inv_zero_case [of "replicate 8 0" r]
  by (simp add: eval_nat_numeral M25519_ERR_INVERS_def)

theorem gfp_inv_zero_clears_witness:
  "length (replicate 8 (0xFFFFFFFF :: Word)) = 8 \<and>
   gfp_inv (replicate 8 0xFFFFFFFF) (replicate 8 0) = Some (Inr (M25519_ERR_INVERS, replicate 8 0))"
  using gfp_inv_zero_clears [of "replicate 8 0xFFFFFFFF"] by simp

text \<open>
  C9. Every call of \<open>mpi_cmp\<close> from \<open>gfp_cmp\<close> and \<open>gfp_inv\<close> passes a length between 1 and
  \<open>WSIZE = 32\<close>: \<open>gfp_cmp\<close> and the first loop of \<open>gfp_inv\<close> pass \<open>LEN = 8\<close>, the main loop
  of \<open>gfp_inv\<close> passes \<open>uvlen\<close>, which stays between 1 and 8 in every state the loop
  reaches. So the assertion \<open>len \<le> WSIZE\<close> fails neither in \<open>gfp_cmp\<close> nor in \<open>gfp_inv\<close>.
  For \<open>1 \<le> len \<le> 32\<close>, \<open>mpi_cmp(a, b, len)\<close> returns the sign of \<open>a - b\<close>, the arrays
  read as \<open>len\<close>-word numbers.
\<close>

theorem mpi_cmp_calls_in_range:
  "length r = 8 \<Longrightarrow> length a = 8 \<Longrightarrow> length b = 8 \<Longrightarrow>
     WSIZE = 32 \<and> 1 \<le> LEN \<and> LEN \<le> WSIZE \<and>
     (\<forall>s. inv_reaches r a s \<longrightarrow> 1 \<le> uvlen s \<and> uvlen s \<le> WSIZE) \<and>
     gfp_cmp a b \<noteq> Inl AssertionFailed \<and>
     gfp_inv r a \<noteq> Some (Inl AssertionFailed) \<and>
     (\<forall>len x y. 1 \<le> len \<and> len \<le> 32 \<and> len \<le> length x \<and> len \<le> length y \<longrightarrow>
        mpi_cmp x y len = Inr (sgn (mpi_val (take len x) - mpi_val (take len y))))"
proof -
  assume lr: "length r = 8" and la: "length a = 8" and lb: "length b = 8"
  have "\<forall>s. inv_reaches r a s \<longrightarrow> 1 \<le> uvlen s \<and> uvlen s \<le> WSIZE"
  proof (intro allI impI)
    fix s assume "inv_reaches r a s"
    then have "inv_shape s" by (rule inv_reaches_shape [OF la lr])
    then show "1 \<le> uvlen s \<and> uvlen s \<le> WSIZE" by (simp add: inv_shape_def WSIZE_eq)
  qed
  moreover have "gfp_cmp a b \<noteq> Inl AssertionFailed"
    by (simp add: gfp_cmp_spec [OF la lb])
  moreover have "gfp_inv r a \<noteq> Some (Inl AssertionFailed)"
    by (rule gfp_inv_no_fault [OF la lr])
  moreover have "\<forall>len x y. 1 \<le> len \<and> len \<le> 32 \<and> len \<le> length x \<and> len \<le> length y \<longrightarrow>
        mpi_cmp x y len = Inr (sgn (mpi_val (take len x) - mpi_val (take len y)))"
    using mpi_cmp_spec by blast
  ultimately show ?thesis by (simp add: LEN_eq WSIZE_eq)
qed

theorem mpi_cmp_calls_in_range_witness:
  "inv_reaches (replicate 8 0) [2, 0, 0, 0, 0, 0, 0, 0]
     \<lparr>ux = [2, 0, 0, 0, 0, 0, 0, 0], vx = gfp_setp (replicate LEN 0),
      x1 = [1, 0, 0, 0, 0, 0, 0, 0], x2 = [0, 0, 0, 0, 0, 0, 0, 0], uvlen = LEN\<rparr> \<and>
   1 \<le> LEN \<and> LEN \<le> WSIZE \<and>
   gfp_cmp [2, 0, 0, 0, 0, 0, 0, 0] [3, 0, 0, 0, 0, 0, 0, 0] \<noteq> Inl AssertionFailed \<and>
   gfp_inv (replicate 8 0) [2, 0, 0, 0, 0, 0, 0, 0] \<noteq> Some (Inl AssertionFailed) \<and>
   mpi_cmp [5, 1] [7, 0] 2 = Inr 1"
proof -
  let ?s = "\<lparr>ux = [2, 0, 0, 0, 0, 0, 0, 0], vx = gfp_setp (replicate LEN 0),
      x1 = [1, 0, 0, 0, 0, 0, 0, 0], x2 = [0, 0, 0, 0, 0, 0, 0, 0], uvlen = LEN\<rparr>"
  have i: "inv_init (replicate 8 0) [2, 0, 0, 0, 0, 0, 0, 0] = Some (Inr ?s)"
    by code_simp
  have z: "mpi_cmpw (ux ?s) 0 LEN \<noteq> 0"
    by code_simp
  have r: "inv_reaches (replicate 8 0) [2, 0, 0, 0, 0, 0, 0, 0] ?s"
    using i z by (rule inv_reaches.start)
  have t: "WSIZE = 32 \<and> 1 \<le> LEN \<and> LEN \<le> WSIZE \<and>
     (\<forall>s. inv_reaches (replicate 8 0) [2, 0, 0, 0, 0, 0, 0, 0] s \<longrightarrow> 1 \<le> uvlen s \<and> uvlen s \<le> WSIZE) \<and>
     gfp_cmp [2, 0, 0, 0, 0, 0, 0, 0] [3, 0, 0, 0, 0, 0, 0, 0] \<noteq> Inl AssertionFailed \<and>
     gfp_inv (replicate 8 0) [2, 0, 0, 0, 0, 0, 0, 0] \<noteq> Some (Inl AssertionFailed) \<and>
     (\<forall>len x y. 1 \<le> len \<and> len \<le> 32 \<and> len \<le> length x \<and> len \<le> length y \<longrightarrow>
        mpi_cmp x y len = Inr (sgn (mpi_val (take len x) - mpi_val (take len y))))"
    using mpi_cmp_calls_in_range [of "replicate 8 0" "[2, 0, 0, 0, 0, 0, 0, 0]" "[3, 0, 0, 0, 0, 0, 0, 0]"]
    by simp
  from t have "\<forall>len x y. 1 \<le> len \<and> len \<le> 32 \<and> len \<le> length x \<and> len \<le> length y \<longrightarrow>
        mpi_cmp x y len = Inr (sgn (mpi_val (take len x) - mpi_val (take len y)))" by blast
  from this [rule_format, of 2 "[5, 1]" "[7, 0]"]
  have c: "mpi_cmp [5, 1] [7, 0] 2 = Inr 1" by simp
  from t r c show ?thesis by blast
qed

text \<open>
  C4. For 8-word \<open>a\<close> and \<open>r\<close>, \<open>gfp_inv r a\<close> returns, and the code it returns is the one
  of an inversion of zero (2) exactly when the value of \<open>a\<close> is congruent to 0 modulo \<open>p\<close>.
  For every other \<open>a\<close>, that is every value in [0, 2^256 - 1] not divisible by \<open>p\<close>, it
  returns 0 and leaves in \<open>r\<close> eight words such that the full reduction of the product
  of \<open>a\<close> and \<open>r\<close> computed by \<open>gfp_mul\<close> is \<open>[1, 0, 0, 0, 0, 0, 0, 0]\<close>, whatever the buffers
  \<open>t1\<close> and \<open>t2\<close> of the two results held before.
\<close>

theorem gfp_inv_correct:
  "length a = 8 \<Longrightarrow> length r = 8 \<Longrightarrow> length t1 = 8 \<Longrightarrow> length t2 = 8 \<Longrightarrow>
     (\<exists>c r'. gfp_inv r a = Some (Inr (c, r')) \<and> length r' = 8 \<and>
        (c = M25519_ERR_INVERS \<longleftrightarrow> mpi_val a mod P25519 = 0) \<and>
        (mpi_val a mod P25519 \<noteq> 0 \<longrightarrow>
           c = M25519_NO_ERROR \<and> gfp_fred t1 (gfp_mul t2 a r') = [1, 0, 0, 0, 0, 0, 0, 0])) \<and>
     M25519_ERR_INVERS = 2 \<and> M25519_NO_ERROR = 0"
proof -
  assume la: "length a = 8" and lr: "length r = 8" and l1: "length t1 = 8" and l2: "length t2 = 8"
  have codes: "M25519_ERR_INVERS = 2" "M25519_NO_ERROR = 0"
    by (simp_all add: M25519_ERR_INVERS_def M25519_NO_ERROR_def)
  have "\<exists>c r'. gfp_inv r a = Some (Inr (c, r')) \<and> length r' = 8 \<and>
        (c = M25519_ERR_INVERS \<longleftrightarrow> mpi_val a mod P25519 = 0) \<and>
        (mpi_val a mod P25519 \<noteq> 0 \<longrightarrow>
           c = M25519_NO_ERROR \<and> gfp_fred t1 (gfp_mul t2 a r') = [1, 0, 0, 0, 0, 0, 0, 0])"
  proof (cases "mpi_val a mod P25519 = 0")
    case True
    from gfp_inv_zero_case [OF la lr True] show ?thesis using True by simp
  next
    case False
    from gfp_inv_nonzero_case [OF prime_P25519 la lr False] obtain r' where
      r': "gfp_inv r a = Some (Inr (M25519_NO_ERROR, r'))" "length r' = 8"
          "(mpi_val r' * mpi_val a) mod P25519 = 1" by blast
    define m where "m = gfp_mul t2 a r'"
    note mu = gfp_mul_val [OF la r'(2) l2, folded m_def]
    note fr = gfp_fred_spec [OF mu(1) l1]
    have "mpi_val (gfp_fred t1 m) = 1" using fr(2) mu(2) r'(3) by (simp add: mult.commute)
    then have "mpi_val (gfp_fred t1 m) = mpi_val [1, 0, 0, 0, 0, 0, 0, 0]" by simp
    then have "gfp_fred t1 m = [1, 0, 0, 0, 0, 0, 0, 0]"
      using fr(1) by (intro mpi_val_inj) simp_all
    then show ?thesis using r' False codes by (simp add: m_def)
  qed
  then show ?thesis using codes by simp
qed

theorem gfp_inv_correct_witness:
  "length [2, 0, 0, 0, 0, 0, 0, 0 :: Word] = 8 \<and> length (replicate 8 (0 :: Word)) = 8 \<and>
   mpi_val [2, 0, 0, 0, 0, 0, 0, 0] mod P25519 \<noteq> 0 \<and>
   (\<exists>r'. gfp_inv (replicate 8 0) [2, 0, 0, 0, 0, 0, 0, 0] = Some (Inr (M25519_NO_ERROR, r')) \<and>
      length r' = 8 \<and>
      gfp_fred (replicate 8 0) (gfp_mul (replicate 8 0) [2, 0, 0, 0, 0, 0, 0, 0] r')
        = [1, 0, 0, 0, 0, 0, 0, 0])"
proof -
  have nz: "mpi_val [2, 0, 0, 0, 0, 0, 0, 0] mod P25519 \<noteq> 0" by (simp add: P25519_eq)
  from gfp_inv_correct [of "[2, 0, 0, 0, 0, 0, 0, 0]" "replicate 8 0" "replicate 8 0" "replicate 8 0"]
  obtain c r' where
    "gfp_inv (replicate 8 0) [2, 0, 0, 0, 0, 0, 0, 0] = Some (Inr (c, r'))" "length r' = 8"
    "mpi_val [2, 0, 0, 0, 0, 0, 0, 0] mod P25519 \<noteq> 0 \<longrightarrow>
       c = M25519_NO_ERROR \<and>
       gfp_fred (replicate 8 0) (gfp_mul (replicate 8 0) [2, 0, 0, 0, 0, 0, 0, 0] r')
         = [1, 0, 0, 0, 0, 0, 0, 0]"
    by auto
  then show ?thesis using nz by auto
qed

end
